(* ===== verification/P2P_Prelude.thy ===== *)
theory P2P_Prelude
  imports "HOL-Library.Word"
begin

text \<open>
  Shared vocabulary of the development: the machine integers of the C++ sources as words,
  byte strings as lists of bytes, the two byte orders the sources use, in-place writes into
  a byte buffer, and the facts about them that every component relies on.

  A fixed-size array (\<open>std::array\<close> or \<open>std::span\<close> of a static extent) is a byte list whose
  length the statements fix; a container size (\<open>size_t\<close>) is a natural number, because no
  container of the sources can reach $2^{64}$ elements.
\<close>

unbundle bit_operations_syntax

type_synonym byte = "8 word"
type_synonym u16 = "16 word"
type_synonym u32 = "32 word"
type_synonym u64 = "64 word"
type_synonym bytes = "byte list"

named_theorems wire_simps \<open>length and layout facts of the byte encoders\<close>
named_theorems codec_simps \<open>decode-after-encode facts of the scalar codecs\<close>

section \<open>Slices and in-place writes\<close>

text \<open>\<open>span_at off n f\<close> is what \<open>memcpy (dst, f.data () + off, n)\<close> reads.\<close>

definition span_at :: "nat \<Rightarrow> nat \<Rightarrow> 'a list \<Rightarrow> 'a list" where
  "span_at off n xs = take n (drop off xs)"

text \<open>\<open>write_at off bs v\<close> is the buffer \<open>v\<close> after \<open>memcpy (v.data () + off, bs, \<dots>)\<close>.\<close>

definition write_at :: "nat \<Rightarrow> 'a list \<Rightarrow> 'a list \<Rightarrow> 'a list" where
  "write_at off bs v = take off v @ bs @ drop (off + length bs) v"

lemma length_span_at [simp, wire_simps]: "length (span_at off n xs) = min n (length xs - off)"
  by (simp add: span_at_def)

lemma span_at_append_left [simp]:
  "off + n \<le> length xs \<Longrightarrow> span_at off n (xs @ ys) = span_at off n xs"
  by (simp add: span_at_def)

lemma span_at_append_right [simp]:
  "length xs \<le> off \<Longrightarrow> span_at off n (xs @ ys) = span_at (off - length xs) n ys"
  by (simp add: span_at_def)

lemma span_at_Cons_numeral [simp]: "span_at (numeral k) n (x # xs) = span_at (pred_numeral k) n xs"
  by (simp add: span_at_def numeral_eq_Suc)

lemma span_at_Cons_Suc [simp]: "span_at (Suc k) n (x # xs) = span_at k n xs"
  by (simp add: span_at_def)

lemma span_at_0 [simp]: "span_at 0 n xs = take n xs"
  by (simp add: span_at_def)

lemma span_at_all [simp]: "length xs = n \<Longrightarrow> span_at 0 n xs = xs"
  by (simp add: span_at_def)

lemma span_at_split: "span_at off (m + n) xs = span_at off m xs @ span_at (off + m) n xs"
  by (simp add: span_at_def take_add add.commute)

lemma length_write_at [simp, wire_simps]:
  "off + length bs \<le> length v \<Longrightarrow> length (write_at off bs v) = length v"
  by (simp add: write_at_def)

text \<open>A write right after a finished prefix extends the prefix.\<close>

lemma write_at_append:
  "length bs \<le> length v \<Longrightarrow> write_at (length pre) bs (pre @ v) = pre @ bs @ drop (length bs) v"
  by (simp add: write_at_def)

lemma write_at_prefix:
  "off = length pre \<Longrightarrow> length bs \<le> length v \<Longrightarrow>
     write_at off bs (pre @ v) = (pre @ bs) @ drop (length bs) v"
  by (simp add: write_at_def)

lemma map2_fst [simp]: "length xs = length ys \<Longrightarrow> map2 (\<lambda>x y. x) xs ys = xs"
  by (induction xs ys rule: list_induct2) auto

lemma map2_snd [simp]: "length xs = length ys \<Longrightarrow> map2 (\<lambda>x y. y) xs ys = ys"
  by (induction xs ys rule: list_induct2) auto

section \<open>Byte order\<close>

text \<open>
  Network byte order (\<open>htons\<close>, \<open>htonl\<close> followed by a \<open>memcpy\<close>) and the little-endian order of
  the cryptographic code, for one word of each width the sources use.
\<close>

definition be16 :: "u16 \<Rightarrow> bytes" where
  "be16 x = [ucast (drop_bit 8 x), ucast x]"

definition be16_dec :: "byte \<Rightarrow> byte \<Rightarrow> u16" where
  "be16_dec a b = push_bit 8 (ucast a) OR ucast b"

definition be32 :: "u32 \<Rightarrow> bytes" where
  "be32 x = [ucast (drop_bit 24 x), ucast (drop_bit 16 x), ucast (drop_bit 8 x), ucast x]"

definition be32_dec :: "byte \<Rightarrow> byte \<Rightarrow> byte \<Rightarrow> byte \<Rightarrow> u32" where
  "be32_dec a b c d =
     push_bit 24 (ucast a) OR push_bit 16 (ucast b) OR push_bit 8 (ucast c) OR ucast d"

lemma length_be [simp, wire_simps]: "length (be16 x) = 2" "length (be32 y) = 4"
  by (simp_all add: be16_def be32_def)

lemma be16_dec_be16 [simp, codec_simps]: "be16_dec (be16 x ! 0) (be16 x ! Suc 0) = x"
  by (rule bit_word_eqI) (auto simp: be16_def be16_dec_def bit_simps)

lemma be32_dec_be32 [simp, codec_simps]:
  "be32_dec (be32 x ! 0) (be32 x ! Suc 0) (be32 x ! 2) (be32 x ! 3) = x"
proof (rule bit_word_eqI)
  fix n assume "n < LENGTH(32)"
  then consider "n < 8" | "8 \<le> n" "n < 16" | "16 \<le> n" "n < 24" | "24 \<le> n" "n < 32"
    by force
  then show "bit (be32_dec (be32 x ! 0) (be32 x ! Suc 0) (be32 x ! 2) (be32 x ! 3)) n = bit x n"
    by cases (auto simp: be32_def be32_dec_def bit_simps)
qed

lemma byte_bit_high:
  "\<not> bit (b :: byte) (8 + n)" "\<not> bit (b :: byte) (16 + n)" "\<not> bit (b :: byte) (24 + n)"
  using bit_imp_le_length [of b] by fastforce+

lemma be16_be16_dec [simp, codec_simps]: "be16 (be16_dec a b) = [a, b]"
  by (auto simp: be16_def be16_dec_def bit_simps byte_bit_high intro!: bit_word_eqI)

lemma be32_be32_dec [simp, codec_simps]: "be32 (be32_dec a b c d) = [a, b, c, d]"
  by (auto simp: be32_def be32_dec_def bit_simps byte_bit_high intro!: bit_word_eqI)

lemma be16_dec_inj: "be16_dec a b = be16_dec a' b' \<longleftrightarrow> a = a' \<and> b = b'"
  by (metis be16_be16_dec list.inject)

text \<open>A frame is its first byte followed by consecutive slices.\<close>

lemma span_at_step: "off \<le> length f \<Longrightarrow> drop off f = span_at off n f @ drop (off + n) f"
  by (metis append_take_drop_id drop_drop add.commute span_at_def)

lemma span_at_2: "Suc off < length f \<Longrightarrow> span_at off 2 f = [f ! off, f ! (off + 1)]"
  by (simp add: span_at_def numeral_2_eq_2 Cons_nth_drop_Suc [symmetric] take_Suc_conv_app_nth)

lemma frame_split: "f \<noteq> [] \<Longrightarrow> f = f ! 0 # drop 1 f"
  by (cases f) auto

lemma be16_inj: "be16 x = be16 y \<Longrightarrow> x = y"
  by (metis be16_dec_be16)

lemma be32_inj: "be32 x = be32 y \<Longrightarrow> x = y"
  by (metis be32_dec_be32)

end
