(* ===== verification/Wire.thy ===== *)
theory Wire
  imports P2P_Prelude
begin

text \<open>
  The message layer of \<open>src/protocol/wire.hpp\<close> and \<open>src/protocol/wire.cpp\<close>: the message types,
  the structures that travel in frames, the builders, the type peek and the parsers. Every
  builder and parser is translated statement by statement; the lemmas show that each parser
  reads back what its builder wrote, what exactly it accepts, and that frames of different
  types cannot be confused.
\<close>

section \<open>Message types and payload structures\<close>

text \<open>
  \<open>enum class msg_type : uint8_t\<close> has a fixed underlying type, so \<open>static_cast\<close> of any byte is
  a value of the enum; the bytes that name no enumerator are \<open>Other_type\<close>.
\<close>

datatype msg_type =
    Register_node | Get_peers | Peer_list | Ok_msg
  | Hs_init | Hs_resp | Hs_finish
  | Encrypted
  | Other_type byte

fun msg_byte :: "msg_type \<Rightarrow> byte" where
  "msg_byte Register_node = 0x01"
| "msg_byte Get_peers = 0x02"
| "msg_byte Peer_list = 0x03"
| "msg_byte Ok_msg = 0x04"
| "msg_byte Hs_init = 0x10"
| "msg_byte Hs_resp = 0x11"
| "msg_byte Hs_finish = 0x12"
| "msg_byte Encrypted = 0x20"
| "msg_byte (Other_type b) = b"

definition msg_type_of :: "byte \<Rightarrow> msg_type" where
  "msg_type_of b =
     (if b = 0x01 then Register_node else if b = 0x02 then Get_peers
      else if b = 0x03 then Peer_list else if b = 0x04 then Ok_msg
      else if b = 0x10 then Hs_init else if b = 0x11 then Hs_resp
      else if b = 0x12 then Hs_finish else if b = 0x20 then Encrypted
      else Other_type b)"

record peer_info =
  ip :: bytes
  port :: u16
  pubkey :: bytes

record parsed_register =
  reg_port :: u16
  reg_pubkey :: bytes

record parsed_hs_resp =
  resp_eph_pk :: bytes
  resp_identity_pk :: bytes
  resp_sig :: bytes

record parsed_hs_finish =
  fin_identity_pk :: bytes
  fin_sig :: bytes

record parsed_encrypted =
  enc_nonce :: bytes
  enc_blob :: bytes

text \<open>The array extents of \<open>struct peer_info\<close>.\<close>

definition wf_peer :: "peer_info \<Rightarrow> bool" where
  "wf_peer p \<longleftrightarrow> length (ip p) = 4 \<and> length (pubkey p) = 32"

section \<open>Helpers\<close>

definition append_bytes :: "bytes \<Rightarrow> bytes \<Rightarrow> bytes" where
  "append_bytes v d = v @ d"

definition append_u16be :: "bytes \<Rightarrow> u16 \<Rightarrow> bytes" where
  "append_u16be v x = append_bytes v (be16 x)"

text \<open>\<open>read_u16be (f.data () + off)\<close>.\<close>

definition read_u16be :: "bytes \<Rightarrow> nat \<Rightarrow> u16" where
  "read_u16be f off = be16_dec (f ! off) (f ! (off + 1))"

section \<open>Builders\<close>

definition build_register :: "u16 \<Rightarrow> bytes \<Rightarrow> bytes" where
  "build_register p pk =
     append_bytes (append_u16be [msg_byte Register_node] p) pk"

definition build_get_peers :: bytes where
  "build_get_peers = [msg_byte Get_peers]"

text \<open>
  The loop of \<open>build_peer_list\<close>: the buffer is sized first and then filled in place, with a
  running offset.
\<close>

fun write_peers :: "nat \<Rightarrow> bytes \<Rightarrow> peer_info list \<Rightarrow> bytes" where
  "write_peers off v [] = v"
| "write_peers off v (p # ps) =
     (let v1 = write_at off (ip p) v; off1 = off + 4;
          v2 = write_at off1 (be16 (port p)) v1; off2 = off1 + 2;
          v3 = write_at off2 (pubkey p) v2; off3 = off2 + 32
      in write_peers off3 v3 ps)"

definition build_peer_list :: "peer_info list \<Rightarrow> bytes" where
  "build_peer_list peers =
     (let v = replicate (3 + length peers * 38) 0;
          v1 = v[0 := msg_byte Peer_list];
          cnt = be16 (word_of_nat (length peers));
          v2 = write_at 1 cnt v1
      in write_peers 3 v2 peers)"

definition build_ok :: bytes where
  "build_ok = [msg_byte Ok_msg]"

definition build_hs_init :: "bytes \<Rightarrow> bytes" where
  "build_hs_init eph_pk = append_bytes [msg_byte Hs_init] eph_pk"

definition build_hs_resp :: "bytes \<Rightarrow> bytes \<Rightarrow> bytes \<Rightarrow> bytes" where
  "build_hs_resp eph_pk identity_pk sig =
     append_bytes (append_bytes (append_bytes [msg_byte Hs_resp] eph_pk) identity_pk) sig"

definition build_hs_finish :: "bytes \<Rightarrow> bytes \<Rightarrow> bytes" where
  "build_hs_finish identity_pk sig =
     append_bytes (append_bytes [msg_byte Hs_finish] identity_pk) sig"

definition build_encrypted :: "bytes \<Rightarrow> bytes \<Rightarrow> bytes" where
  "build_encrypted nonce blob =
     (let v = replicate (13 + length blob) 0;
          v1 = v[0 := msg_byte Encrypted];
          v2 = write_at 1 nonce v1
      in write_at 13 blob v2)"

section \<open>Type peek and parsers\<close>

definition get_type :: "bytes \<Rightarrow> msg_type" where
  "get_type frame = (if frame = [] then Other_type 0x00 else msg_type_of (frame ! 0))"

definition parse_register :: "bytes \<Rightarrow> parsed_register option" where
  "parse_register f =
     (if length f < 35 then None
      else if f ! 0 \<noteq> msg_byte Register_node then None
      else Some \<lparr>reg_port = read_u16be f 1, reg_pubkey = span_at 3 32 f\<rparr>)"

text \<open>The loop of \<open>parse_peer_list\<close>, with the number of records still to read.\<close>

fun read_peers :: "bytes \<Rightarrow> nat \<Rightarrow> nat \<Rightarrow> peer_info list" where
  "read_peers f off 0 = []"
| "read_peers f off (Suc n) =
     (let i = span_at off 4 f; off1 = off + 4;
          pt = read_u16be f off1; off2 = off1 + 2;
          pk = span_at off2 32 f; off3 = off2 + 32
      in \<lparr>ip = i, port = pt, pubkey = pk\<rparr> # read_peers f off3 n)"

definition parse_peer_list :: "bytes \<Rightarrow> peer_info list option" where
  "parse_peer_list f =
     (if length f < 3 then None
      else if f ! 0 \<noteq> msg_byte Peer_list then None
      else let count = read_u16be f 1
           in if length f < 3 + unat count * 38 then None
              else Some (read_peers f 3 (unat count)))"

definition parse_hs_init :: "bytes \<Rightarrow> bytes option" where
  "parse_hs_init f =
     (if length f < 33 then None
      else if f ! 0 \<noteq> msg_byte Hs_init then None
      else Some (span_at 1 32 f))"

definition parse_hs_resp :: "bytes \<Rightarrow> parsed_hs_resp option" where
  "parse_hs_resp f =
     (if length f < 129 then None
      else if f ! 0 \<noteq> msg_byte Hs_resp then None
      else Some \<lparr>resp_eph_pk = span_at 1 32 f, resp_identity_pk = span_at 33 32 f,
                 resp_sig = span_at 65 64 f\<rparr>)"

definition parse_hs_finish :: "bytes \<Rightarrow> parsed_hs_finish option" where
  "parse_hs_finish f =
     (if length f < 97 then None
      else if f ! 0 \<noteq> msg_byte Hs_finish then None
      else Some \<lparr>fin_identity_pk = span_at 1 32 f, fin_sig = span_at 33 64 f\<rparr>)"

definition parse_encrypted :: "bytes \<Rightarrow> parsed_encrypted option" where
  "parse_encrypted f =
     (if length f < 29 then None
      else if f ! 0 \<noteq> msg_byte Encrypted then None
      else Some \<lparr>enc_nonce = span_at 1 12 f, enc_blob = drop 13 f\<rparr>)"

lemmas build_defs [wire_simps] =
  build_register_def build_get_peers_def build_ok_def build_hs_init_def build_hs_resp_def
  build_hs_finish_def append_u16be_def append_bytes_def

lemmas parse_defs =
  parse_register_def parse_hs_init_def parse_hs_resp_def parse_hs_finish_def parse_encrypted_def

section \<open>Layout\<close>

lemma msg_type_of_byte [simp]: "msg_byte (msg_type_of b) = b"
  by (simp add: msg_type_of_def)

lemma msg_byte_inj:
  "(\<forall>b. t \<noteq> Other_type b) \<Longrightarrow> (\<forall>b. u \<noteq> Other_type b) \<Longrightarrow> msg_byte t = msg_byte u \<longleftrightarrow> t = u"
  by (cases t; cases u) auto

text \<open>The wire form of one peer record, and of a whole list.\<close>

definition peer_bytes :: "peer_info \<Rightarrow> bytes" where
  "peer_bytes p = ip p @ be16 (port p) @ pubkey p"

lemma length_peer_bytes [simp]: "wf_peer p \<Longrightarrow> length (peer_bytes p) = 38"
  by (simp add: peer_bytes_def wf_peer_def)

lemma length_peers_bytes [simp]:
  "\<forall>p \<in> set ps. wf_peer p \<Longrightarrow> length (concat (map peer_bytes ps)) = length ps * 38"
  by (induction ps) auto

lemma write_peers_eq:
  assumes "\<forall>p \<in> set ps. wf_peer p" and "length rest = length ps * 38"
  shows "write_peers (length pre) (pre @ rest) ps = pre @ concat (map peer_bytes ps)"
  using assms
proof (induction ps arbitrary: pre rest)
  case Nil
  then show ?case by simp
next
  case (Cons p ps)
  let ?pre = "pre @ peer_bytes p"
  have wf: "wf_peer p" and len: "38 \<le> length rest" "length (drop 38 rest) = length ps * 38"
    using Cons.prems by auto
  from wf len have "write_peers (length pre) (pre @ rest) (p # ps) =
      write_peers (length ?pre) (?pre @ drop 38 rest) ps"
    by (simp add: write_at_def peer_bytes_def wf_peer_def add.commute)
  also have "\<dots> = ?pre @ concat (map peer_bytes ps)"
    using Cons.prems len by (intro Cons.IH) auto
  finally show ?case by simp
qed

lemma build_peer_list_eq:
  assumes "\<forall>p \<in> set ps. wf_peer p"
  shows "build_peer_list ps =
    msg_byte Peer_list # be16 (word_of_nat (length ps)) @ concat (map peer_bytes ps)"
proof -
  let ?pre = "msg_byte Peer_list # be16 (word_of_nat (length ps))"
  have "build_peer_list ps = write_peers (length ?pre) (?pre @ replicate (length ps * 38) 0) ps"
    by (simp add: build_peer_list_def write_at_def numeral_3_eq_3 replicate_add)
  also have "\<dots> = ?pre @ concat (map peer_bytes ps)"
    using assms by (intro write_peers_eq) auto
  finally show ?thesis by simp
qed

lemma build_encrypted_eq:
  "length nonce = 12 \<Longrightarrow> build_encrypted nonce blob = msg_byte Encrypted # nonce @ blob"
  by (simp add: build_encrypted_def write_at_def replicate_add numeral_eq_Suc)

lemma length_build_encrypted [simp]:
  "length nonce = 12 \<Longrightarrow> length (build_encrypted nonce blob) = 13 + length blob"
  by (simp add: build_encrypted_eq)

section \<open>What the parsers accept\<close>

lemma parse_register_exact:
  "parse_register f = Some r \<longleftrightarrow>
     (\<exists>t. f = build_register (reg_port r) (reg_pubkey r) @ t) \<and> length (reg_pubkey r) = 32"
proof
  assume p: "parse_register f = Some r"
  then have len: "35 \<le> length f" and b: "f ! 0 = msg_byte Register_node"
    and r: "r = \<lparr>reg_port = read_u16be f 1, reg_pubkey = span_at 3 32 f\<rparr>"
    by (auto simp: parse_register_def split: if_splits)
  have ne: "f \<noteq> []" using len by auto
  have "f = f ! 0 # span_at 1 2 f @ span_at 3 32 f @ drop 35 f"
    using len frame_split [OF ne] span_at_step [of 1 f 2] span_at_step [of 3 f 32]
    by (auto simp: numeral_3_eq_3)
  then have "f = build_register (reg_port r) (reg_pubkey r) @ drop 35 f"
    using len b by (simp add: r build_register_def append_u16be_def append_bytes_def
        read_u16be_def span_at_2)
  moreover have "length (reg_pubkey r) = 32" using len r by simp
  ultimately show "(\<exists>t. f = build_register (reg_port r) (reg_pubkey r) @ t) \<and>
      length (reg_pubkey r) = 32" by blast
next
  assume "(\<exists>t. f = build_register (reg_port r) (reg_pubkey r) @ t) \<and> length (reg_pubkey r) = 32"
  then obtain t where f: "f = build_register (reg_port r) (reg_pubkey r) @ t"
    and len: "length (reg_pubkey r) = 32" by blast
  then show "parse_register f = Some r"
    by (simp add: parse_register_def build_register_def append_u16be_def append_bytes_def
        read_u16be_def nth_append)
qed

lemma parse_hs_init_exact:
  "parse_hs_init f = Some pk \<longleftrightarrow> (\<exists>t. f = build_hs_init pk @ t) \<and> length pk = 32"
proof
  assume p: "parse_hs_init f = Some pk"
  then have len: "33 \<le> length f" and b: "f ! 0 = msg_byte Hs_init" and pk: "pk = span_at 1 32 f"
    by (auto simp: parse_hs_init_def split: if_splits)
  have ne: "f \<noteq> []" using len by auto
  have "f = f ! 0 # span_at 1 32 f @ drop 33 f"
    using len frame_split [OF ne] span_at_step [of 1 f 32] by auto
  then have "f = build_hs_init pk @ drop 33 f"
    using b by (simp add: pk build_hs_init_def append_bytes_def)
  then show "(\<exists>t. f = build_hs_init pk @ t) \<and> length pk = 32" using len pk by auto
qed (auto simp: parse_hs_init_def build_hs_init_def append_bytes_def)

lemma parse_hs_resp_exact:
  "parse_hs_resp f = Some r \<longleftrightarrow>
     (\<exists>t. f = build_hs_resp (resp_eph_pk r) (resp_identity_pk r) (resp_sig r) @ t) \<and>
     length (resp_eph_pk r) = 32 \<and> length (resp_identity_pk r) = 32 \<and> length (resp_sig r) = 64"
proof
  assume p: "parse_hs_resp f = Some r"
  then have len: "129 \<le> length f" and b: "f ! 0 = msg_byte Hs_resp"
    and r: "r = \<lparr>resp_eph_pk = span_at 1 32 f, resp_identity_pk = span_at 33 32 f, resp_sig = span_at 65 64 f\<rparr>"
    by (auto simp: parse_hs_resp_def split: if_splits)
  have ne: "f \<noteq> []" using len by auto
  have "f = f ! 0 # span_at 1 32 f @ span_at 33 32 f @ span_at 65 64 f @ drop 129 f"
    using len frame_split [OF ne] span_at_step [of 1 f 32] span_at_step [of 33 f 32]
      span_at_step [of 65 f 64] by auto
  then have "f = build_hs_resp (resp_eph_pk r) (resp_identity_pk r) (resp_sig r) @ drop 129 f"
    using b by (simp add: r build_hs_resp_def append_bytes_def)
  then show "(\<exists>t. f = build_hs_resp (resp_eph_pk r) (resp_identity_pk r) (resp_sig r) @ t) \<and>
     length (resp_eph_pk r) = 32 \<and> length (resp_identity_pk r) = 32 \<and> length (resp_sig r) = 64"
    using len r by auto
qed (auto simp: parse_hs_resp_def build_hs_resp_def append_bytes_def)

lemma parse_hs_finish_exact:
  "parse_hs_finish f = Some r \<longleftrightarrow>
     (\<exists>t. f = build_hs_finish (fin_identity_pk r) (fin_sig r) @ t) \<and>
     length (fin_identity_pk r) = 32 \<and> length (fin_sig r) = 64"
proof
  assume p: "parse_hs_finish f = Some r"
  then have len: "97 \<le> length f" and b: "f ! 0 = msg_byte Hs_finish"
    and r: "r = \<lparr>fin_identity_pk = span_at 1 32 f, fin_sig = span_at 33 64 f\<rparr>"
    by (auto simp: parse_hs_finish_def split: if_splits)
  have ne: "f \<noteq> []" using len by auto
  have "f = f ! 0 # span_at 1 32 f @ span_at 33 64 f @ drop 97 f"
    using len frame_split [OF ne] span_at_step [of 1 f 32] span_at_step [of 33 f 64] by auto
  then have "f = build_hs_finish (fin_identity_pk r) (fin_sig r) @ drop 97 f"
    using b by (simp add: r build_hs_finish_def append_bytes_def)
  then show "(\<exists>t. f = build_hs_finish (fin_identity_pk r) (fin_sig r) @ t) \<and>
     length (fin_identity_pk r) = 32 \<and> length (fin_sig r) = 64"
    using len r by auto
qed (auto simp: parse_hs_finish_def build_hs_finish_def append_bytes_def)

lemma parse_encrypted_exact:
  "parse_encrypted f = Some e \<longleftrightarrow>
     f = build_encrypted (enc_nonce e) (enc_blob e) \<and>
     length (enc_nonce e) = 12 \<and> 16 \<le> length (enc_blob e)"
proof
  assume p: "parse_encrypted f = Some e"
  then have len: "29 \<le> length f" and b: "f ! 0 = msg_byte Encrypted"
    and e: "e = \<lparr>enc_nonce = span_at 1 12 f, enc_blob = drop 13 f\<rparr>"
    by (auto simp: parse_encrypted_def split: if_splits)
  have ne: "f \<noteq> []" using len by auto
  have "f = f ! 0 # span_at 1 12 f @ drop 13 f"
    using len frame_split [OF ne] span_at_step [of 1 f 12] by auto
  then show "f = build_encrypted (enc_nonce e) (enc_blob e) \<and>
     length (enc_nonce e) = 12 \<and> 16 \<le> length (enc_blob e)"
    using len b e by (simp add: build_encrypted_eq)
qed (auto simp: parse_encrypted_def build_encrypted_eq)

lemma read_peers_eq:
  assumes "\<forall>p \<in> set ps. wf_peer p"
  shows "read_peers (pre @ concat (map peer_bytes ps) @ t) (length pre) (length ps) = ps"
  using assms
proof (induction ps arbitrary: pre)
  case Nil
  then show ?case by simp
next
  case (Cons p ps)
  have wf: "length (ip p) = 4" "length (pubkey p) = 32"
    using Cons.prems by (auto simp: wf_peer_def)
  have "read_peers ((pre @ peer_bytes p) @ concat (map peer_bytes ps) @ t)
          (length (pre @ peer_bytes p)) (length ps) = ps"
    using Cons.prems by (intro Cons.IH) auto
  then show ?case
    using wf by (simp add: peer_bytes_def [of p] read_u16be_def nth_append add.commute)
qed

lemma read_peers_wf:
  "off + n * 38 \<le> length f \<Longrightarrow> list_all wf_peer (read_peers f off n)"
  by (induction n arbitrary: off) (auto simp: wf_peer_def)

lemma length_read_peers [simp]: "length (read_peers f off n) = n"
  by (induction n arbitrary: off) auto

lemma read_peers_bytes:
  "off + n * 38 \<le> length f \<Longrightarrow>
     concat (map peer_bytes (read_peers f off n)) = span_at off (n * 38) f"
proof (induction n arbitrary: off)
  case 0
  then show ?case by (simp add: span_at_def)
next
  case (Suc n)
  have "span_at off (38 + n * 38) f =
      span_at off 4 f @ span_at (off + 4) 2 f @ span_at (off + 6) 32 f @ span_at (off + 38) (n * 38) f"
    using span_at_split [of off 4 34 f] span_at_split [of "off + 4" 2 32 f]
      span_at_split [of off 38 "n * 38" f] by (simp add: add.commute)
  moreover have "span_at (off + 4) 2 f = [f ! (off + 4), f ! (off + 5)]"
    using Suc.prems span_at_2 [of "off + 4" f] by (simp add: add.commute)
  moreover have "concat (map peer_bytes (read_peers f (off + 38) n)) = span_at (off + 38) (n * 38) f"
    using Suc.prems by (intro Suc.IH) simp
  ultimately show ?case
    by (simp add: peer_bytes_def [of "\<lparr>ip = i, port = q, pubkey = k\<rparr>" for i q k]
        read_u16be_def add.commute)
qed

text \<open>
  \<open>static_cast<uint16_t>(peers.size ())\<close> keeps the low 16 bits of the count, so a list of
  65536 or more peers is read back cut to its length modulo $2^{16}$.
\<close>

lemma parse_build_peer_list:
  assumes "list_all wf_peer ps"
  shows "parse_peer_list (build_peer_list ps @ t) = Some (take (length ps mod 65536) ps)"
proof -
  let ?n = "length ps mod 65536"
  let ?q = "take ?n ps"
  let ?pre = "msg_byte Peer_list # be16 (word_of_nat (length ps))"
  let ?f = "build_peer_list ps @ t"
  have wf: "\<forall>p \<in> set ps. wf_peer p" using assms by (simp add: list_all_iff)
  have f: "?f = ?pre @ concat (map peer_bytes ps) @ t"
    using wf by (simp add: build_peer_list_eq)
  have cnt: "unat (read_u16be ?f 1) = ?n"
    by (simp add: f read_u16be_def nth_append unat_of_nat)
  have nle: "?n \<le> length ps" by (rule mod_less_eq_dividend)
  have split: "?f = ?pre @ concat (map peer_bytes ?q) @ concat (map peer_bytes (drop ?n ps)) @ t"
    unfolding f by (metis append.assoc append_take_drop_id concat_append map_append)
  have wq: "\<forall>p \<in> set ?q. wf_peer p" using wf by (meson in_set_takeD)
  have "read_peers ?f 3 (length ?q) = ?q"
    unfolding split using read_peers_eq [OF wq, of ?pre] by simp
  then have "read_peers ?f 3 ?n = ?q" using nle by simp
  moreover have "3 + ?n * 38 \<le> length ?f" and "?f ! 0 = msg_byte Peer_list"
    using nle wf by (simp_all add: f)
  ultimately show ?thesis
    unfolding parse_peer_list_def Let_def cnt by simp
qed

lemma parse_peer_list_exact:
  "parse_peer_list f = Some ps \<longleftrightarrow>
     (\<exists>t. f = build_peer_list ps @ t) \<and> list_all wf_peer ps \<and> length ps < 65536"
proof
  assume p: "parse_peer_list f = Some ps"
  let ?n = "unat (read_u16be f 1)"
  from p have len: "3 + ?n * 38 \<le> length f" and b: "f ! 0 = msg_byte Peer_list"
    and ps: "ps = read_peers f 3 ?n"
    by (auto simp: parse_peer_list_def Let_def split: if_splits)
  have wf: "list_all wf_peer ps" and n: "length ps = ?n"
    using len read_peers_wf [of 3 ?n f] by (simp_all add: ps)
  have small: "length ps < 65536" using n unsigned_less [of "read_u16be f 1"] by simp
  have ne: "f \<noteq> []" using len by auto
  have "f = f ! 0 # span_at 1 2 f @ span_at 3 (?n * 38) f @ drop (3 + ?n * 38) f"
    using len frame_split [OF ne] span_at_step [of 1 f 2] span_at_step [of 3 f "?n * 38"]
    by (auto simp: numeral_3_eq_3)
  moreover have "span_at 1 2 f = be16 (word_of_nat (length ps))"
    using len n by (simp add: span_at_2 read_u16be_def)
  moreover have "span_at 3 (?n * 38) f = concat (map peer_bytes ps)"
    using len by (simp add: ps read_peers_bytes)
  ultimately have "f = build_peer_list ps @ drop (3 + ?n * 38) f"
    using wf b by (simp add: build_peer_list_eq list_all_iff)
  with wf small show "(\<exists>t. f = build_peer_list ps @ t) \<and> list_all wf_peer ps \<and> length ps < 65536"
    by blast
next
  assume "(\<exists>t. f = build_peer_list ps @ t) \<and> list_all wf_peer ps \<and> length ps < 65536"
  then show "parse_peer_list f = Some ps" using parse_build_peer_list by auto
qed

section \<open>Type dispatch\<close>

lemma msg_type_of_simps [simp]:
  "msg_type_of 0x01 = Register_node" "msg_type_of 0x02 = Get_peers"
  "msg_type_of 0x03 = Peer_list" "msg_type_of 0x04 = Ok_msg"
  "msg_type_of 0x10 = Hs_init" "msg_type_of 0x11 = Hs_resp"
  "msg_type_of 0x12 = Hs_finish" "msg_type_of 0x20 = Encrypted"
  by (simp_all add: msg_type_of_def)

lemma get_type_build [simp]:
  "get_type (build_register p pk) = Register_node" "get_type build_get_peers = Get_peers"
  "get_type build_ok = Ok_msg" "get_type (build_hs_init e) = Hs_init"
  "get_type (build_hs_resp e i sg) = Hs_resp" "get_type (build_hs_finish i sg) = Hs_finish"
  by (simp_all add: get_type_def build_defs build_hs_resp_def build_hs_finish_def)

lemma get_type_parsed:
  "parse_register f = Some r \<Longrightarrow> get_type f = Register_node"
  "parse_peer_list f = Some ps \<Longrightarrow> get_type f = Peer_list"
  "parse_hs_init f = Some a \<Longrightarrow> get_type f = Hs_init"
  "parse_hs_resp f = Some b \<Longrightarrow> get_type f = Hs_resp"
  "parse_hs_finish f = Some c \<Longrightarrow> get_type f = Hs_finish"
  "parse_encrypted f = Some d \<Longrightarrow> get_type f = Encrypted"
  by (auto simp: parse_defs parse_peer_list_def get_type_def Let_def split: if_splits)

section \<open>Properties\<close>

text \<open>
  C24. Every parser accepts exactly the frames its builder can produce: the fields it returns,
  put back into the builder, give the frame (up to trailing bytes, which all parsers but
  \<open>parse_encrypted\<close> ignore), and the field lengths are the array extents of the structures.
\<close>

theorem parsers_accept_exactly_built_frames:
  "(parse_register f = Some r \<longleftrightarrow>
      (\<exists>t. f = build_register (reg_port r) (reg_pubkey r) @ t) \<and> length (reg_pubkey r) = 32) \<and>
   (parse_peer_list f = Some ps \<longleftrightarrow>
      (\<exists>t. f = build_peer_list ps @ t) \<and> list_all wf_peer ps \<and> length ps < 65536) \<and>
   (parse_hs_init f = Some pk \<longleftrightarrow> (\<exists>t. f = build_hs_init pk @ t) \<and> length pk = 32) \<and>
   (parse_hs_resp f = Some rr \<longleftrightarrow>
      (\<exists>t. f = build_hs_resp (resp_eph_pk rr) (resp_identity_pk rr) (resp_sig rr) @ t) \<and>
      length (resp_eph_pk rr) = 32 \<and> length (resp_identity_pk rr) = 32 \<and> length (resp_sig rr) = 64) \<and>
   (parse_hs_finish f = Some rf \<longleftrightarrow>
      (\<exists>t. f = build_hs_finish (fin_identity_pk rf) (fin_sig rf) @ t) \<and>
      length (fin_identity_pk rf) = 32 \<and> length (fin_sig rf) = 64) \<and>
   (parse_encrypted f = Some e \<longleftrightarrow>
      f = build_encrypted (enc_nonce e) (enc_blob e) \<and>
      length (enc_nonce e) = 12 \<and> 16 \<le> length (enc_blob e))"
  by (intro conjI parse_register_exact parse_peer_list_exact parse_hs_init_exact
      parse_hs_resp_exact parse_hs_finish_exact parse_encrypted_exact)

text \<open>
  A peer list of any length is read back with its length cut to 16 bits: up to 65535 peers
  the list survives unchanged, and a longer one is truncated, because \<open>build_peer_list\<close> casts
  the count to \<open>uint16_t\<close>.
\<close>

theorem peer_list_round_trip:
  assumes "list_all wf_peer ps"
  shows "parse_peer_list (build_peer_list ps) = Some (take (length ps mod 65536) ps)"
  using parse_build_peer_list [OF assms, of "[]"] by simp

definition sample_peer :: peer_info where
  "sample_peer = \<lparr>ip = [127, 0, 0, 1], port = 9000, pubkey = replicate 32 7\<rparr>"

theorem peer_list_round_trip_witness:
  "parse_peer_list (build_peer_list [sample_peer, sample_peer]) = Some [sample_peer, sample_peer]"
  using peer_list_round_trip [of "[sample_peer, sample_peer]"]
  by (simp add: wf_peer_def sample_peer_def)

text \<open>
  No frame is accepted by two parsers: a frame that one parser accepts has the type byte of
  that parser's message and is refused by every other parser.
\<close>

theorem frames_are_unambiguous:
  assumes "accepts \<in> {\<lambda>f. parse_register f \<noteq> None, \<lambda>f. parse_peer_list f \<noteq> None,
      \<lambda>f. parse_hs_init f \<noteq> None, \<lambda>f. parse_hs_resp f \<noteq> None, \<lambda>f. parse_hs_finish f \<noteq> None,
      \<lambda>f. parse_encrypted f \<noteq> None}" and "accepts f"
  shows "(parse_register f \<noteq> None \<longleftrightarrow> get_type f = Register_node) \<and>
    (parse_peer_list f \<noteq> None \<longleftrightarrow> get_type f = Peer_list) \<and>
    (parse_hs_init f \<noteq> None \<longleftrightarrow> get_type f = Hs_init) \<and>
    (parse_hs_resp f \<noteq> None \<longleftrightarrow> get_type f = Hs_resp) \<and>
    (parse_hs_finish f \<noteq> None \<longleftrightarrow> get_type f = Hs_finish) \<and>
    (parse_encrypted f \<noteq> None \<longleftrightarrow> get_type f = Encrypted)"
  using assms get_type_parsed [of f] by (elim insertE) (auto 0 3)

theorem frames_are_unambiguous_witness:
  "parse_hs_init (build_hs_init (replicate 32 5)) \<noteq> None \<and>
   parse_register (build_hs_init (replicate 32 5)) = None"
proof -
  have a: "parse_hs_init (build_hs_init (replicate 32 5)) \<noteq> None"
    by (simp add: parse_hs_init_def build_hs_init_def append_bytes_def)
  show ?thesis
    using frames_are_unambiguous [of "\<lambda>f. parse_hs_init f \<noteq> None" "build_hs_init (replicate 32 5)"] a
    by simp
qed

end
