(* ===== verification/Tcp.thy ===== *)
theory Tcp
  imports P2P_Prelude
begin

text \<open>
  The connection of \<open>src/net/tcp.hpp\<close> and \<open>src/net/tcp.cpp\<close>: \<open>send_all\<close>, \<open>recv_all\<close> and the
  length-prefixed frames built on them.

  The kernel side of a socket is an explicit environment. \<open>rx\<close> lists the segments in which the
  incoming bytes will be handed out by \<open>recv\<close>, \<open>tx_room\<close> lists how many bytes the coming
  \<open>send\<close> calls will take. Both lists are arbitrary, so every segmentation, every short write and
  a failure at every call are covered; an empty segment, a room of 0 and an exhausted list are
  the return values \<open>\<le> 0\<close> (end of file or error). \<open>tx\<close> collects the bytes that left.
\<close>

record tcp_connection =
  rx :: "bytes list"
  tx_room :: "nat list"
  tx :: bytes
  peer_ip :: string

section \<open>System calls\<close>

definition sys_send :: "bytes \<Rightarrow> tcp_connection \<Rightarrow> int \<times> tcp_connection" where
  "sys_send p c =
     (case tx_room c of
        [] \<Rightarrow> (-1, c)
      | r # rs \<Rightarrow> (int (min r (length p)), c\<lparr>tx_room := rs, tx := tx c @ take r p\<rparr>))"

definition sys_recv :: "nat \<Rightarrow> tcp_connection \<Rightarrow> int \<times> bytes \<times> tcp_connection" where
  "sys_recv len c =
     (case rx c of
        [] \<Rightarrow> (0, [], c)
      | s # ss \<Rightarrow> (int (min len (length s)), take len s,
                   c\<lparr>rx := (if length s \<le> len then ss else drop len s # ss)\<rparr>))"

section \<open>The read and write loops\<close>

function send_all :: "bytes \<Rightarrow> tcp_connection \<Rightarrow> bool \<times> tcp_connection" where
  "send_all p c =
     (if p = [] then (True, c)
      else let (n, c') = sys_send p c
           in if n \<le> 0 then (False, c') else send_all (drop (nat n) p) c')"
  by pat_completeness auto
termination
  by (relation "measure (\<lambda>(p, c). length p)") (auto simp: sys_send_def split: list.splits)

text \<open>The buffer of \<open>recv_all\<close> is returned when the loop completes; a failed read leaves none.\<close>

function recv_all :: "nat \<Rightarrow> tcp_connection \<Rightarrow> bytes option \<times> tcp_connection" where
  "recv_all len c =
     (if len = 0 then (Some [], c)
      else let (n, d, c') = sys_recv len c
           in if n \<le> 0 then (None, c')
              else let (r, c'') = recv_all (len - nat n) c'
                   in (map_option ((@) d) r, c''))"
  by pat_completeness auto
termination
  by (relation "measure (\<lambda>(len, c). len)") (auto simp: sys_recv_def split: list.splits)

declare send_all.simps [simp del] recv_all.simps [simp del]

section \<open>Frames\<close>

definition frame_cap :: nat where
  "frame_cap = 2 ^ 20"

definition send_frame :: "bytes \<Rightarrow> tcp_connection \<Rightarrow> bool \<times> tcp_connection" where
  "send_frame data c =
     (let (ok, c1) = send_all (be32 (word_of_nat (length data))) c
      in if ok then send_all data c1 else (False, c1))"

definition recv_frame :: "tcp_connection \<Rightarrow> bytes option \<times> tcp_connection" where
  "recv_frame c =
     (case recv_all 4 c of
        (None, c1) \<Rightarrow> (None, c1)
      | (Some h, c1) \<Rightarrow>
          let len = unat (be32_dec (h ! 0) (h ! 1) (h ! 2) (h ! 3))
          in if len > frame_cap then (None, c1)
             else recv_all len c1)"

section \<open>The byte stream behind the segments\<close>

definition stream :: "tcp_connection \<Rightarrow> bytes" where
  "stream c = concat (rx c)"

text \<open>The connection has not been closed before the end of the listed segments.\<close>

definition live :: "tcp_connection \<Rightarrow> bool" where
  "live c \<longleftrightarrow> list_all (\<lambda>s. s \<noteq> []) (rx c)"

lemma sys_recv_live:
  assumes "live c" and "0 < len" and "stream c \<noteq> []"
  obtains n d c' where "sys_recv len c = (int n, d, c')" "0 < n" "n \<le> len" "length d = n"
    "stream c = d @ stream c'" "live c'" "tx c' = tx c" "tx_room c' = tx_room c"
    "peer_ip c' = peer_ip c"
proof -
  obtain s ss where rx: "rx c = s # ss" and s: "s \<noteq> []" "list_all (\<lambda>s. s \<noteq> []) ss"
    using assms by (cases "rx c") (auto simp: stream_def live_def)
  let ?c = "c\<lparr>rx := (if length s \<le> len then ss else drop len s # ss)\<rparr>"
  have "stream c = take len s @ stream ?c"
    using rx by (simp add: stream_def)
  moreover have "live ?c" using s by (simp add: live_def)
  moreover have "sys_recv len c = (int (min len (length s)), take len s, ?c)"
    using rx by (simp add: sys_recv_def)
  ultimately show ?thesis
    using s assms(2) by (intro that [of "min len (length s)" "take len s" ?c]) auto
qed

text \<open>\<open>recv_all\<close> takes exactly the bytes asked for, however the stream is cut into segments.\<close>

lemma recv_all_exact:
  assumes "live c" and "len \<le> length (stream c)"
  shows "\<exists>c'. recv_all len c = (Some (take len (stream c)), c') \<and> stream c' = drop len (stream c) \<and>
    live c' \<and> tx c' = tx c \<and> tx_room c' = tx_room c \<and> peer_ip c' = peer_ip c"
  using assms
proof (induction len c rule: recv_all.induct)
  case (1 len c)
  show ?case
  proof (cases "len = 0")
    case True
    then show ?thesis using "1.prems" by (simp add: recv_all.simps)
  next
    case False
    then have "0 < len" "stream c \<noteq> []" using "1.prems" by auto
    then obtain n d c' where r: "sys_recv len c = (int n, d, c')" "0 < n" "n \<le> len" "length d = n"
      "stream c = d @ stream c'" "live c'"
      and frame: "tx c' = tx c" "tx_room c' = tx_room c" "peer_ip c' = peer_ip c"
      using sys_recv_live "1.prems"(1) by metis
    have "\<exists>c''. recv_all (len - n) c' = (Some (take (len - n) (stream c')), c'') \<and>
        stream c'' = drop (len - n) (stream c') \<and> live c'' \<and>
        tx c'' = tx c' \<and> tx_room c'' = tx_room c' \<and> peer_ip c'' = peer_ip c'"
      using "1.IH" [OF False r(1) [symmetric] refl refl] r "1.prems" by auto
    then show ?thesis
      using False r frame by (subst recv_all.simps) (auto simp: take_append)
  qed
qed

text \<open>A stream that ends early makes \<open>recv_all\<close> report failure.\<close>

lemma recv_all_short:
  assumes "live c" and "length (stream c) < len"
  shows "fst (recv_all len c) = None"
  using assms
proof (induction len c rule: recv_all.induct)
  case (1 len c)
  have len: "len \<noteq> 0" using "1.prems" by simp
  show ?case
  proof (cases "stream c = []")
    case True
    then have "rx c = []" using "1.prems" by (cases "rx c") (auto simp: stream_def live_def)
    then show ?thesis using len by (subst recv_all.simps) (simp add: sys_recv_def)
  next
    case False
    then obtain n d c' where r: "sys_recv len c = (int n, d, c')" "0 < n" "n \<le> len" "length d = n"
      "stream c = d @ stream c'" "live c'"
      using sys_recv_live "1.prems"(1) len by (metis bot_nat_0.not_eq_extremum)
    have "fst (recv_all (len - n) c') = None"
      using "1.IH" [OF len r(1) [symmetric] refl refl] r "1.prems" by auto
    then show ?thesis
      using len r by (subst recv_all.simps) (auto split: prod.splits)
  qed
qed

section \<open>What leaves the connection\<close>

lemma sys_send_fields:
  assumes "sys_send p c = (n, c')"
  shows "rx c' = rx c \<and> peer_ip c' = peer_ip c \<and> n \<le> int (length p) \<and> tx c' = tx c @ take (nat n) p"
  using assms by (auto simp: sys_send_def min_def split: list.splits)

text \<open>
  On success the whole buffer has left, in order and once; on failure a proper prefix has.
\<close>

lemma send_all_tx:
  assumes "send_all p c = (ok, c')"
  shows "rx c' = rx c \<and> peer_ip c' = peer_ip c \<and>
    (if ok then tx c' = tx c @ p else \<exists>k < length p. tx c' = tx c @ take k p)"
  using assms
proof (induction p c arbitrary: ok c' rule: send_all.induct)
  case (1 p c)
  show ?case
  proof (cases "p = []")
    case True
    then show ?thesis using "1.prems" by (simp add: send_all.simps)
  next
    case False
    obtain n c1 where s: "sys_send p c = (n, c1)" by force
    note f = sys_send_fields [OF s]
    show ?thesis
    proof (cases "n \<le> 0")
      case True
      then show ?thesis using "1.prems" False s f
        by (subst (asm) send_all.simps) (auto intro!: exI [of _ 0])
    next
      case pos: False
      then have "send_all (drop (nat n) p) c1 = (ok, c')"
        using "1.prems" False s by (subst (asm) send_all.simps) simp
      note ih = "1.IH" [OF False s [symmetric] refl pos this]
      show ?thesis
      proof (cases ok)
        case True
        then show ?thesis using ih f by simp
      next
        case nok: False
        then obtain k where k: "k < length p - nat n" "tx c' = tx c1 @ take k (drop (nat n) p)"
          using ih by auto
        have "tx c' = tx c @ take (nat n + k) p" using k f by (simp add: take_add)
        moreover have "nat n + k < length p" using k by simp
        ultimately show ?thesis using nok ih f by auto
      qed
    qed
  qed
qed

lemma send_frame_tx:
  assumes "send_frame d c = (True, c')"
  shows "tx c' = tx c @ be32 (word_of_nat (length d)) @ d \<and> rx c' = rx c \<and> peer_ip c' = peer_ip c"
  using assms
  by (auto simp: send_frame_def split: prod.splits if_splits dest!: send_all_tx)

text \<open>A socket with room for every call accepts every frame.\<close>

lemma send_all_room:
  assumes "list_all (\<lambda>r. 0 < r) (tx_room c)" and "length p \<le> length (tx_room c)"
  shows "\<exists>c'. send_all p c = (True, c') \<and> list_all (\<lambda>r. 0 < r) (tx_room c') \<and>
    length (tx_room c) - length p \<le> length (tx_room c')"
  using assms
proof (induction p c rule: send_all.induct)
  case (1 p c)
  show ?case
  proof (cases "p = []")
    case True
    then show ?thesis using "1.prems" by (simp add: send_all.simps)
  next
    case False
    then obtain r rs where rs: "tx_room c = r # rs" using "1.prems" by (cases "tx_room c") auto
    let ?c = "c\<lparr>tx_room := rs, tx := tx c @ take r p\<rparr>"
    have s: "sys_send p c = (int (min r (length p)), ?c)" by (simp add: sys_send_def rs)
    have pos: "\<not> int (min r (length p)) \<le> 0" using rs "1.prems" False by simp
    have plen: "0 < length p" using False by simp
    have need: "length p - min r (length p) \<le> length rs" using rs pos plen "1.prems"(2) by (auto simp: min_def simp del: length_greater_0_conv)
    obtain c' where c': "send_all (drop (min r (length p)) p) ?c = (True, c')"
      "list_all (\<lambda>r. 0 < r) (tx_room c')"
      "length rs - (length p - min r (length p)) \<le> length (tx_room c')"
      using "1.IH" [OF False s [symmetric] refl pos] rs "1.prems"(1) need by auto
    have "length (tx_room c) - length p \<le> length rs - (length p - min r (length p))"
      using rs pos plen by (auto simp: min_def simp del: length_greater_0_conv)
    then have "length (tx_room c) - length p \<le> length (tx_room c')" using c'(3) by (rule le_trans)
    moreover have "send_all p c = (True, c')"
      using False s pos c'(1) by (subst send_all.simps) simp
    ultimately show ?thesis using c'(2) by blast
  qed
qed

section \<open>Frames over the stream\<close>

lemma recv_frame_stream:
  assumes "live c" and "stream c = be32 (word_of_nat (length d)) @ d @ rest"
    and "length d \<le> frame_cap"
  shows "\<exists>c'. recv_frame c = (Some d, c') \<and> stream c' = rest \<and> live c' \<and> tx c' = tx c \<and>
    tx_room c' = tx_room c \<and> peer_ip c' = peer_ip c"
proof -
  let ?h = "be32 (word_of_nat (length d))"
  have "4 \<le> length (stream c)" using assms(2) by simp
  then obtain c1 where h: "recv_all 4 c = (Some ?h, c1)" "stream c1 = d @ rest" "live c1"
    and f1: "tx c1 = tx c" "tx_room c1 = tx_room c" "peer_ip c1 = peer_ip c"
    using recv_all_exact [OF assms(1), of 4] assms(2) by auto
  have len: "unat (be32_dec (?h ! 0) (?h ! 1) (?h ! 2) (?h ! 3)) = length d"
    using assms(3) by (simp add: unat_of_nat frame_cap_def)
  obtain c2 where b: "recv_all (length d) c1 = (Some d, c2)" "stream c2 = rest" "live c2"
    and f2: "tx c2 = tx c1" "tx_room c2 = tx_room c1" "peer_ip c2 = peer_ip c1"
    using recv_all_exact [OF h(3), of "length d"] h(2) by auto
  have "recv_frame c = (Some d, c2)"
    unfolding recv_frame_def h(1) prod.case option.case Let_def len using assms(3) b(1) by simp
  then show ?thesis using b f1 f2 by auto
qed

text \<open>The receiver refuses any frame whose announced length is above the cap.\<close>

lemma recv_frame_over_cap:
  assumes "live c" and "stream c = be32 (word_of_nat (length d)) @ d @ rest"
    and "frame_cap < length d" and "length d < 2 ^ 32"
  shows "fst (recv_frame c) = None"
proof -
  let ?h = "be32 (word_of_nat (length d))"
  have "4 \<le> length (stream c)" using assms(2) by simp
  then obtain c1 where h: "recv_all 4 c = (Some ?h, c1)"
    using recv_all_exact [OF assms(1), of 4] assms(2) by auto
  have len: "unat (be32_dec (?h ! 0) (?h ! 1) (?h ! 2) (?h ! 3)) = length d"
    using assms(4) by (simp add: unat_of_nat)
  show ?thesis
    unfolding recv_frame_def h(1) prod.case option.case Let_def len using assms(3) by simp
qed

text \<open>A sequence of sends and a sequence of receives, as the message loops of the nodes run them.\<close>

fun send_frames :: "bytes list \<Rightarrow> tcp_connection \<Rightarrow> bool \<times> tcp_connection" where
  "send_frames [] c = (True, c)"
| "send_frames (d # ds) c =
     (case send_frame d c of (True, c') \<Rightarrow> send_frames ds c' | (False, c') \<Rightarrow> (False, c'))"

fun recv_frames :: "nat \<Rightarrow> tcp_connection \<Rightarrow> bytes list \<times> tcp_connection" where
  "recv_frames 0 c = ([], c)"
| "recv_frames (Suc n) c =
     (case recv_frame c of
        (None, c') \<Rightarrow> ([], c')
      | (Some d, c') \<Rightarrow> (let (ds, c'') = recv_frames n c' in (d # ds, c'')))"

definition frame_bytes :: "bytes \<Rightarrow> bytes" where
  "frame_bytes d = be32 (word_of_nat (length d)) @ d"

lemma frame_bytes_not_empty [simp]: "frame_bytes d \<noteq> []"
  by (simp add: frame_bytes_def be32_def)

lemma send_frames_tx:
  "send_frames ds c = (True, c') \<Longrightarrow> tx c' = tx c @ concat (map frame_bytes ds)"
  by (induction ds arbitrary: c)
    (auto simp: frame_bytes_def split: prod.splits bool.splits dest!: send_frame_tx)

lemma recv_frames_stream:
  assumes "live c" and "stream c = concat (map frame_bytes ds) @ rest"
    and "list_all (\<lambda>d. length d \<le> frame_cap) ds"
  shows "fst (recv_frames (length ds) c) = ds"
  using assms
proof (induction ds arbitrary: c)
  case Nil
  then show ?case by simp
next
  case (Cons d ds)
  have "stream c = be32 (word_of_nat (length d)) @ d @ concat (map frame_bytes ds) @ rest"
    using Cons.prems by (simp add: frame_bytes_def [of d])
  then obtain c' where r: "recv_frame c = (Some d, c')"
    "stream c' = concat (map frame_bytes ds) @ rest" "live c'"
    using recv_frame_stream [OF Cons.prems(1), of d] Cons.prems(3) by auto
  then have "fst (recv_frames (length ds) c') = ds" using Cons by auto
  then show ?case using r by (auto split: prod.splits)
qed

section \<open>Whatever is read was on the wire\<close>

lemma sys_recv_some:
  assumes "sys_recv len c = (n, d, c')" and "0 < n"
  shows "stream c = d @ stream c' \<and> length d = nat n \<and> tx c' = tx c \<and> tx_room c' = tx_room c \<and>
    peer_ip c' = peer_ip c"
  using assms by (auto simp: sys_recv_def stream_def split: list.splits if_splits)

lemma recv_all_some:
  assumes "recv_all len c = (Some d, c')"
  shows "stream c = d @ stream c' \<and> length d = len \<and> tx c' = tx c \<and> tx_room c' = tx_room c \<and>
    peer_ip c' = peer_ip c"
  using assms
proof (induction len c arbitrary: d c' rule: recv_all.induct)
  case (1 len c)
  show ?case
  proof (cases "len = 0")
    case True
    then show ?thesis using "1.prems" by (simp add: recv_all.simps)
  next
    case False
    obtain n e c1 where sr: "sys_recv len c = (n, e, c1)" by (metis prod.exhaust)
    have n: "0 < n" using "1.prems" False sr by (auto simp: recv_all.simps [of len] split: if_splits)
    obtain r c2 where ra: "recv_all (len - nat n) c1 = (r, c2)" by (metis prod.exhaust)
    then obtain t where r: "r = Some t" "d = e @ t" "c' = c2"
      using "1.prems" False sr n by (auto simp: recv_all.simps [of len])
    note s = sys_recv_some [OF sr n]
    have "nat n \<le> len" using sr by (auto simp: sys_recv_def split: list.splits)
    moreover have "stream c1 = t @ stream c2 \<and> length t = len - nat n \<and>
        tx c2 = tx c1 \<and> tx_room c2 = tx_room c1 \<and> peer_ip c2 = peer_ip c1"
      using "1.IH" [OF False sr [symmetric] refl] n ra r(1) by auto
    ultimately show ?thesis using s r by simp
  qed
qed

lemma recv_frame_some:
  assumes "recv_frame c = (Some d, c')"
  shows "stream c = frame_bytes d @ stream c' \<and> length d \<le> frame_cap \<and> tx c' = tx c \<and>
    tx_room c' = tx_room c \<and> peer_ip c' = peer_ip c"
proof -
  obtain h c1 where h: "recv_all 4 c = (Some h, c1)"
    and len: "unat (be32_dec (h ! 0) (h ! 1) (h ! 2) (h ! 3)) \<le> frame_cap"
    and d: "recv_all (unat (be32_dec (h ! 0) (h ! 1) (h ! 2) (h ! 3))) c1 = (Some d, c')"
    using assms by (auto simp: recv_frame_def Let_def split: prod.splits option.splits if_splits)
  note h4 = recv_all_some [OF h] and dd = recv_all_some [OF d]
  then obtain w x y z where w: "h = [w, x, y, z]" by (auto simp: numeral_eq_Suc length_Suc_conv)
  have "be32 (word_of_nat (length d)) = h"
    using dd by (simp add: w)
  then show ?thesis using h4 dd len by (auto simp: frame_bytes_def)
qed

section \<open>Properties\<close>

text \<open>
  C23. Frames are delivered whole and in order: when a sequence of \<open>send_frame\<close> calls succeeds and
  the receiver gets those bytes, in whatever segments and with whatever after them, the same
  number of \<open>recv_frame\<close> calls returns the same frames, provided none is above the 1 MiB cap.
\<close>

theorem frames_delivered_in_order:
  assumes "send_frames ds c = (True, c')" and "tx c = []"
    and "live d" and "stream d = tx c' @ rest" and "list_all (\<lambda>f. length f \<le> frame_cap) ds"
  shows "fst (recv_frames (length ds) d) = ds"
  using recv_frames_stream [OF assms(3) _ assms(5), of rest] send_frames_tx [OF assms(1)] assms(2,4)
  by simp

definition idle_conn :: "nat list \<Rightarrow> bytes list \<Rightarrow> tcp_connection" where
  "idle_conn room segs = \<lparr>rx = segs, tx_room = room, tx = [], peer_ip = ''127.0.0.1''\<rparr>"

theorem frames_delivered_in_order_witness:
  "fst (recv_frames 2 (idle_conn [] [[0], [0, 0, 1, 9, 0, 0], [0, 2, 7, 8, 5]])) = [[9], [7, 8]]"
proof -
  have s: "send_frames [[9], [7, 8]] (idle_conn [3, 1, 1, 4, 2] []) =
      (True, \<lparr>rx = [], tx_room = [], tx = [0, 0, 0, 1, 9, 0, 0, 0, 2, 7, 8], peer_ip = ''127.0.0.1''\<rparr>)"
    by (simp add: idle_conn_def send_frame_def send_all.simps sys_send_def be32_def)
  show ?thesis
    unfolding numeral_2_eq_2
    using frames_delivered_in_order [OF s, of "idle_conn [] [[0], [0, 0, 1, 9, 0, 0], [0, 2, 7, 8, 5]]" "[5]"]
    by (simp add: idle_conn_def live_def stream_def frame_cap_def)
qed

text \<open>
  \<open>recv_frame\<close> never returns a frame above the cap and never makes bytes up: what it returns is
  exactly the next length-prefixed frame of the incoming stream, whatever the stream is.
\<close>

theorem recv_frame_returns_next_frame:
  assumes "recv_frame c = (Some d, c')"
  shows "stream c = be32 (word_of_nat (length d)) @ d @ stream c' \<and> length d \<le> frame_cap"
  using recv_frame_some [OF assms] by (simp add: frame_bytes_def)

theorem recv_frame_returns_next_frame_witness:
  "stream (idle_conn [] [[0, 0, 0], [1, 9, 4]]) = be32 1 @ [9] @ [4]"
proof -
  have "recv_frame (idle_conn [] [[0, 0, 0], [1, 9, 4]]) = (Some [9], idle_conn [] [[4]])"
    by (simp add: recv_frame_def recv_all.simps [of 4] recv_all.simps [of "Suc 0"] recv_all.simps [of 0]
        sys_recv_def idle_conn_def be32_dec_def frame_cap_def)
  from recv_frame_returns_next_frame [OF this] show ?thesis
    by (simp add: stream_def idle_conn_def)
qed

text \<open>
  The sender has no such cap: a frame of more than 1 MiB is sent without complaint and is
  refused by every receiver, so the two sides disagree about which frames exist.
\<close>

theorem oversized_frame_refused:
  assumes "send_frame f c = (True, c')" and "tx c = []" and "frame_cap < length f" and "length f < 2 ^ 32"
    and "live d" and "stream d = tx c' @ rest"
  shows "fst (recv_frame d) = None"
  using recv_frame_over_cap [OF assms(5) _ assms(3,4), of rest] send_frame_tx [OF assms(1)] assms(2,6)
  by simp

lemma send_frame_room:
  assumes "list_all (\<lambda>r. 0 < r) (tx_room c)" and "length d + 4 \<le> length (tx_room c)"
  shows "\<exists>c'. send_frame d c = (True, c') \<and> list_all (\<lambda>r. 0 < r) (tx_room c') \<and>
    length (tx_room c) - (length d + 4) \<le> length (tx_room c')"
proof -
  obtain c1 where c1: "send_all (be32 (word_of_nat (length d))) c = (True, c1)"
    "list_all (\<lambda>r. 0 < r) (tx_room c1)" "length (tx_room c) - 4 \<le> length (tx_room c1)"
    using send_all_room [OF assms(1), of "be32 (word_of_nat (length d))"] assms(2) by auto
  have "length d \<le> length (tx_room c1)" using c1(3) assms(2) by linarith
  from send_all_room [OF c1(2) this] c1 show ?thesis by (fastforce simp: send_frame_def)
qed

theorem oversized_frame_refused_witness:
  "\<exists>c'. send_frame (replicate 1048577 0) (idle_conn (replicate 1048600 1) []) = (True, c') \<and>
     fst (recv_frame (idle_conn [] [tx c'])) = None"
proof -
  let ?f = "replicate 1048577 0 :: bytes" and ?c = "idle_conn (replicate 1048600 1) []"
  have room: "list_all (\<lambda>r. 0 < r) (tx_room ?c)" "length ?f + 4 \<le> length (tx_room ?c)"
    by (simp_all add: idle_conn_def list_all_iff)
  obtain c' where c': "send_frame ?f ?c = (True, c')" using send_frame_room [OF room] by blast
  have "tx c' \<noteq> []" using send_frame_tx [OF c'] by simp
  then have "fst (recv_frame (idle_conn [] [tx c'])) = None"
    using oversized_frame_refused [OF c', of "idle_conn [] [tx c']" "[]"]
    by (simp add: idle_conn_def live_def stream_def frame_cap_def)
  then show ?thesis using c' by blast
qed

end
