(* ===== verification/Cpp_Text.thy ===== *)
theory Cpp_Text
  imports P2P_Prelude
begin

text \<open>
  The operations of \<open>std::string\<close> that \<open>src/control\<close>, \<open>src/node\<close> and \<open>src/main.cpp\<close> use: \<open>find\<close>,
  \<open>rfind\<close>, \<open>substr\<close>, the decimal conversions \<open>std::to_string\<close> and \<open>std::stoi\<close>, the \<open>%02x\<close> of the
  key prefixes, and the views of a byte buffer as text and back. A string is a list of
  characters, and a character is a byte. What \<open>substr\<close> and \<open>stoi\<close> throw is an error value.
\<close>

datatype cpp_exception = Invalid_argument | Out_of_range

abbreviation (input) "NL \<equiv> CHR 0x0A"
abbreviation (input) "CR \<equiv> CHR 0x0D"
abbreviation (input) "TAB \<equiv> CHR 0x09"
abbreviation (input) "BSL \<equiv> CHR 0x5C"
abbreviation (input) "SPC \<equiv> CHR 0x20"

named_theorems text_simps \<open>evaluation of the string operations on strings of a known shape\<close>

section \<open>Bytes as text\<close>

definition text_of :: "bytes \<Rightarrow> string" where
  "text_of = map (\<lambda>b. char_of (unat b))"

definition bytes_of :: "string \<Rightarrow> bytes" where
  "bytes_of = map (\<lambda>c. word_of_nat (of_char c))"

lemma bytes_of_text_of [simp]: "bytes_of (text_of bs) = bs"
proof -
  have "(word_of_nat (of_char (char_of (unat b))) :: byte) = b" for b :: byte
  proof -
    have "unat b < 2 ^ LENGTH(8)" by (rule unsigned_less)
    then show ?thesis by simp
  qed
  then show ?thesis by (simp add: bytes_of_def text_of_def comp_def)
qed

lemma text_of_bytes_of [simp]: "text_of (bytes_of s) = s"
proof -
  have "char_of (unat (word_of_nat (of_char c) :: byte)) = c" for c
  proof -
    have "(of_char c :: nat) mod 256 = of_char c" by (rule of_char_mod_256)
    then show ?thesis by (simp add: unat_of_nat)
  qed
  then show ?thesis by (simp add: bytes_of_def text_of_def comp_def)
qed

lemma length_text_of [simp]: "length (text_of bs) = length bs"
  by (simp add: text_of_def)

lemma length_bytes_of [simp]: "length (bytes_of s) = length s"
  by (simp add: bytes_of_def)

lemma bytes_of_eq_Nil [simp]: "bytes_of s = [] \<longleftrightarrow> s = []"
  by (simp add: bytes_of_def)

lemma text_of_eq_Nil [simp]: "text_of bs = [] \<longleftrightarrow> bs = []"
  by (simp add: text_of_def)

section \<open>Searching and cutting\<close>

fun find_char :: "char \<Rightarrow> string \<Rightarrow> nat option" where
  "find_char c [] = None"
| "find_char c (x # xs) = (if x = c then Some 0 else map_option Suc (find_char c xs))"

definition rfind_char :: "char \<Rightarrow> string \<Rightarrow> nat option" where
  "rfind_char c s = map_option (\<lambda>k. length s - 1 - k) (find_char c (rev s))"

definition substr_from :: "nat \<Rightarrow> string \<Rightarrow> cpp_exception + string" where
  "substr_from p s = (if p \<le> length s then Inr (drop p s) else Inl Out_of_range)"

lemma find_char_None [text_simps]: "find_char c s = None \<longleftrightarrow> c \<notin> set s"
  by (induction s) auto

lemma find_char_append [text_simps]: "c \<notin> set a \<Longrightarrow> find_char c (a @ c # b) = Some (length a)"
  by (induction a) auto

lemma split_at_mark: "a @ c # b = l @ c # r \<Longrightarrow> c \<notin> set a \<Longrightarrow> c \<notin> set l \<Longrightarrow> a = l \<and> b = r"
proof (induction a arbitrary: l)
  case Nil
  then show ?case by (cases l) auto
next
  case (Cons x a)
  then show ?case by (cases l) auto
qed

lemma find_char_SomeD:
  "find_char c s = Some k \<Longrightarrow> s = take k s @ c # drop (Suc k) s \<and> c \<notin> set (take k s) \<and> k < length s"
  by (induction s arbitrary: k) (auto split: if_splits)

lemma rfind_char_append [text_simps]: "c \<notin> set b \<Longrightarrow> rfind_char c (a @ c # b) = Some (length a)"
  by (simp add: rfind_char_def find_char_append)

lemma rfind_char_None: "rfind_char c s = None \<longleftrightarrow> c \<notin> set s"
  by (simp add: rfind_char_def find_char_None)

lemma rfind_char_SomeD:
  assumes "rfind_char c s = Some k"
  shows "s = take k s @ c # drop (Suc k) s \<and> c \<notin> set (drop (Suc k) s) \<and> k < length s"
proof -
  obtain j where j: "find_char c (rev s) = Some j" and k: "k = length s - 1 - j"
    using assms by (auto simp: rfind_char_def)
  from find_char_SomeD [OF j] have r: "rev s = take j (rev s) @ c # drop (Suc j) (rev s)"
    "c \<notin> set (take j (rev s))" "j < length s" by simp_all
  have l: "length s - Suc j = k" "length s - j = Suc k" using k r(3) by simp_all
  have "rev (take j (rev s)) = drop (Suc k) s" using l by (simp add: rev_take)
  moreover have "rev (drop (Suc j) (rev s)) = take k s" using l by (simp add: rev_drop)
  moreover have "s = rev (take j (rev s) @ c # drop (Suc j) (rev s))" using r(1) by (metis rev_rev_ident)
  ultimately have "s = take k s @ c # drop (Suc k) s" by simp
  moreover have "c \<notin> set (drop (Suc k) s)"
    using r(2) \<open>rev (take j (rev s)) = drop (Suc k) s\<close> by (metis set_rev)
  ultimately show ?thesis using k r(3) by simp
qed

section \<open>Decimal numbers\<close>

definition digit_char :: "nat \<Rightarrow> char" where
  "digit_char d = char_of (of_char (CHR ''0'') + d)"

definition is_digit :: "char \<Rightarrow> bool" where
  "is_digit c \<longleftrightarrow> of_char (CHR ''0'') \<le> (of_char c :: nat) \<and> of_char c \<le> (of_char (CHR ''9'') :: nat)"

definition digit_val :: "char \<Rightarrow> nat" where
  "digit_val c = of_char c - of_char (CHR ''0'')"

fun to_string :: "nat \<Rightarrow> string" where
  "to_string n = (if n < 10 then [] else to_string (n div 10)) @ [digit_char (n mod 10)]"

declare to_string.simps [simp del]

text \<open>\<open>isspace\<close> in the C locale.\<close>

definition is_space :: "char \<Rightarrow> bool" where
  "is_space c \<longleftrightarrow> c = SPC \<or> c = TAB \<or> c = NL \<or> c = CHR 0x0B \<or> c = CHR 0x0C \<or> c = CR"

definition decimal :: "string \<Rightarrow> nat" where
  "decimal ds = foldl (\<lambda>v c. 10 * v + digit_val c) 0 ds"

text \<open>
  \<open>std::stoi\<close>: white space and one sign are skipped, the longest run of digits is read, and what
  follows it is ignored.
\<close>

definition stoi :: "string \<Rightarrow> cpp_exception + int" where
  "stoi s =
     (let s = dropWhile is_space s;
          neg = (s \<noteq> [] \<and> hd s = CHR ''-'');
          s = (if s \<noteq> [] \<and> (hd s = CHR ''-'' \<or> hd s = CHR ''+'') then tl s else s);
          ds = takeWhile is_digit s;
          v = (if neg then - int (decimal ds) else int (decimal ds))
      in if ds = [] then Inl Invalid_argument
         else if v < - (2 ^ 31) \<or> 2 ^ 31 \<le> v then Inl Out_of_range
         else Inr v)"

lemma of_digit_char: "d < 10 \<Longrightarrow> of_char (digit_char d) = 48 + d"
  by (simp add: digit_char_def)

lemma is_digit_char [simp]: "d < 10 \<Longrightarrow> is_digit (digit_char d)"
  by (simp add: is_digit_def of_digit_char)

lemma digit_val_char [simp]: "d < 10 \<Longrightarrow> digit_val (digit_char d) = d"
  by (simp add: digit_val_def of_digit_char)

lemma to_string_digits: "list_all is_digit (to_string n)"
proof (induction n rule: to_string.induct)
  case (1 n)
  then show ?case by (subst to_string.simps) simp
qed

lemma to_string_not_empty [simp]: "to_string n \<noteq> []"
  by (subst to_string.simps) simp

lemma decimal_append: "decimal (ds @ [c]) = 10 * decimal ds + digit_val c"
  by (simp add: decimal_def)

lemma decimal_to_string [simp]: "decimal (to_string n) = n"
proof (induction n rule: to_string.induct)
  case (1 n)
  then show ?case
    by (subst to_string.simps) (auto simp: decimal_append decimal_def)
qed

text \<open>Characters that are not digits never occur in a number.\<close>

lemma not_digit_marks [simp]:
  "\<not> is_digit NL" "\<not> is_digit CR" "\<not> is_digit SPC" "\<not> is_digit (CHR ''-'')" "\<not> is_digit (CHR ''+'')"
  "\<not> is_digit (CHR '':'')"
  by (simp_all add: is_digit_def)

lemma digit_not_space: "is_digit c \<Longrightarrow> \<not> is_space c"
  by (auto simp: is_digit_def is_space_def)

lemma to_string_no: "\<not> is_digit c \<Longrightarrow> c \<notin> set (to_string n)"
  using to_string_digits [of n] by (auto simp: list_all_iff)

lemma to_string_no_marks [simp]: "NL \<notin> set (to_string n)" "CR \<notin> set (to_string n)" "SPC \<notin> set (to_string n)"
  by (simp_all add: to_string_no)

lemma stoi_digits:
  assumes "list_all is_digit ds" and "ds \<noteq> []" and "rest = [] \<or> \<not> is_digit (hd rest)"
  shows "stoi (ds @ rest) = (if decimal ds < 2 ^ 31 then Inr (int (decimal ds)) else Inl Out_of_range)"
proof -
  obtain d ds' where d: "ds = d # ds'" "is_digit d" using assms(1,2) by (cases ds) auto
  then have hd: "d \<noteq> CHR ''-''" "d \<noteq> CHR ''+''" "\<not> is_space d"
    using digit_not_space by auto
  have t: "takeWhile is_digit (ds @ rest) = ds"
    using assms(1,3) by (cases rest) (auto simp: list_all_iff takeWhile_append)
  have "dropWhile is_space (ds @ rest) = ds @ rest" using d hd by simp
  moreover have "\<not> (ds @ rest \<noteq> [] \<and> hd (ds @ rest) = CHR ''-'')" using d hd by simp
  moreover have "\<not> (ds @ rest \<noteq> [] \<and> (hd (ds @ rest) = CHR ''-'' \<or> hd (ds @ rest) = CHR ''+''))"
    using d hd by simp
  ultimately have "stoi (ds @ rest) =
      (if ds = [] then Inl Invalid_argument
       else if int (decimal ds) < - (2 ^ 31) \<or> 2 ^ 31 \<le> int (decimal ds) then Inl Out_of_range
       else Inr (int (decimal ds)))"
    unfolding stoi_def Let_def by (simp only: t if_False if_True)
  then show ?thesis using assms(2) by auto
qed

lemma stoi_to_string [text_simps]:
  "n < 2 ^ 31 \<Longrightarrow> rest = [] \<or> \<not> is_digit (hd rest) \<Longrightarrow> stoi (to_string n @ rest) = Inr (int n)"
  using stoi_digits [OF to_string_digits to_string_not_empty, of rest n] by simp

lemma stoi_to_string_all [text_simps]: "n < 2 ^ 31 \<Longrightarrow> stoi (to_string n) = Inr (int n)"
  using stoi_to_string [of n "[]"] by simp

section \<open>Key prefixes\<close>

definition hex_digit :: "nat \<Rightarrow> char" where
  "hex_digit n = ''0123456789abcdef'' ! n"

text \<open>\<open>snprintf (pk_hex + i * 2, 3, "%02x", pk[i])\<close> for the first four bytes of a key.\<close>

definition pk_hex :: "bytes \<Rightarrow> string" where
  "pk_hex pk = concat (map (\<lambda>i. [hex_digit (unat (pk ! i) div 16), hex_digit (unat (pk ! i) mod 16)]) [0..<4])"

lemma length_pk_hex [simp]: "length (pk_hex pk) = 8"
  by (simp add: pk_hex_def upt_rec)

lemma hex_digit_in: "n < 16 \<Longrightarrow> hex_digit n \<in> set ''0123456789abcdef''"
  unfolding hex_digit_def by (rule nth_mem) simp

lemma hex_digit_not_mark: "n < 16 \<Longrightarrow> hex_digit n \<noteq> NL \<and> hex_digit n \<noteq> CR \<and> hex_digit n \<noteq> SPC"
  using hex_digit_in [of n] by auto

lemma nibbles: "unat (b :: byte) div 16 < 16" "unat (b :: byte) mod 16 < 16"
proof -
  have "unat b < 2 ^ LENGTH(8)" by (rule unsigned_less)
  then show "unat b div 16 < 16" by simp
qed simp

lemma pk_hex_no_marks [simp]: "NL \<notin> set (pk_hex pk)" "CR \<notin> set (pk_hex pk)" "SPC \<notin> set (pk_hex pk)"
  using hex_digit_not_mark [OF nibbles(1)] hex_digit_not_mark [OF nibbles(2)]
  by (simp_all add: pk_hex_def) metis+

end
