(* ===== verification/Sockets.thy ===== *)
theory Sockets
  imports Cpp_Text Tcp
begin

text \<open>
  Descriptors and who owns them, the other half of \<open>src/net/tcp.cpp\<close>: the constructors, the moves
  and the destructor of \<open>tcp_connection\<close>, \<open>tcp_server\<close>, and \<open>tcp_connect\<close>.

  The process is the set of open descriptors, the live \<open>tcp_connection\<close> objects by address, and
  a count of \<open>close\<close> calls on a descriptor that is not open. What the kernel answers (the return
  values of \<open>socket\<close>, \<open>bind\<close>, \<open>listen\<close>, \<open>accept\<close>, \<open>connect\<close>, and what \<open>getaddrinfo\<close> and \<open>inet_ntop\<close>
  give) are arguments.
\<close>

section \<open>Objects and descriptors\<close>

record conn_obj =
  co_fd :: int
  co_peer_ip :: string

record process =
  fds :: "int set"
  objs :: "nat \<rightharpoonup> conn_obj"
  bad_closes :: nat

definition new_process :: process where
  "new_process = \<lparr>fds = {}, objs = (\<lambda>_. None), bad_closes = 0\<rparr>"

definition sys_close :: "int \<Rightarrow> process \<Rightarrow> process" where
  "sys_close fd p =
     (if fd \<in> fds p then p\<lparr>fds := fds p - {fd}\<rparr> else p\<lparr>bad_closes := bad_closes p + 1\<rparr>)"

definition sys_open :: "int \<Rightarrow> process \<Rightarrow> process" where
  "sys_open fd p = (if 0 \<le> fd then p\<lparr>fds := insert fd (fds p)\<rparr> else p)"

definition put_obj :: "nat \<Rightarrow> conn_obj \<Rightarrow> process \<Rightarrow> process" where
  "put_obj x c p = p\<lparr>objs := (objs p)(x \<mapsto> c)\<rparr>"

definition close_if_valid :: "int \<Rightarrow> process \<Rightarrow> process" where
  "close_if_valid fd p = (if fd \<ge> 0 then sys_close fd p else p)"

text \<open>\<open>tcp_connection\<close>: the constructors, the two moves and the destructor; \<open>x\<close> is \<open>this\<close>.\<close>

definition conn_default :: "nat \<Rightarrow> process \<Rightarrow> process" where
  "conn_default x = put_obj x \<lparr>co_fd = -1, co_peer_ip = []\<rparr>"

definition conn_construct :: "nat \<Rightarrow> int \<Rightarrow> string \<Rightarrow> process \<Rightarrow> process" where
  "conn_construct x fd ip_text = put_obj x \<lparr>co_fd = fd, co_peer_ip = ip_text\<rparr>"

text \<open>A moved-from string is left empty by every implementation; nothing reads it.\<close>

definition conn_move_construct :: "nat \<Rightarrow> nat \<Rightarrow> process \<Rightarrow> process" where
  "conn_move_construct x y p =
     (let c = the (objs p y)
      in put_obj y \<lparr>co_fd = -1, co_peer_ip = []\<rparr> (put_obj x c p))"

definition conn_move_assign :: "nat \<Rightarrow> nat \<Rightarrow> process \<Rightarrow> process" where
  "conn_move_assign x y p =
     (if x = y then p
      else let p = close_if_valid (co_fd (the (objs p x))) p;
               c = the (objs p y)
           in put_obj y \<lparr>co_fd = -1, co_peer_ip = []\<rparr> (put_obj x c p))"

definition conn_destroy :: "nat \<Rightarrow> process \<Rightarrow> process" where
  "conn_destroy x p =
     (let p = close_if_valid (co_fd (the (objs p x))) p in p\<lparr>objs := (objs p)(x := None)\<rparr>)"

definition conn_valid :: "conn_obj \<Rightarrow> bool" where
  "conn_valid c \<longleftrightarrow> co_fd c \<ge> 0"

section \<open>Servers and clients\<close>

datatype tcp_error =
    Server_socket_failed | Bind_failed u16 | Listen_failed
  | Getaddrinfo_failed string | Client_socket_failed | Connect_failed string

text \<open>The constructor of \<open>tcp_server\<close>; a throw leaves no object, so its destructor never runs.\<close>

definition tcp_server_open :: "int \<Rightarrow> int \<Rightarrow> int \<Rightarrow> u16 \<Rightarrow> process \<Rightarrow> (tcp_error + int) \<times> process" where
  "tcp_server_open socket_ret bind_ret listen_ret port p =
     (let p = sys_open socket_ret p
      in if socket_ret < 0 then (Inl Server_socket_failed, p)
         else if bind_ret < 0 then (Inl (Bind_failed port), p)
         else if listen_ret < 0 then (Inl Listen_failed, p)
         else (Inr socket_ret, p))"

definition tcp_server_destroy :: "int \<Rightarrow> process \<Rightarrow> process" where
  "tcp_server_destroy = close_if_valid"

definition accept_one :: "int \<Rightarrow> string \<Rightarrow> nat \<Rightarrow> process \<Rightarrow> bool \<times> process" where
  "accept_one accept_ret ip_text x p =
     (if accept_ret < 0 then (False, p) else (True, conn_construct x accept_ret ip_text (sys_open accept_ret p)))"

definition tcp_connect ::
  "bool \<Rightarrow> int \<Rightarrow> int \<Rightarrow> string \<Rightarrow> nat \<Rightarrow> string \<Rightarrow> u16 \<Rightarrow> process \<Rightarrow> tcp_error option \<times> process" where
  "tcp_connect resolved socket_ret connect_ret ip_text x host port p =
     (if \<not> resolved then (Some (Getaddrinfo_failed host), p)
      else let p = sys_open socket_ret p
      in if socket_ret < 0 then (Some Client_socket_failed, p)
         else if connect_ret < 0
         then (Some (Connect_failed (host @ '':'' @ to_string (unat port))), sys_close socket_ret p)
         else (None, conn_construct x socket_ret ip_text p))"

section \<open>Ownership\<close>

text \<open>Every open descriptor belongs to exactly one object, and no close ever missed.\<close>

definition holds :: "process \<Rightarrow> nat \<Rightarrow> int \<Rightarrow> bool" where
  "holds p x fd \<longleftrightarrow> 0 \<le> fd \<and> (\<exists>c. objs p x = Some c \<and> co_fd c = fd)"

definition owned :: "process \<Rightarrow> bool" where
  "owned p \<longleftrightarrow> (\<forall>fd. fd \<in> fds p \<longleftrightarrow> (\<exists>x. holds p x fd)) \<and>
     (\<forall>x y fd. holds p x fd \<longrightarrow> holds p y fd \<longrightarrow> x = y) \<and> bad_closes p = 0"

text \<open>One step of the program's threads; a descriptor the kernel hands out is not open.\<close>

inductive conn_step :: "process \<Rightarrow> process \<Rightarrow> bool" where
  default: "objs p x = None \<Longrightarrow> conn_step p (conn_default x p)"
| accepted: "objs p x = None \<Longrightarrow> accept_ret \<notin> fds p \<Longrightarrow> accept_one accept_ret ip_text x p = (ok, p') \<Longrightarrow> conn_step p p'"
| dialled: "objs p x = None \<Longrightarrow> socket_ret \<notin> fds p \<Longrightarrow>
    tcp_connect resolved socket_ret connect_ret ip_text x host port p = (e, p') \<Longrightarrow> conn_step p p'"
| moved: "objs p x = None \<Longrightarrow> objs p y \<noteq> None \<Longrightarrow> conn_step p (conn_move_construct x y p)"
| assigned: "objs p x \<noteq> None \<Longrightarrow> objs p y \<noteq> None \<Longrightarrow> conn_step p (conn_move_assign x y p)"
| destroyed: "objs p x \<noteq> None \<Longrightarrow> conn_step p (conn_destroy x p)"

lemma holds_put_obj: "holds (put_obj x c p) y fd \<longleftrightarrow> (if y = x then 0 \<le> fd \<and> co_fd c = fd else holds p y fd)"
  by (auto simp: holds_def put_obj_def)

lemma holds_frame [simp]:
  "holds (sys_close fd' p) y fd = holds p y fd" "holds (sys_open fd' p) y fd = holds p y fd"
  "holds (close_if_valid fd' p) y fd = holds p y fd"
  by (auto simp: holds_def sys_close_def sys_open_def close_if_valid_def)

lemma put_obj_fields [simp]: "fds (put_obj x c p) = fds p" "bad_closes (put_obj x c p) = bad_closes p"
  by (simp_all add: put_obj_def)

lemma sys_open_fields [simp]:
  "fds (sys_open fd p) = (if 0 \<le> fd then insert fd (fds p) else fds p)"
  "bad_closes (sys_open fd p) = bad_closes p"
  by (simp_all add: sys_open_def)

lemma sys_close_fields:
  "fds (sys_close fd p) = fds p - {fd}" "fd \<in> fds p \<Longrightarrow> bad_closes (sys_close fd p) = bad_closes p"
  by (auto simp: sys_close_def)

lemma no_obj_holds: "objs p x = None \<Longrightarrow> \<not> holds p x fd"
  by (simp add: holds_def)

lemma owned_default: "owned p \<Longrightarrow> objs p x = None \<Longrightarrow> owned (conn_default x p)"
  using no_obj_holds [of p x] by (auto simp: owned_def conn_default_def holds_put_obj) metis

lemma owned_open:
  assumes "owned p" and "objs p x = None" and "0 \<le> fd" and "fd \<notin> fds p"
  shows "owned (conn_construct x fd t (sys_open fd p))"
proof -
  have "\<not> holds p y fd" for y using assms(1,4) by (auto simp: owned_def)
  then show ?thesis
    using assms no_obj_holds [of p x] by (auto simp: owned_def conn_construct_def holds_put_obj) metis+
qed

lemma owned_open_close:
  assumes "owned p" and "0 \<le> fd" and "fd \<notin> fds p"
  shows "owned (sys_close fd (sys_open fd p))"
  using assms by (auto simp: owned_def sys_close_fields)

lemma owned_move:
  assumes "owned p" and "objs p x = None" and "objs p y = Some c"
  shows "owned (conn_move_construct x y p)"
proof -
  have "holds p y fd \<longleftrightarrow> 0 \<le> fd \<and> co_fd c = fd" for fd using assms(3) by (auto simp: holds_def)
  then show ?thesis
    using assms no_obj_holds [of p x]
    by (auto simp: owned_def conn_move_construct_def holds_put_obj Let_def split: if_splits) metis+
qed

text \<open>Closing what an object holds leaves everything else owned.\<close>

lemma close_held:
  assumes "owned p" and "objs p x = Some c"
  shows "fds (close_if_valid (co_fd c) p) = fds p - {fd. holds p x fd} \<and> bad_closes (close_if_valid (co_fd c) p) = 0"
proof -
  have h: "holds p x fd \<longleftrightarrow> 0 \<le> fd \<and> co_fd c = fd" for fd using assms(2) by (auto simp: holds_def)
  have "0 \<le> co_fd c \<Longrightarrow> co_fd c \<in> fds p" using assms(1) h by (auto simp: owned_def)
  then show ?thesis using assms(1) h by (auto simp: owned_def close_if_valid_def sys_close_def)
qed

lemma owned_destroy:
  assumes "owned p" and "objs p x = Some c"
  shows "owned (conn_destroy x p)"
proof -
  let ?p = "close_if_valid (co_fd c) p"
  have "holds (?p\<lparr>objs := (objs ?p)(x := None)\<rparr>) y fd \<longleftrightarrow> y \<noteq> x \<and> holds p y fd" for y fd
    by (auto simp: holds_def close_if_valid_def sys_close_def)
  moreover have "conn_destroy x p = ?p\<lparr>objs := (objs ?p)(x := None)\<rparr>"
    using assms(2) by (simp add: conn_destroy_def Let_def)
  ultimately show ?thesis
    using assms(1) close_held [OF assms] by (auto simp: owned_def) metis+
qed

lemma owned_assign:
  assumes "owned p" and "objs p x = Some c" and "objs p y = Some d"
  shows "owned (conn_move_assign x y p)"
proof (cases "x = y")
  case True
  then show ?thesis using assms(1) by (simp add: conn_move_assign_def)
next
  case False
  let ?p = "close_if_valid (co_fd c) p"
  have "objs ?p = objs p" by (simp add: close_if_valid_def sys_close_def)
  then have "conn_move_assign x y p = put_obj y \<lparr>co_fd = -1, co_peer_ip = []\<rparr> (put_obj x d ?p)"
    using False assms by (simp add: conn_move_assign_def Let_def)
  moreover have "holds p y fd \<longleftrightarrow> 0 \<le> fd \<and> co_fd d = fd" for fd using assms(3) by (auto simp: holds_def)
  ultimately show ?thesis
    using assms(1) close_held [OF assms(1,2)] False
    by (auto simp: owned_def holds_put_obj split: if_splits) metis+
qed

lemma conn_step_owned: "conn_step p p' \<Longrightarrow> owned p \<Longrightarrow> owned p'"
proof (induction rule: conn_step.induct)
  case (accepted p x accept_ret ip_text ok p')
  then show ?case using owned_open [of p x accept_ret ip_text] by (auto simp: accept_one_def split: if_splits)
next
  case (dialled p x socket_ret resolved connect_ret ip_text host port e p')
  have "owned p'" if "socket_ret < 0" using that dialled by (auto simp: tcp_connect_def sys_open_def split: if_splits)
  then show ?case
    using dialled owned_open [of p x socket_ret ip_text] owned_open_close [of p socket_ret]
    by (cases "0 \<le> socket_ret") (auto simp: tcp_connect_def Let_def split: if_splits)
qed (auto intro: owned_default owned_move owned_assign owned_destroy)

lemma conn_reach_owned:
  assumes "rtranclp conn_step new_process p"
  shows "owned p"
  using assms
proof (induction rule: rtranclp_induct)
  case base
  show ?case by (simp add: owned_def holds_def new_process_def)
next
  case (step p q)
  then show ?case by (blast intro: conn_step_owned)
qed

section \<open>The control sockets\<close>

text \<open>
  \<open>unix_connect\<close> of \<open>src/control/control.hpp\<close> and the set-up in \<open>control_server_loop\<close>. Both copy the
  path with \<open>strncpy\<close> into the 108 bytes of \<open>sun_path\<close>, the last of which stays zero.
\<close>

definition sun_path_of :: "string \<Rightarrow> string" where
  "sun_path_of path = take 107 (takeWhile (\<lambda>c. c \<noteq> CHR 0x00) path)"

definition unix_connect :: "int \<Rightarrow> (string \<Rightarrow> int) \<Rightarrow> string \<Rightarrow> process \<Rightarrow> int \<times> process" where
  "unix_connect socket_ret connect_ret path p =
     (let p = sys_open socket_ret p
      in if socket_ret < 0 then (-1, p)
         else if connect_ret (sun_path_of path) < 0 then (-1, sys_close socket_ret p)
         else (socket_ret, p))"

definition control_server_open :: "int \<Rightarrow> (string \<Rightarrow> int) \<Rightarrow> string \<Rightarrow> process \<Rightarrow> int option \<times> process" where
  "control_server_open socket_ret bind_ret path p =
     (let p = sys_open socket_ret p
      in if socket_ret < 0 then (None, p)
         else if bind_ret (sun_path_of path) < 0 then (None, sys_close socket_ret p)
         else (Some socket_ret, p))"

text \<open>Unlike \<open>tcp_server\<close>, both close what they opened when they fail.\<close>

lemma control_sockets_close_on_failure:
  "s \<notin> fds p \<Longrightarrow> fst (unix_connect s cr path p) < 0 \<Longrightarrow> fds (snd (unix_connect s cr path p)) = fds p"
  "s \<notin> fds p \<Longrightarrow> fst (control_server_open s br path p) = None \<Longrightarrow> fds (snd (control_server_open s br path p)) = fds p"
  by (auto simp: unix_connect_def control_server_open_def sys_close_fields Let_def split: if_splits)

text \<open>Both ends cut a long path the same way, so the shell finds the daemon.\<close>

lemma sun_path_agrees: "length (sun_path_of path) \<le> 107 \<and> sun_path_of (sun_path_of path) = sun_path_of path"
proof -
  let ?ys = "take 107 (takeWhile (\<lambda>c. c \<noteq> CHR 0x00) path)"
  have "\<forall>c\<in>set ?ys. c \<noteq> CHR 0x00" by (auto dest: set_takeWhileD in_set_takeD)
  then have t: "takeWhile (\<lambda>c. c \<noteq> CHR 0x00) ?ys = ?ys" by (simp only: takeWhile_eq_all_conv simp_thms)
  show ?thesis unfolding sun_path_of_def t by simp
qed

section \<open>Properties\<close>

text \<open>
  C28. Descriptors have one owner: however connections are accepted, dialled, moved and destroyed, every
  open descriptor is held by exactly one live object, no descriptor is closed twice, and when all
  objects are gone no descriptor is left open.
\<close>

theorem descriptors_have_one_owner:
  assumes "rtranclp conn_step new_process p"
  shows "bad_closes p = 0 \<and> (objs p x = Some c \<and> conn_valid c \<longrightarrow> co_fd c \<in> fds p) \<and>
    (objs p x = Some c \<and> objs p y = Some d \<and> conn_valid c \<and> co_fd c = co_fd d \<longrightarrow> x = y) \<and>
    (objs p = (\<lambda>_. None) \<longrightarrow> fds p = {})"
proof -
  have "owned p" by (rule conn_reach_owned [OF assms])
  then have f: "\<And>fd. fd \<in> fds p \<longleftrightarrow> (\<exists>x. holds p x fd)" and o: "\<And>x y fd. holds p x fd \<Longrightarrow> holds p y fd \<Longrightarrow> x = y"
    and b: "bad_closes p = 0" by (simp_all only: owned_def)
  have h: "holds p x (co_fd c)" if "objs p x = Some c" "conn_valid c" for x c
    using that by (simp add: holds_def conn_valid_def)
  have "x = y" if "objs p x = Some c" "objs p y = Some d" "conn_valid c" "co_fd c = co_fd d"
    using h [of x c] h [of y d] o that by (simp add: conn_valid_def)
  moreover have "fds p = {}" if "objs p = (\<lambda>_. None)"
    using f that by (simp add: holds_def set_eq_iff)
  ultimately show ?thesis using b f h by blast
qed

theorem descriptors_have_one_owner_witness:
  "fds (conn_destroy 1 (conn_construct 1 5 ''10.0.0.1'' (sys_open 5 new_process))) = {}"
proof -
  let ?p = "conn_construct 1 5 ''10.0.0.1'' (sys_open 5 new_process)"
  have "accept_one 5 ''10.0.0.1'' 1 new_process = (True, ?p)" by (simp add: accept_one_def)
  then have "conn_step new_process ?p" by (rule accepted [rotated 2]) (simp_all add: new_process_def)
  moreover have "conn_step ?p (conn_destroy 1 ?p)"
    by (rule destroyed) (simp add: conn_construct_def put_obj_def)
  ultimately have r: "rtranclp conn_step new_process (conn_destroy 1 ?p)"
    by (meson converse_rtranclp_into_rtranclp rtranclp.rtrancl_refl)
  have "objs (conn_destroy 1 ?p) = (\<lambda>_. None)"
    by (auto simp: conn_destroy_def conn_construct_def put_obj_def close_if_valid_def sys_close_def sys_open_def
        new_process_def Let_def)
  with descriptors_have_one_owner [OF r, of 0 undefined 0 undefined] show ?thesis by (simp only: simp_thms)
qed

text \<open>
  The constructor of \<open>tcp_server\<close> is not as careful as \<open>tcp_connect\<close>: when \<open>bind\<close> or \<open>listen\<close> fails it
  throws without closing the socket it opened, and since no object exists nothing ever will.
\<close>

theorem failed_server_leaks_descriptor:
  assumes "0 \<le> s" and "s \<notin> fds p" and "b < 0 \<or> l < 0"
  shows "\<exists>e. tcp_server_open s b l port p = (Inl e, sys_open s p) \<and> s \<in> fds (sys_open s p)"
    and "fst (tcp_connect True s (-1) t x host port p) \<noteq> None \<and> fds (snd (tcp_connect True s (-1) t x host port p)) = fds p"
proof -
  from assms show "\<exists>e. tcp_server_open s b l port p = (Inl e, sys_open s p) \<and> s \<in> fds (sys_open s p)"
    by (cases "b < 0") (auto simp: tcp_server_open_def Let_def)
  from assms show "fst (tcp_connect True s (-1) t x host port p) \<noteq> None \<and>
      fds (snd (tcp_connect True s (-1) t x host port p)) = fds p"
    by (auto simp: tcp_connect_def sys_close_fields Let_def)
qed

theorem failed_server_leaks_descriptor_witness:
  "4 \<in> fds (snd (tcp_server_open 4 (-1) 0 9000 new_process))"
  using failed_server_leaks_descriptor(1) [of 4 new_process "-1" 0 9000] by (auto simp: new_process_def)

end
