(* ===== verification/Limbs.thy ===== *)
theory Limbs
  imports P2P_Prelude
begin

text \<open>
  Multi-limb numbers. The fields of the cryptographic code keep a number as little-endian limbs
  of 26, 51 or 52 bits in wider words, add limbs without carrying, and carry later with the loop
  \<open>for (i = 0; i < n; ++i) { l[i+1] += l[i] >> w; l[i] &= mask; }\<close>. This theory models that
  loop once and shows that it computes the digits of the number, so that a field operation is
  described by the number it computes.
\<close>

section \<open>Values and digits\<close>

fun lval :: "nat \<Rightarrow> 'a::len word list \<Rightarrow> nat" where
  "lval w [] = 0"
| "lval w (x # xs) = unat x + 2 ^ w * lval w xs"

text \<open>\<open>digs w n v\<close>: \<open>n\<close> digits of \<open>w\<close> bits, then all that is left.\<close>

fun digs :: "nat \<Rightarrow> nat \<Rightarrow> nat \<Rightarrow> nat list" where
  "digs w 0 v = [v]"
| "digs w (Suc n) v = (v mod 2 ^ w) # digs w n (v div 2 ^ w)"

fun nval :: "nat \<Rightarrow> nat list \<Rightarrow> nat" where
  "nval w [] = 0"
| "nval w (x # xs) = x + 2 ^ w * nval w xs"

lemma lval_nval: "lval w xs = nval w (map unat xs)"
  by (induction xs) auto

lemma nval_digs [simp]: "nval w (digs w n v) = v"
  by (induction n arbitrary: v) auto

lemma length_digs [simp]: "length (digs w n v) = Suc n"
  by (induction n arbitrary: v) auto

section \<open>The carry loop\<close>

definition carry_at :: "nat \<Rightarrow> nat \<Rightarrow> 'a::len word list \<Rightarrow> 'a word list" where
  "carry_at w i l =
     (let l1 = l[i + 1 := l ! (i + 1) + drop_bit w (l ! i)]
      in l1[i := l1 ! i AND mask w])"

definition carry_pass :: "nat \<Rightarrow> nat \<Rightarrow> 'a::len word list \<Rightarrow> 'a word list" where
  "carry_pass w n l = fold (carry_at w) [0..<n] l"

lemma length_carry_at [simp]: "length (carry_at w i l) = length l"
  by (simp add: carry_at_def Let_def)

lemma length_carry_pass [simp]: "length (carry_pass w n l) = length l"
proof -
  have "length (fold (carry_at w) is l) = length l" for "is"
    by (induction "is" arbitrary: l) auto
  then show ?thesis by (simp add: carry_pass_def)
qed

lemma carry_at_Suc: "carry_at w (Suc i) (x # l) = x # carry_at w i l"
  by (simp add: carry_at_def Let_def)

lemma fold_carry_at_Suc:
  "fold (carry_at w) (map Suc is) (x # l) = x # fold (carry_at w) is l"
  by (induction "is" arbitrary: l) (auto simp: carry_at_Suc)

lemma carry_pass_0 [simp]: "carry_pass w 0 l = l"
  by (simp add: carry_pass_def)

lemma carry_pass_Suc [simp]:
  "carry_pass w (Suc n) (x # y # l) = (x AND mask w) # carry_pass w n ((y + drop_bit w x) # l)"
proof -
  have "[0..<Suc n] = 0 # map Suc [0..<n]"
    by (simp add: upt_conv_Cons map_Suc_upt del: upt_Suc)
  moreover have "carry_at w 0 (x # y # l) = (x AND mask w) # (y + drop_bit w x) # l"
    by (simp add: carry_at_def)
  ultimately show ?thesis
    by (simp add: carry_pass_def fold_carry_at_Suc)
qed

lemma unat_and_mask: "unat (x AND mask w) = unat x mod 2 ^ w"
  by (metis take_bit_eq_mask take_bit_eq_mod unsigned_take_bit_eq)

lemma unat_drop_bit: "unat (drop_bit w x) = unat x div 2 ^ w"
  unfolding unat_drop_bit_eq by (rule drop_bit_eq_div)

text \<open>
  A limb leaves room when the largest possible carry cannot overflow it. Under that condition
  on the limbs that receive a carry, the loop computes the digits of the number.
\<close>

definition roomy :: "nat \<Rightarrow> 'a::len word \<Rightarrow> bool" where
  "roomy w x \<longleftrightarrow> unat x + 2 ^ (LENGTH('a) - w) \<le> 2 ^ LENGTH('a)"

lemma unat_carry_in:
  fixes x y :: "'a::len word"
  assumes "roomy w y" and "w \<le> LENGTH('a)"
  shows "unat (y + drop_bit w x) = unat y + unat x div 2 ^ w"
proof -
  have "unat x div 2 ^ w < 2 ^ (LENGTH('a) - w)"
    using unsigned_less [of x] assms(2)
    by (simp add: less_mult_imp_div_less flip: power_add)
  then have "unat y + unat x div 2 ^ w < 2 ^ LENGTH('a)"
    using assms(1) by (simp add: roomy_def)
  then show ?thesis by (simp add: unat_word_ariths unat_drop_bit)
qed

theorem carry_pass_digits:
  fixes l :: "'a::len word list"
  assumes "length l = Suc n" and "list_all (roomy w) (tl l)" and "w \<le> LENGTH('a)"
  shows "map unat (carry_pass w n l) = digs w n (lval w l)"
  using assms
proof (induction n arbitrary: l)
  case 0
  then show ?case by (cases l) auto
next
  case (Suc n)
  then obtain x y ys where l: "l = x # y # ys" by (cases l; cases "tl l") auto
  have c: "unat (y + drop_bit w x) = unat y + unat x div 2 ^ w"
    using Suc.prems l by (intro unat_carry_in) auto
  then have "lval w ((y + drop_bit w x) # ys) = lval w l div 2 ^ w"
    by (simp add: l)
  moreover have "map unat (carry_pass w n ((y + drop_bit w x) # ys)) =
      digs w n (lval w ((y + drop_bit w x) # ys))"
    using Suc.prems l by (intro Suc.IH) auto
  ultimately show ?case by (simp add: l unat_and_mask add.commute add.left_commute)
qed

lemma lval_carry_pass:
  fixes l :: "'a::len word list"
  assumes "length l = Suc n" and "list_all (roomy w) (tl l)" and "w \<le> LENGTH('a)"
  shows "lval w (carry_pass w n l) = lval w l"
  by (simp add: lval_nval carry_pass_digits [OF assms])

section \<open>Folding the top\<close>

text \<open>
  Modulo $2^k - c$ what lies above bit $k$ may be multiplied by $c$ and added at the bottom.
\<close>

definition fold_top :: "nat \<Rightarrow> nat \<Rightarrow> nat \<Rightarrow> nat" where
  "fold_top k c v = v mod 2 ^ k + c * (v div 2 ^ k)"

lemma fold_top_mod:
  assumes "c < 2 ^ k"
  shows "fold_top k c v mod (2 ^ k - c) = v mod (2 ^ k - c)"
proof -
  let ?q = "v div 2 ^ k"
  have "v = v mod 2 ^ k + ?q * 2 ^ k" by (rule mod_div_mult_eq [symmetric])
  also have "?q * 2 ^ k = c * ?q + ?q * (2 ^ k - c)"
  proof -
    have "2 ^ k = c + (2 ^ k - c)" using assms by simp
    then have "?q * 2 ^ k = ?q * (c + (2 ^ k - c))" by (rule arg_cong)
    then show ?thesis by (simp only: distrib_left mult.commute)
  qed
  finally have "v = fold_top k c v + ?q * (2 ^ k - c)"
    by (simp only: fold_top_def add.assoc)
  then have "v mod (2 ^ k - c) = (fold_top k c v + ?q * (2 ^ k - c)) mod (2 ^ k - c)"
    by (rule arg_cong)
  then show ?thesis by (simp only: mod_mult_self1)
qed

lemma fold_top_small: "v < 2 ^ k \<Longrightarrow> fold_top k c v = v"
  by (simp add: fold_top_def)

lemma fold_top_le:
  assumes "v div 2 ^ k \<le> m"
  shows "fold_top k c v < 2 ^ k + c * m + 1"
proof -
  have "v mod 2 ^ k < 2 ^ k" by simp
  moreover have "c * (v div 2 ^ k) \<le> c * m" using assms by simp
  ultimately show ?thesis unfolding fold_top_def by linarith
qed

section \<open>Little-endian bytes as numbers\<close>

lemma lval_append: "lval w (xs @ ys) = lval w xs + 2 ^ (w * length xs) * lval w ys"
  by (induction xs) (simp_all add: algebra_simps power_add)

lemma lval_less: "lval LENGTH('a) (xs :: 'a::len word list) < 2 ^ (LENGTH('a) * length xs)"
proof (induction xs)
  case Nil
  then show ?case by simp
next
  case (Cons x xs)
  let ?b = "2 ^ LENGTH('a) :: nat"
  have "unat x + ?b * lval LENGTH('a) xs < ?b + ?b * lval LENGTH('a) xs"
    by simp
  also have "\<dots> = ?b * Suc (lval LENGTH('a) xs)" by simp
  also have "\<dots> \<le> ?b * 2 ^ (LENGTH('a) * length xs)"
    using Cons by (intro mult_left_mono) auto
  finally show ?case by (simp add: power_add)
qed

lemma bytes_less: "lval 8 (bs :: bytes) < 2 ^ (8 * length bs)"
  using lval_less [of bs] by simp

text \<open>\<open>le_bytes n v\<close>: the \<open>n\<close> low bytes of \<open>v\<close>, least significant first.\<close>

fun le_bytes :: "nat \<Rightarrow> nat \<Rightarrow> bytes" where
  "le_bytes 0 v = []"
| "le_bytes (Suc n) v = word_of_nat v # le_bytes n (v div 256)"

lemma length_le_bytes [simp, wire_simps]: "length (le_bytes n v) = n"
  by (induction n arbitrary: v) auto

lemma lval_le_bytes [simp, codec_simps]: "lval 8 (le_bytes n v) = v mod 2 ^ (8 * n)"
proof (induction n arbitrary: v)
  case 0
  then show ?case by simp
next
  case (Suc n)
  have "v mod 2 ^ (8 * Suc n) = v mod (256 * 2 ^ (8 * n))" by (simp add: power_add)
  then show ?case
    using Suc by (simp add: mod_mult2_eq unat_of_nat)
qed

lemma le_bytes_lval [simp, codec_simps]: "length bs = n \<Longrightarrow> le_bytes n (lval 8 bs) = bs"
proof (induction bs arbitrary: n)
  case Nil
  then show ?case by simp
next
  case (Cons b bs)
  have "unat b < 256" using unsigned_less [of b] by simp
  then have d: "(unat b + 256 * lval 8 bs) div 256 = lval 8 bs" by simp
  have z: "(256 :: byte) = 0" by simp
  have "(word_of_nat (unat b + 256 * lval 8 bs) :: byte) = b + 256 * word_of_nat (lval 8 bs)"
    by simp
  also have "\<dots> = b" by (simp only: z mult_zero_left add_0_right)
  finally have "(word_of_nat (unat b + 256 * lval 8 bs) :: byte) = b" .
  then show ?case using Cons d by auto
qed

lemma le_bytes_mod: "le_bytes n (v mod 2 ^ (8 * n)) = le_bytes n v"
  using le_bytes_lval [of "le_bytes n v" n] by simp

lemma le_bytes_eq_iff: "le_bytes n v = le_bytes n v' \<longleftrightarrow> v mod 2 ^ (8 * n) = v' mod 2 ^ (8 * n)"
  by (metis le_bytes_mod lval_le_bytes)

lemma lval_inj: "length xs = length ys \<Longrightarrow> lval 8 (xs :: bytes) = lval 8 ys \<longleftrightarrow> xs = ys"
  by (metis le_bytes_lval)

text \<open>\<open>le_or sh bs\<close> is the load \<open>b\<^sub>0 << sh | b\<^sub>1 << (sh + 8) | \<dots>\<close>.\<close>

fun le_or :: "nat \<Rightarrow> bytes \<Rightarrow> 'a::len word" where
  "le_or sh [] = 0"
| "le_or sh (b # bs) = push_bit sh (ucast b) OR le_or (sh + 8) bs"

lemma unat_or_disjoint:
  fixes x y :: "'a::len word"
  assumes "unat x < 2 ^ k" and "2 ^ k dvd unat y"
  shows "unat (x OR y) = unat x + unat y"
proof -
  obtain q where q: "unat y = push_bit k q"
    using assms(2) by (auto simp: push_bit_eq_mult mult.commute elim!: dvdE)
  have x: "unat x = take_bit k (unat x)"
    using assms(1) by (simp add: take_bit_nat_eq_self)
  have "unat x AND unat y = 0"
    by (subst x, subst q) (auto simp: bit_eq_iff bit_simps)
  then show ?thesis
    by (simp add: unsigned_or_eq disjunctive_add_eq_or)
qed

lemma unat_push_bit:
  fixes x :: "'a::len word"
  shows "unat x * 2 ^ k < 2 ^ LENGTH('a) \<Longrightarrow> unat (push_bit k x) = unat x * 2 ^ k"
  unfolding unsigned_push_bit_eq by (simp add: push_bit_eq_mult take_bit_nat_eq_self)

lemma unat_ucast_byte:
  assumes "8 \<le> LENGTH('a::len)"
  shows "unat (ucast (b :: byte) :: 'a word) = unat b"
proof -
  have "unat b < 2 ^ 8" using unsigned_less [of b] by simp
  also have "(2 :: nat) ^ 8 \<le> 2 ^ LENGTH('a)" using assms by (intro power_increasing) auto
  finally show ?thesis by (simp add: unsigned_ucast_eq take_bit_nat_eq_self)
qed

lemma unat_le_or:
  "sh + 8 * length bs \<le> LENGTH('a) \<Longrightarrow> unat (le_or sh bs :: 'a::len word) = 2 ^ sh * lval 8 bs"
proof (induction bs arbitrary: sh)
  case Nil
  then show ?case by simp
next
  case (Cons b bs)
  have b: "unat b < 256" using unsigned_less [of b] by simp
  then have lt: "2 ^ sh * unat b < 2 ^ (sh + 8)" by (simp add: power_add)
  also have "(2 :: nat) ^ (sh + 8) \<le> 2 ^ LENGTH('a)"
    using Cons.prems by (intro power_increasing) auto
  finally have "unat (push_bit sh (ucast b) :: 'a word) = 2 ^ sh * unat b"
    using Cons.prems by (subst unat_push_bit) (simp_all add: unat_ucast_byte mult.commute)
  moreover have "unat (le_or (sh + 8) bs :: 'a word) = 2 ^ (sh + 8) * lval 8 bs"
    using Cons.prems by (intro Cons.IH) auto
  ultimately show ?case
    using lt by (simp add: unat_or_disjoint [of _ "sh + 8"] power_add algebra_simps)
qed

section \<open>Weak reduction of a five-limb number\<close>

text \<open>
  Both prime fields of the sources keep five limbs and reduce with the same three statements:
  carry through the four lower limbs, add the overflow of the top limb times \<open>c\<close> to limb 0 and
  mask the top limb, carry again.
\<close>

definition wrap_top :: "nat \<Rightarrow> nat \<Rightarrow> 'a::len word list \<Rightarrow> 'a word list" where
  "wrap_top w c l =
     (let l1 = l[0 := l ! 0 + drop_bit w (l ! 4) * word_of_nat c]
      in l1[4 := l1 ! 4 AND mask w])"

definition weak_reduce :: "nat \<Rightarrow> nat \<Rightarrow> 'a::len word list \<Rightarrow> 'a word list" where
  "weak_reduce w c l = carry_pass w 4 (wrap_top w c (carry_pass w 4 l))"

text \<open>
  The digits products of the schoolbook multiplication,
  \<open>for i, j < 5: digits[i + j] += a[i] * b[j]\<close>, and the fold of the upper digits.
\<close>

definition mul_digits :: "'a::len word list \<Rightarrow> 'a word list \<Rightarrow> 'a word list" where
  "mul_digits a b =
     fold (\<lambda>(i, j) d. d[i + j := d ! (i + j) + a ! i * b ! j])
       (List.product [0..<5] [0..<5]) (replicate 9 0)"

definition fold_digits :: "nat \<Rightarrow> 'a::len word list \<Rightarrow> 'a word list" where
  "fold_digits c d =
     [d ! 0 + d ! 5 * word_of_nat c, d ! 1 + d ! 6 * word_of_nat c,
      d ! 2 + d ! 7 * word_of_nat c, d ! 3 + d ! 8 * word_of_nat c, d ! 4]"

lemma list5: "length l = 5 \<Longrightarrow> \<exists>a b c d e. l = [a, b, c, d, e]"
  by (auto simp: numeral_eq_Suc length_Suc_conv)

lemma lval5:
  "lval w [a, b, c, d, e] =
     unat a + 2 ^ w * unat b + 2 ^ (2 * w) * unat c + 2 ^ (3 * w) * unat d + 2 ^ (4 * w) * unat e"
  by (simp add: algebra_simps numeral_eq_Suc power_add)

lemma digs_4:
  "digs w 4 v = [v mod 2 ^ w, v div 2 ^ w mod 2 ^ w, v div 2 ^ (2 * w) mod 2 ^ w,
     v div 2 ^ (3 * w) mod 2 ^ w, v div 2 ^ (4 * w)]"
  by (simp add: numeral_eq_Suc div_mult2_eq power_add flip: power_Suc)

lemma nval_digs_update:
  "nval w ((digs w n v)[n := t]) = v mod 2 ^ (w * n) + 2 ^ (w * n) * t"
proof (induction n arbitrary: v)
  case 0
  then show ?case by simp
next
  case (Suc n)
  have "v mod 2 ^ (w * Suc n) = v mod 2 ^ w + 2 ^ w * (v div 2 ^ w mod 2 ^ (w * n))"
    by (simp add: power_add mod_mult2_eq)
  then show ?case using Suc by (simp add: algebra_simps power_add)
qed

lemma mod_split_top:
  "v mod 2 ^ (w * n) + 2 ^ (w * n) * (v div 2 ^ (w * n) mod 2 ^ w) = (v :: nat) mod 2 ^ (w * Suc n)"
proof -
  have "v mod 2 ^ (w * Suc n) = v mod (2 ^ (w * n) * 2 ^ w)" by (simp add: power_add mult.commute)
  then show ?thesis by (simp add: mod_mult2_eq)
qed

lemma nval_take_digs: "k \<le> n \<Longrightarrow> nval w (take k (digs w n v)) = v mod 2 ^ (w * k)"
proof (induction n arbitrary: k v)
  case 0
  then show ?case by simp
next
  case (Suc n)
  show ?case
  proof (cases k)
    case 0
    then show ?thesis by simp
  next
    case (Suc k')
    have "v mod 2 ^ (w * Suc k') = v mod 2 ^ w + 2 ^ w * (v div 2 ^ w mod 2 ^ (w * k'))"
      by (simp add: power_add mod_mult2_eq)
    then show ?thesis using Suc Suc.IH [of k' "v div 2 ^ w"] Suc.prems by simp
  qed
qed

lemma nval_drop_digs: "k \<le> n \<Longrightarrow> nval w (drop k (digs w n v)) = v div 2 ^ (w * k)"
proof (induction n arbitrary: k v)
  case 0
  then show ?case by simp
next
  case (Suc n)
  show ?case
  proof (cases k)
    case 0
    then show ?thesis using nval_digs [of w "Suc n" v] by simp
  next
    case (Suc k')
    then show ?thesis
      using Suc.IH [of k' "v div 2 ^ w"] Suc.prems by (simp add: div_mult2_eq power_add)
  qed
qed

lemma digs_low: "k < n \<Longrightarrow> digs w n v ! k < 2 ^ w"
proof (induction n arbitrary: k v)
  case (Suc n)
  then show ?case by (cases k) auto
qed simp

lemma digs4_unique:
  assumes "length xs = 5" and "list_all (\<lambda>x. x < 2 ^ w) xs"
  shows "xs = digs w 4 (nval w xs)"
proof -
  obtain a b c d e where xs: "xs = [a, b, c, d, e]"
    using assms(1) by (auto simp: numeral_eq_Suc length_Suc_conv)
  have lt: "a < 2 ^ w" "b < 2 ^ w" "c < 2 ^ w" "d < 2 ^ w" using assms(2) by (auto simp: xs)
  have four: "digs w 4 v = digs w (Suc (Suc (Suc (Suc 0)))) v" for v by (simp add: numeral_eq_Suc)
  show ?thesis using lt unfolding xs four by simp
qed

lemma digs_eq_lval: "map unat l = digs w n v \<Longrightarrow> lval w l = v"
  by (simp add: lval_nval)

lemma length_of_digs: "map unat l = digs w n v \<Longrightarrow> length l = Suc n"
  by (metis length_digs length_map)

lemma nval_add: "length xs = length ys \<Longrightarrow> nval w (map2 (+) xs ys) = nval w xs + nval w ys"
  by (induction xs ys rule: list_induct2) (simp_all add: algebra_simps)

lemma digits_low: "map unat l = digs w 4 v \<Longrightarrow> i < 4 \<Longrightarrow> unat (l ! i) < 2 ^ w"
  using digs_low [of i 4 w v] length_of_digs [of l w 4 v] by (metis less_SucI nth_map)

lemma digs_of_lval:
  assumes "length l = 5" and "\<And>i. i < 4 \<Longrightarrow> unat (l ! i) < 2 ^ w"
  shows "map unat l = digs w 4 (lval w l)"
proof -
  obtain a b c d e where l: "l = [a, b, c, d, e]" using list5 assms(1) by blast
  have lt: "unat a < 2 ^ w" "unat b < 2 ^ w" "unat c < 2 ^ w" "unat d < 2 ^ w"
    using assms(2) [of 0] assms(2) [of 1] assms(2) [of 2] assms(2) [of 3] by (simp_all add: l)
  have four: "digs w 4 v = digs w (Suc (Suc (Suc (Suc 0)))) v" for v by (simp add: numeral_eq_Suc)
  show ?thesis using lt unfolding l four by simp
qed

lemma mul_digits_explicit:
  "mul_digits [a0, a1, a2, a3, a4] [b0, b1, b2, b3, b4] =
     [a0 * b0, a0 * b1 + a1 * b0, a0 * b2 + a1 * b1 + a2 * b0,
      a0 * b3 + a1 * b2 + a2 * b1 + a3 * b0, a0 * b4 + a1 * b3 + a2 * b2 + a3 * b1 + a4 * b0,
      a1 * b4 + a2 * b3 + a3 * b2 + a4 * b1, a2 * b4 + a3 * b3 + a4 * b2,
      a3 * b4 + a4 * b3, a4 * b4]"
  by (simp add: mul_digits_def upt_rec eval_nat_numeral)

lemma sum_bounds:
  fixes K :: nat
  shows "p \<le> K \<Longrightarrow> p \<le> 5 * K"
    and "p \<le> K \<Longrightarrow> q \<le> K \<Longrightarrow> p + q \<le> 5 * K"
    and "p \<le> K \<Longrightarrow> q \<le> K \<Longrightarrow> r \<le> K \<Longrightarrow> p + q + r \<le> 5 * K"
    and "p \<le> K \<Longrightarrow> q \<le> K \<Longrightarrow> r \<le> K \<Longrightarrow> s \<le> K \<Longrightarrow> p + q + r + s \<le> 5 * K"
    and "p \<le> K \<Longrightarrow> q \<le> K \<Longrightarrow> r \<le> K \<Longrightarrow> s \<le> K \<Longrightarrow> t \<le> K \<Longrightarrow> p + q + r + s + t \<le> 5 * K"
  by linarith+

text \<open>The products do not overflow when the limbs are bounded.\<close>

lemma mul_digits_val:
  fixes a b :: "'a::len word list"
  assumes "length a = 5" and "length b = 5"
    and "list_all (\<lambda>x. unat x \<le> A) a" and "list_all (\<lambda>x. unat x \<le> B) b"
    and "5 * (A * B) < 2 ^ LENGTH('a)"
  shows "lval w (mul_digits a b) = lval w a * lval w b \<and> length (mul_digits a b) = 9 \<and>
    list_all (\<lambda>d. unat d \<le> 5 * (A * B)) (mul_digits a b)"
proof -
  obtain a0 a1 a2 a3 a4 where a: "a = [a0, a1, a2, a3, a4]" using list5 assms(1) by blast
  obtain b0 b1 b2 b3 b4 where b: "b = [b0, b1, b2, b3, b4]" using list5 assms(2) by blast
  let ?a = "map unat a" and ?b = "map unat b"
  let ?N = "[?a!0 * ?b!0, ?a!0 * ?b!1 + ?a!1 * ?b!0, ?a!0 * ?b!2 + ?a!1 * ?b!1 + ?a!2 * ?b!0,
     ?a!0 * ?b!3 + ?a!1 * ?b!2 + ?a!2 * ?b!1 + ?a!3 * ?b!0,
     ?a!0 * ?b!4 + ?a!1 * ?b!3 + ?a!2 * ?b!2 + ?a!3 * ?b!1 + ?a!4 * ?b!0,
     ?a!1 * ?b!4 + ?a!2 * ?b!3 + ?a!3 * ?b!2 + ?a!4 * ?b!1, ?a!2 * ?b!4 + ?a!3 * ?b!3 + ?a!4 * ?b!2,
     ?a!3 * ?b!4 + ?a!4 * ?b!3, ?a!4 * ?b!4]"
  have d: "mul_digits a b = map word_of_nat ?N"
    by (simp add: a b mul_digits_explicit)
  have p: "?a ! i * ?b ! j \<le> A * B" if "i < 5" "j < 5" for i j
    using that assms(1-4) by (intro mult_le_mono) (auto simp: list_all_length)
  have bnd: "list_all (\<lambda>n. n \<le> 5 * (A * B)) ?N"
    unfolding list.pred_inject
    by (intro conjI;
        ((rule sum_bounds(5) sum_bounds(4) sum_bounds(3) sum_bounds(2) sum_bounds(1); rule p; simp)
         | simp only: list.pred_inject))
  have "map unat (map word_of_nat xs :: 'a word list) = xs"
    if "list_all (\<lambda>n. n \<le> 5 * (A * B)) xs" for xs
    using that assms(5) by (induction xs) (auto simp: unat_of_nat)
  from this [OF bnd] have u: "map unat (mul_digits a b) = ?N" by (simp only: d)
  have "nval w ?N = nval w ?a * nval w ?b"
    by (simp add: a b algebra_simps)
  then have "lval w (mul_digits a b) = lval w a * lval w b" by (simp only: lval_nval u)
  moreover have "list_all (\<lambda>n. n \<le> 5 * (A * B)) (map unat (mul_digits a b))"
    using bnd by (simp only: u)
  moreover have "length (mul_digits a b) = 9" using arg_cong [OF u, of length] by simp
  ultimately show ?thesis by (simp add: list_all_iff)
qed

definition mul_reduce :: "nat \<Rightarrow> nat \<Rightarrow> 'a::len word list \<Rightarrow> 'a word list \<Rightarrow> 'a word list" where
  "mul_reduce w c a b = weak_reduce w c (fold_digits c (carry_pass w 8 (mul_digits a b)))"

lemma geo5:
  fixes X :: nat
  assumes "2 \<le> X"
  shows "1 + X + X ^ 2 + X ^ 3 \<le> X ^ 4"
proof -
  have a: "2 * 1 \<le> X * 1" "2 * X \<le> X * X" "2 * X ^ 2 \<le> X * X ^ 2" "2 * X ^ 3 \<le> X * X ^ 3"
    using assms by (intro mult_right_mono; simp)+
  have e: "X * X = X ^ 2" "X * X ^ 2 = X ^ 3" "X * X ^ 3 = X ^ 4"
    by (simp_all add: power2_eq_square power3_eq_cube eval_nat_numeral)
  show ?thesis using a unfolding e by linarith
qed

lemma lval5_le:
  assumes "length l = 5" and "list_all (\<lambda>x. unat x \<le> A) l" and "0 < w"
  shows "lval w l \<le> 2 * A * 2 ^ (4 * w)"
proof -
  obtain a b c d e where l: "l = [a, b, c, d, e]" using list5 assms(1) by blast
  define X :: nat where "X = 2 ^ w"
  have X: "2 \<le> X" using assms(3) self_le_power [of 2 w] by (simp add: X_def)
  have pow: "2 ^ (n * w) = X ^ n" for n unfolding X_def by (metis mult.commute power_mult)
  have "unat a + X * unat b + X ^ 2 * unat c + X ^ 3 * unat d + X ^ 4 * unat e
      \<le> A + X * A + X ^ 2 * A + X ^ 3 * A + X ^ 4 * A"
    using assms(2) by (intro add_mono mult_left_mono) (auto simp: l)
  also have "\<dots> = (1 + X + X ^ 2 + X ^ 3) * A + X ^ 4 * A" by (simp add: algebra_simps)
  also have "\<dots> \<le> X ^ 4 * A + X ^ 4 * A" using geo5 [OF X] by (intro add_mono mult_right_mono) auto
  finally show ?thesis unfolding l lval5 pow X_def [symmetric] by (simp add: mult.commute)
qed

locale limb_radix =
  fixes w c :: nat and ty :: "'a::len itself"
  assumes w_pos: "0 < w" and w_le: "w \<le> LENGTH('a)"
    and digit_room: "(2 :: nat) ^ w + 2 ^ (LENGTH('a) - w) \<le> 2 ^ LENGTH('a)"
    and c_le: "c < 2 ^ LENGTH('a)"
begin

lemma digit_roomy: "unat (x :: 'a word) < 2 ^ w \<Longrightarrow> roomy w x"
  using digit_room by (simp add: roomy_def)

text \<open>The middle statement, on limbs that were carried.\<close>

lemma wrap_top_val:
  fixes l :: "'a word list"
  assumes "map unat l = digs w 4 v" and "2 ^ w + c * (v div 2 ^ (5 * w)) \<le> 2 ^ LENGTH('a)"
  shows "lval w (wrap_top w c l) = fold_top (5 * w) c v \<and> length (wrap_top w c l) = 5 \<and>
    list_all (roomy w) (tl (wrap_top w c l))"
proof -
  have "length l = 5" using arg_cong [OF assms(1), of length] by simp
  then obtain l0 l1 l2 l3 l4 where l: "l = [l0, l1, l2, l3, l4]" using list5 by blast
  have d: "unat l0 = v mod 2 ^ w" "unat l1 < 2 ^ w" "unat l2 < 2 ^ w" "unat l3 < 2 ^ w"
    "unat l4 = v div 2 ^ (4 * w)"
    using assms(1) by (simp_all add: l digs_4)
  let ?q = "v div 2 ^ (5 * w)"
  have q: "unat (drop_bit w l4) = ?q"
    by (simp add: unat_drop_bit d(5) div_mult2_eq [symmetric] power_add [symmetric])
  have lt: "unat l0 + c * ?q < 2 ^ LENGTH('a)" 
  proof -
    have "unat l0 < 2 ^ w" by (simp add: d(1))
    then show ?thesis using assms(2) by linarith
  qed
  then have "unat (drop_bit w l4 * word_of_nat c) = c * ?q"
    using c_le q by (simp add: unat_word_ariths unat_of_nat mult.commute)
  then have n0: "unat (l0 + drop_bit w l4 * word_of_nat c) = v mod 2 ^ w + c * ?q"
    using lt d(1) by (simp add: unat_word_ariths)
  let ?l' = "[l0 + drop_bit w l4 * word_of_nat c, l1, l2, l3, l4 AND mask w]"
  have eq: "wrap_top w c l = ?l'" by (simp add: wrap_top_def l)
  have "lval w ?l' = c * ?q + nval w ((digs w 4 v)[4 := v div 2 ^ (4 * w) mod 2 ^ w])"
    using assms(1) by (simp add: l lval_nval n0 unat_and_mask digs_4)
  also have "\<dots> = c * ?q + v mod 2 ^ (5 * w)"
    using mod_split_top [of v w 4] by (simp add: nval_digs_update mult.commute)
  finally have "lval w ?l' = fold_top (5 * w) c v" by (simp add: fold_top_def)
  moreover have "list_all (roomy w) (tl ?l')"
    using d by (simp add: digit_roomy unat_and_mask)
  ultimately show ?thesis by (simp add: eq)
qed

lemma weak_reduce_digits:
  fixes l :: "'a word list"
  assumes "length l = 5" and "list_all (roomy w) (tl l)"
    and "2 ^ w + c * (lval w l div 2 ^ (5 * w)) \<le> 2 ^ LENGTH('a)"
  shows "map unat (weak_reduce w c l) = digs w 4 (fold_top (5 * w) c (lval w l))"
proof -
  have "map unat (carry_pass w 4 l) = digs w 4 (lval w l)"
    using assms w_le by (intro carry_pass_digits) auto
  note wt = wrap_top_val [OF this assms(3)]
  then show ?thesis
    unfolding weak_reduce_def using w_le by (subst carry_pass_digits) auto
qed

lemma fold_digits_val:
  fixes d :: "'a word list"
  assumes "map unat d = digs w 8 v"
    and "2 ^ (LENGTH('a) - w) + (c + 1) * 2 ^ w + c * (v div 2 ^ (8 * w)) \<le> 2 ^ LENGTH('a)"
  shows "lval w (fold_digits c d) = fold_top (5 * w) c v \<and> length (fold_digits c d) = 5 \<and>
    list_all (roomy w) (tl (fold_digits c d))"
proof -
  let ?D = "digs w 8 v"
  have "length d = 9" using arg_cong [OF assms(1), of length] by simp
  then have D: "unat (d ! k) = ?D ! k" if "k < 9" for k
    using that assms(1) by (metis nth_map)
  have low: "?D ! k < 2 ^ w" if "k < 8" for k using that by (rule digs_low)
  have top: "?D ! 8 = v div 2 ^ (8 * w)"
    by (simp add: numeral_eq_Suc div_mult2_eq power_add flip: power_Suc)
  have cD: "c * ?D ! k \<le> c * 2 ^ w" if "k < 8" for k
    using low [OF that] by (intro mult_left_mono) auto
  have room: "2 ^ w + c * 2 ^ w + 2 ^ (LENGTH('a) - w) \<le> 2 ^ LENGTH('a)"
    "2 ^ w + c * ?D ! 8 + 2 ^ (LENGTH('a) - w) \<le> 2 ^ LENGTH('a)"
    using assms(2) by (simp_all add: top algebra_simps)
  have pos: "0 < (2 :: nat) ^ (LENGTH('a) - w)" by simp
  have tm: "unat (d ! i + d ! j * word_of_nat c) = ?D ! i + c * ?D ! j \<and>
      roomy w (d ! i + d ! j * word_of_nat c)" if ij: "i < 4" "j \<le> 8" for i j
  proof -
    have "?D ! i + c * ?D ! j + 2 ^ (LENGTH('a) - w) \<le> 2 ^ LENGTH('a)"
    proof (cases "j = 8")
      case True
      then show ?thesis using low [of i] room(2) ij by simp
    next
      case False
      then have "j < 8" "i < 8" using ij by auto
      then show ?thesis using low [of i] cD [of j] room(1) by linarith
    qed
    moreover from this have "?D ! i + c * ?D ! j < 2 ^ LENGTH('a)" using pos by linarith
    ultimately show ?thesis
      using c_le D ij by (simp add: roomy_def unat_word_ariths unat_of_nat mult.commute)
  qed
  have r4: "roomy w (d ! 4)" using low [of 4] D by (intro digit_roomy) simp
  have "lval w (fold_digits c d) = nval w (take 5 ?D) + c * nval w (drop 5 ?D)"
  proof -
    have "length ?D = 9" by simp
    then obtain e0 e1 e2 e3 e4 e5 e6 e7 e8 where e: "?D = [e0, e1, e2, e3, e4, e5, e6, e7, e8]"
      by (auto simp: numeral_eq_Suc length_Suc_conv simp del: digs.simps length_digs)
    have n: "unat (d ! 0 + d ! 5 * word_of_nat c) = e0 + c * e5"
      "unat (d ! 1 + d ! 6 * word_of_nat c) = e1 + c * e6"
      "unat (d ! 2 + d ! 7 * word_of_nat c) = e2 + c * e7"
      "unat (d ! 3 + d ! 8 * word_of_nat c) = e3 + c * e8" "unat (d ! 4) = e4"
      using tm [of 0 5] tm [of 1 6] tm [of 2 7] tm [of 3 8] D [of 4] unfolding e by simp_all
    show ?thesis unfolding e fold_digits_def lval.simps n by (simp add: algebra_simps)
  qed
  also have "\<dots> = fold_top (5 * w) c v"
    by (simp add: nval_take_digs nval_drop_digs fold_top_def mult.commute)
  finally show ?thesis
    using tm [of 1 6] tm [of 2 7] tm [of 3 8] r4 by (simp add: fold_digits_def)
qed

text \<open>The whole multiplication: what it computes is the product, folded twice.\<close>

theorem mul_reduce_digits:
  fixes a b :: "'a word list"
  assumes "length a = 5" and "length b = 5"
    and "list_all (\<lambda>x. unat x \<le> A) a" and "list_all (\<lambda>x. unat x \<le> B) b"
    and room: "2 ^ (LENGTH('a) - w) + (c + 1) * 2 ^ w + c * (1 + 4 * c * (A * B)) + 5 * (A * B)
      \<le> 2 ^ LENGTH('a)" and "0 < c"
  shows "map unat (mul_reduce w c a b) =
    digs w 4 (fold_top (5 * w) c (fold_top (5 * w) c (lval w a * lval w b)))"
proof -
  let ?V = "lval w a * lval w b"
  let ?V1 = "fold_top (5 * w) c ?V"
  let ?P = "(2 :: nat) ^ (8 * w)" and ?K = "4 * (A * B)"
  have pos: "0 < (2 :: nat) ^ (LENGTH('a) - w)" by simp
  have room5: "5 * (A * B) + 2 ^ (LENGTH('a) - w) \<le> 2 ^ LENGTH('a)" using room by linarith
  then have "5 * (A * B) < 2 ^ LENGTH('a)" using pos by linarith
  note md = mul_digits_val [OF assms(1-4) this]
  have "list_all (roomy w) (mul_digits a b)"
    using md room5 by (fastforce simp: list_all_iff roomy_def)
  then have "list_all (roomy w) (tl (mul_digits a b))"
    by (cases "mul_digits a b") auto
  then have cp: "map unat (carry_pass w 8 (mul_digits a b)) = digs w 8 ?V"
    using carry_pass_digits [of "mul_digits a b" 8 w] md w_le by simp
  have "?V \<le> (2 * A * 2 ^ (4 * w)) * (2 * B * 2 ^ (4 * w))"
    using lval5_le [OF assms(1,3) w_pos] lval5_le [OF assms(2,4) w_pos] by (rule mult_le_mono)
  also have "\<dots> = ?K * ?P" by (simp add: power_add flip: power_add)
  finally have V: "?V \<le> ?K * ?P" .
  then have V8: "?V div ?P \<le> ?K"
    using div_le_mono [OF V, of ?P] by simp
  have "?K \<le> 4 * c * (A * B)" using assms(6) by simp
  have "c * (?V div ?P) \<le> c * (1 + 4 * c * (A * B))"
  proof (rule mult_left_mono)
    show "?V div ?P \<le> 1 + 4 * c * (A * B)" using V8 \<open>?K \<le> 4 * c * (A * B)\<close> by linarith
  qed simp
  then have "2 ^ (LENGTH('a) - w) + (c + 1) * 2 ^ w + c * (?V div ?P) \<le> 2 ^ LENGTH('a)"
    using room by linarith
  note fd = fold_digits_val [OF cp this]
  have "?V div 2 ^ (5 * w) \<le> (?K * 2 ^ (3 * w))"
  proof -
    have "?K * ?P = (?K * 2 ^ (3 * w)) * 2 ^ (5 * w)" by (simp add: mult.assoc flip: power_add)
    with V have "?V \<le> (?K * 2 ^ (3 * w)) * 2 ^ (5 * w)" by (simp only:)
    from div_le_mono [OF this, of "2 ^ (5 * w)"] show ?thesis by simp
  qed
  then have "?V1 < 2 ^ (5 * w) + c * (?K * 2 ^ (3 * w)) + 1" by (rule fold_top_le)
  also have "\<dots> \<le> 2 ^ (5 * w) + c * (?K * 2 ^ (5 * w)) + 1"
    by (intro add_mono mult_left_mono power_increasing) auto
  finally have "?V1 \<le> (1 + c * ?K) * 2 ^ (5 * w)" by (simp add: algebra_simps)
  then have "?V1 div 2 ^ (5 * w) \<le> 1 + c * ?K"
    using div_le_mono [of ?V1 "(1 + c * ?K) * 2 ^ (5 * w)" "2 ^ (5 * w)"] by simp
  then have "c * (?V1 div 2 ^ (5 * w)) \<le> c * (1 + 4 * c * (A * B))"
    by (intro mult_left_mono) (auto simp: mult.commute mult.left_commute)
  moreover have "(2 :: nat) ^ w \<le> (c + 1) * 2 ^ w" by simp
  ultimately have "2 ^ w + c * (lval w (fold_digits c (carry_pass w 8 (mul_digits a b))) div 2 ^ (5 * w))
      \<le> 2 ^ LENGTH('a)"
    using room unfolding conjunct1 [OF fd] by linarith
  then show ?thesis
    unfolding mul_reduce_def using fd by (subst weak_reduce_digits) auto
qed

end

interpretation r26: limb_radix 26 5 "TYPE(64)" by unfold_locales simp_all
interpretation r51: limb_radix 51 19 "TYPE(64)" by unfold_locales simp_all
interpretation r51w: limb_radix 51 19 "TYPE(128)" by unfold_locales simp_all

end
