(* ===== verification/Limb_Bytes.thy ===== *)
theory Limb_Bytes
  imports Limbs
begin

text \<open>
  Packing and unpacking limbs into little-endian bytes, shared by the fields: a limb that starts
  in the middle of a byte is loaded from \<open>b[i] >> d | b[i+1] << (8 - d) | \<dots>\<close>, and a byte that
  holds the end of one limb and the start of the next is stored from both. The lemmas reduce
  every load and store to \<open>div\<close> and \<open>mod\<close> of the number the bytes stand for.
\<close>

section \<open>Loads and stores\<close>

text \<open>\<open>ld b i k s\<close>: \<open>b[i] << s | b[i + 1] << (s + 8) | \<dots>\<close>, \<open>k\<close> bytes.\<close>

abbreviation ld :: "bytes \<Rightarrow> nat \<Rightarrow> nat \<Rightarrow> nat \<Rightarrow> u64" where
  "ld b i k s \<equiv> le_or s (span_at i k b)"

text \<open>\<open>byte_of x s m\<close>: \<open>uint8_t ((x >> s) & m)\<close>.\<close>

definition byte_of :: "u64 \<Rightarrow> nat \<Rightarrow> u64 \<Rightarrow> byte" where
  "byte_of x s m = ucast (drop_bit s x AND m)"

section \<open>Loads\<close>

lemma lval_split_at:
  "i \<le> length b \<Longrightarrow> lval w b = lval w (take i b) + 2 ^ (w * i) * lval w (drop i b)"
  by (metis append_take_drop_id length_take lval_append min.absorb2)

lemma lval_drop: "i \<le> length b \<Longrightarrow> lval 8 (drop i (b :: bytes)) = lval 8 b div 2 ^ (8 * i)"
  using bytes_less [of "take i b"] lval_split_at [of i b 8] by simp

lemma lval_span:
  assumes "i + k \<le> length b" and "m \<le> 8 * k"
  shows "lval 8 (span_at i k (b :: bytes)) mod 2 ^ m = lval 8 b div 2 ^ (8 * i) mod 2 ^ m"
proof -
  have len: "length (span_at i k b) = k" using assms by simp
  have "drop i b = span_at i k b @ drop (i + k) b" using assms by (intro span_at_step) simp
  then have "lval 8 (drop i b) = lval 8 (span_at i k b) + 2 ^ (8 * k) * lval 8 (drop (i + k) b)"
    by (metis len lval_append)
  moreover have "(2 :: nat) ^ (8 * k) = 2 ^ m * 2 ^ (8 * k - m)"
    using assms(2) by (simp flip: power_add)
  ultimately have "lval 8 (drop i b) =
      lval 8 (span_at i k b) + 2 ^ m * (2 ^ (8 * k - m) * lval 8 (drop (i + k) b))"
    by (simp add: mult.assoc)
  then have "lval 8 (drop i b) mod 2 ^ m = lval 8 (span_at i k b) mod 2 ^ m"
    by (simp only: mod_mult_self2)
  then show ?thesis using assms by (simp add: lval_drop)
qed

text \<open>A limb that starts on a byte boundary.\<close>

lemma unat_load_aligned:
  assumes "i + k \<le> length b" and "m \<le> 8 * k" and "k \<le> 8"
  shows "unat (ld b i k 0 AND mask m) = lval 8 b div 2 ^ (8 * i) mod 2 ^ m"
  using assms by (simp add: unat_and_mask unat_le_or lval_span)

text \<open>A limb that starts \<open>d\<close> bits into byte \<open>i\<close>.\<close>

lemma unat_load_straddle:
  assumes "Suc (i + k) \<le> length b" and "0 < d" and "d < 8" and "m \<le> 8 - d + 8 * k" and "k \<le> 7"
  shows "unat ((drop_bit d (ucast (b ! i)) OR ld b (Suc i) k (8 - d)) AND mask m :: u64) =
    lval 8 b div 2 ^ (8 * i + d) mod 2 ^ m"
proof -
  let ?s = "8 - d" and ?S = "lval 8 (span_at (Suc i) k b)" and ?x = "unat (b ! i)"
  have x: "?x < 256" using unsigned_less [of "b ! i"] by simp
  have pow: "(256 :: nat) = 2 ^ d * 2 ^ ?s" using assms(2,3) by (simp flip: power_add)
  have hi: "unat (drop_bit d (ucast (b ! i) :: u64)) = ?x div 2 ^ d"
    by (simp only: unat_drop_bit unat_ucast_byte) (simp add: unat_ucast_byte)
  have lt: "?x div 2 ^ d < 2 ^ ?s"
    using x unfolding pow by (intro less_mult_imp_div_less) (simp only: mult.commute)
  have "unat (drop_bit d (ucast (b ! i)) OR ld b (Suc i) k ?s) = ?x div 2 ^ d + 2 ^ ?s * ?S"
    using assms lt by (subst unat_or_disjoint [of _ ?s]) (simp_all add: hi unat_le_or)
  also have "\<dots> = (?x + 256 * ?S) div 2 ^ d"
    by (simp add: pow mult.assoc)
  also have "?x + 256 * ?S = lval 8 (span_at i (Suc k) b)"
    using assms(1) by (simp add: span_at_def flip: Cons_nth_drop_Suc)
  finally have "unat ((drop_bit d (ucast (b ! i)) OR ld b (Suc i) k ?s) AND mask m) =
      lval 8 (span_at i (Suc k) b) div 2 ^ d mod 2 ^ m"
    by (simp only: unat_and_mask)
  also have "\<dots> = lval 8 (span_at i (Suc k) b) mod 2 ^ (d + m) div 2 ^ d"
    by (simp add: power_add mod_mult2_eq)
  also have "lval 8 (span_at i (Suc k) b) mod 2 ^ (d + m) = lval 8 b div 2 ^ (8 * i) mod 2 ^ (d + m)"
    using assms by (intro lval_span) auto
  also have "\<dots> div 2 ^ d = lval 8 b div 2 ^ (8 * i + d) mod 2 ^ m"
    by (simp add: power_add mod_mult2_eq div_mult2_eq)
  finally show ?thesis .
qed

section \<open>Stores\<close>

lemma unat_byte_of: "m \<le> 8 \<Longrightarrow> unat (byte_of x s (mask m)) = unat x div 2 ^ s mod 2 ^ m"
proof -
  assume m: "m \<le> 8"
  have "unat x div 2 ^ s mod 2 ^ m < (2 :: nat) ^ 8"
    using m by (meson mod_less_divisor order_less_le_trans one_le_numeral power_increasing
        zero_less_numeral zero_less_power)
  then show ?thesis
    by (simp add: byte_of_def unsigned_ucast_eq unat_and_mask unat_drop_bit take_bit_nat_eq_self)
qed

lemma masks: "(0xFF :: u64) = mask 8" "(0x3F :: u64) = mask 6" "(0x0F :: u64) = mask 4"
  "(0x03 :: u64) = mask 2" "(0x07 :: u64) = mask 3" "(0x01 :: u64) = mask 1" "(0x7F :: u64) = mask 7"
  by (simp_all add: mask_eq_exp_minus_1)

text \<open>Digits of digits.\<close>

lemma div_mod_digit:
  "s + m \<le> w \<Longrightarrow> (v div 2 ^ a mod 2 ^ w) div 2 ^ s mod 2 ^ m = (v :: nat) div 2 ^ (a + s) mod 2 ^ m"
proof -
  assume "s + m \<le> w"
  then have w: "(2 :: nat) ^ w = 2 ^ s * (2 ^ m * 2 ^ (w - s - m))" by (simp flip: power_add)
  show ?thesis
    unfolding w by (simp add: mod_mult2_eq power_add div_mult2_eq)
qed

lemma digit_join:
  "v div 2 ^ a mod 2 ^ s + 2 ^ s * (v div 2 ^ (a + s) mod 2 ^ m) = (v :: nat) div 2 ^ a mod 2 ^ (s + m)"
  by (simp add: power_add mod_mult2_eq div_mult2_eq)

text \<open>A byte inside one limb, and a byte that straddles two.\<close>

lemma byte_inside:
  assumes "unat x = v div 2 ^ a mod 2 ^ w" and "s + 8 \<le> w"
  shows "byte_of x s (mask 8) = word_of_nat (v div 2 ^ (a + s))"
proof -
  have "unat (byte_of x s (mask 8)) = v div 2 ^ (a + s) mod 2 ^ 8"
    using assms by (simp only: unat_byte_of div_mod_digit order_refl)
  then show ?thesis by (simp add: word_unat_eq_iff unat_of_nat)
qed

lemma byte_straddle:
  assumes x: "unat x = v div 2 ^ a mod 2 ^ w" and y: "unat y = v div 2 ^ (a + w) mod 2 ^ w'"
    and k: "0 < k" "k < 8" "k \<le> w" "8 - k \<le> w'" "w' + k \<le> 64"
  shows "byte_of x (w - k) (mask k) OR byte_of (push_bit k y) 0 (mask 8) =
    word_of_nat (v div 2 ^ (a + w - k))"
proof -
  let ?b = "byte_of x (w - k) (mask k)" and ?c = "byte_of (push_bit k y) 0 (mask 8)"
  have b: "unat ?b = v div 2 ^ (a + w - k) mod 2 ^ k"
    using k by (simp add: unat_byte_of x div_mod_digit)
  have "unat y < 2 ^ w'" by (simp add: y)
  then have "unat y * 2 ^ k < 2 ^ w' * 2 ^ k" by simp
  also have "\<dots> \<le> 2 ^ 64"
    using power_increasing [of "w' + k" 64 "2 :: nat"] k by (simp add: power_add)
  finally have "unat (push_bit k y) = unat y * 2 ^ k" by (intro unat_push_bit) simp
  then have "unat ?c = (2 ^ k * unat y) mod 2 ^ 8"
    using unat_byte_of [of 8 "push_bit k y" 0] by (simp add: mult.commute)
  also have "(2 :: nat) ^ 8 = 2 ^ k * 2 ^ (8 - k)" using k by (simp flip: power_add)
  also have "(2 ^ k * unat y) mod (2 ^ k * 2 ^ (8 - k)) = 2 ^ k * (unat y mod 2 ^ (8 - k))"
    by (rule mult_mod_right [symmetric])
  also have "unat y mod 2 ^ (8 - k) = v div 2 ^ (a + w) mod 2 ^ (8 - k)"
    using k div_mod_digit [of 0 "8 - k" w' v "a + w"] by (simp add: y)
  finally have c: "unat ?c = 2 ^ k * (v div 2 ^ (a + w) mod 2 ^ (8 - k))" .
  have "unat (?b OR ?c) = unat ?b + unat ?c"
    by (rule unat_or_disjoint [of _ k]) (simp_all add: b c)
  also have "\<dots> = v div 2 ^ (a + w - k) mod 2 ^ (k + (8 - k))"
    using digit_join [of v "a + w - k" k "8 - k"] k by (simp add: b c)
  finally have "unat (?b OR ?c) = v div 2 ^ (a + w - k) mod 2 ^ 8" using k by simp
  then show ?thesis by (simp add: word_unat_eq_iff unat_of_nat)
qed

lemma le_bytes_map: "le_bytes n v = map (\<lambda>i. word_of_nat (v div 2 ^ (8 * i))) [0..<n]"
proof (induction n arbitrary: v)
  case 0
  then show ?case by simp
next
  case (Suc n)
  have "[0..<Suc n] = 0 # map Suc [0..<n]"
    by (simp add: upt_conv_Cons map_Suc_upt del: upt_Suc)
  then show ?case
    using Suc by (simp add: div_mult2_eq power_add del: upt_Suc)
qed

text \<open>The digits of a number that was cut to five limbs.\<close>

lemma digs_4_mod:
  "digs w 4 (v mod 2 ^ (5 * w)) = [v mod 2 ^ w, v div 2 ^ w mod 2 ^ w, v div 2 ^ (2 * w) mod 2 ^ w,
     v div 2 ^ (3 * w) mod 2 ^ w, v div 2 ^ (4 * w) mod 2 ^ w]"
proof -
  let ?u = "v mod 2 ^ (5 * w)"
  have m: "?u div 2 ^ s mod 2 ^ w = v div 2 ^ s mod 2 ^ w" if "s + w \<le> 5 * w" for s
    using div_mod_digit [OF that, of v 0] by simp
  have "?u < 2 ^ w * 2 ^ (4 * w)" by (simp flip: power_add)
  then have "?u div 2 ^ (4 * w) < 2 ^ w" by (rule less_mult_imp_div_less)
  then have "?u div 2 ^ (4 * w) = v div 2 ^ (4 * w) mod 2 ^ w"
    using m [of "4 * w"] by simp
  then show ?thesis
    using m [of 0] m [of w] m [of "2 * w"] m [of "3 * w"] by (simp add: digs_4)
qed

end
