(* ===== verification/Chacha_20.thy ===== *)
theory Chacha_20
  imports Limb_Bytes
begin

text \<open>
  The stream cipher of \<open>src/impl/crypto/stream_cipher/chacha_20.cpp\<close>. The sixteen state words are
  a list of \<open>uint32_t\<close>, \<open>quarter_round\<close> takes and returns the four words its reference arguments
  name, and the keystream loop updates the buffer in place at an offset that moves by 64. The
  lemmas give every byte of the result by its position, show that the cipher undoes itself, and
  that a double round loses no information.
\<close>

section \<open>The code\<close>

definition rotl32 :: "u32 \<Rightarrow> nat \<Rightarrow> u32" where
  "rotl32 v n = push_bit n v OR drop_bit (32 - n) v"

definition load32_le :: "bytes \<Rightarrow> u32" where
  "load32_le p = ucast (p ! 0) OR push_bit 8 (ucast (p ! 1)) OR push_bit 16 (ucast (p ! 2))
     OR push_bit 24 (ucast (p ! 3))"

definition store32_le :: "u32 \<Rightarrow> bytes" where
  "store32_le v = [ucast v, ucast (drop_bit 8 v), ucast (drop_bit 16 v), ucast (drop_bit 24 v)]"

definition quarter_round :: "u32 \<times> u32 \<times> u32 \<times> u32 \<Rightarrow> u32 \<times> u32 \<times> u32 \<times> u32" where
  "quarter_round = (\<lambda>(a, b, c, d).
     (let a = a + b; d = d XOR a; d = rotl32 d 16;
          c = c + d; b = b XOR c; b = rotl32 b 12;
          a = a + b; d = d XOR a; d = rotl32 d 8;
          c = c + d; b = b XOR c; b = rotl32 b 7
      in (a, b, c, d)))"

text \<open>\<open>quarter_round (x[i], x[j], x[k], x[l])\<close>.\<close>

definition qr_at :: "nat \<Rightarrow> nat \<Rightarrow> nat \<Rightarrow> nat \<Rightarrow> u32 list \<Rightarrow> u32 list" where
  "qr_at i j k l x =
     (let (a, b, c, d) = quarter_round (x ! i, x ! j, x ! k, x ! l)
      in x[i := a, j := b, k := c, l := d])"

definition double_round :: "u32 list \<Rightarrow> u32 list" where
  "double_round x =
     (let x = qr_at 0 4 8 12 x; x = qr_at 1 5 9 13 x; x = qr_at 2 6 10 14 x; x = qr_at 3 7 11 15 x;
          x = qr_at 0 5 10 15 x; x = qr_at 1 6 11 12 x; x = qr_at 2 7 8 13 x
      in qr_at 3 4 9 14 x)"

definition chacha_block :: "u32 list \<Rightarrow> bytes" where
  "chacha_block init =
     (let x = (double_round ^^ 10) init
      in concat (map (\<lambda>i. store32_le (x ! i + init ! i)) [0..<16]))"

definition SIGMA20 :: "u32 list" where
  "SIGMA20 = [0x61707865, 0x3320646e, 0x79622d32, 0x6b206574]"

definition chacha_state :: "bytes \<Rightarrow> u32 \<Rightarrow> bytes \<Rightarrow> u32 list" where
  "chacha_state key counter nonce =
     SIGMA20 @ map (\<lambda>i. load32_le (span_at (4 * i) 4 key)) [0..<8] @
     [counter, load32_le (span_at 0 4 nonce), load32_le (span_at 4 4 nonce),
      load32_le (span_at 8 4 nonce)]"

text \<open>The inner loop \<open>buffer[offset + i] ^= keystream_arr[i]\<close> and the outer \<open>while\<close>.\<close>

definition xor_at :: "nat \<Rightarrow> bytes \<Rightarrow> nat \<Rightarrow> bytes \<Rightarrow> bytes" where
  "xor_at offset ks n buffer =
     fold (\<lambda>i b. b[offset + i := b ! (offset + i) XOR ks ! i]) [0..<n] buffer"

lemma length_xor_at [simp]: "length (xor_at offset ks n buffer) = length buffer"
  by (induction n) (simp_all add: xor_at_def)

function keystream_loop :: "u32 list \<Rightarrow> nat \<Rightarrow> bytes \<Rightarrow> bytes" where
  "keystream_loop state offset buffer =
     (if offset < length buffer then
        let keystream_arr = chacha_block state;
            n = min (length buffer - offset) 64;
            buffer = xor_at offset keystream_arr n buffer
        in keystream_loop (state[12 := state ! 12 + 1]) (offset + 64) buffer
      else buffer)"
  by pat_completeness auto
termination by (relation "measure (\<lambda>(s, off, b). length b - off)") auto

declare keystream_loop.simps [simp del]

definition apply_keystream :: "bytes \<Rightarrow> u32 \<Rightarrow> bytes \<Rightarrow> bytes \<Rightarrow> bytes" where
  "apply_keystream key counter nonce buffer =
     keystream_loop (chacha_state key counter nonce) 0 buffer"

definition chacha_encrypt :: "bytes \<Rightarrow> bytes \<Rightarrow> bytes \<Rightarrow> bytes" where
  "chacha_encrypt key nonce buffer = apply_keystream key 1 nonce buffer"

definition chacha_decrypt :: "bytes \<Rightarrow> bytes \<Rightarrow> bytes \<Rightarrow> bytes" where
  "chacha_decrypt key nonce ciphertext = apply_keystream key 1 nonce ciphertext"

definition chacha_subkey :: "bytes \<Rightarrow> bytes \<Rightarrow> bytes" where
  "chacha_subkey key nonce = take 32 (apply_keystream key 0 nonce (replicate 64 0))"

section \<open>The keystream by position\<close>

lemma nth_xor_at:
  assumes "offset + n \<le> length buffer" and "j < length buffer"
  shows "xor_at offset ks n buffer ! j =
    (if offset \<le> j \<and> j < offset + n then buffer ! j XOR ks ! (j - offset) else buffer ! j)"
  using assms(1)
proof (induction n)
  case 0
  then show ?case by (auto simp: xor_at_def)
next
  case (Suc n)
  have step: "xor_at offset ks (Suc n) buffer =
      (xor_at offset ks n buffer)[offset + n := xor_at offset ks n buffer ! (offset + n) XOR ks ! n]"
    by (simp add: xor_at_def)
  show ?case
  proof (cases "j = offset + n")
    case True
    then show ?thesis using Suc assms(2) unfolding step by simp
  next
    case False
    then show ?thesis using Suc unfolding step by auto
  qed
qed

lemma length_keystream_loop [simp]: "length (keystream_loop s off b) = length b"
proof (induction s off b rule: keystream_loop.induct)
  case (1 s off b)
  then show ?case by (subst keystream_loop.simps) (simp add: Let_def)
qed

lemma nth_keystream_loop:
  assumes "length s = 16" and "j < length b"
  shows "keystream_loop s off b ! j =
    (if off \<le> j then b ! j XOR chacha_block (s[12 := s ! 12 + word_of_nat ((j - off) div 64)]) ! ((j - off) mod 64)
     else b ! j)"
  using assms
proof (induction s off b rule: keystream_loop.induct)
  case (1 s off b)
  show ?case
  proof (cases "off < length b")
    case False
    then show ?thesis using "1.prems" by (subst keystream_loop.simps) simp
  next
    case True
    let ?n = "min (length b - off) 64" and ?s = "s[12 := s ! 12 + 1]"
    let ?b = "xor_at off (chacha_block s) ?n b"
    have ih: "keystream_loop ?s (off + 64) ?b ! j =
        (if off + 64 \<le> j then ?b ! j XOR
           chacha_block (?s[12 := ?s ! 12 + word_of_nat ((j - (off + 64)) div 64)]) ! ((j - (off + 64)) mod 64)
         else ?b ! j)"
      using "1.prems" by (intro "1.IH" [OF True refl refl refl]) auto
    have bj: "?b ! j = (if off \<le> j \<and> j < off + ?n then b ! j XOR chacha_block s ! (j - off) else b ! j)"
      using True "1.prems" by (intro nth_xor_at) auto
    have eq: "keystream_loop s off b = keystream_loop ?s (off + 64) ?b"
      using True by (subst keystream_loop.simps) (simp add: Let_def)
    consider "j < off" | "off \<le> j" "j < off + 64" | "off + 64 \<le> j" by linarith
    then show ?thesis
    proof cases
      case 1
      then show ?thesis unfolding eq ih bj by simp
    next
      case 2
      then have "j < off + ?n" using "1.prems" by simp
      then show ?thesis using 2 unfolding eq ih bj by simp
    next
      case 3
      then obtain m where m: "j = off + 64 + m" using le_Suc_ex by blast
      have "(64 + m) div 64 = Suc (m div 64)" "(64 + m) mod 64 = m mod 64" by simp_all
      then show ?thesis using 3 "1.prems" unfolding eq unfolding ih bj unfolding m by (simp add: add.assoc)
    qed
  qed
qed

lemma length_chacha_state [simp]: "length (chacha_state key counter nonce) = 16"
  by (simp add: chacha_state_def SIGMA20_def)

lemma chacha_state_counter:
  "(chacha_state key counter nonce)[12 := x] = chacha_state key x nonce"
  "chacha_state key counter nonce ! 12 = counter"
  by (simp_all add: chacha_state_def SIGMA20_def upt_rec)

lemma apply_keystream_nth:
  assumes "j < length b"
  shows "apply_keystream key counter nonce b ! j =
    b ! j XOR chacha_block (chacha_state key (counter + word_of_nat (j div 64)) nonce) ! (j mod 64)"
  using nth_keystream_loop [of "chacha_state key counter nonce" j b 0] assms
  by (simp add: apply_keystream_def chacha_state_counter)

lemma length_apply_keystream [simp]: "length (apply_keystream key counter nonce b) = length b"
  by (simp add: apply_keystream_def)

lemma apply_keystream_twice:
  "apply_keystream key counter nonce (apply_keystream key counter nonce b) = b"
  by (rule nth_equalityI) (simp_all add: apply_keystream_nth xor.assoc)

lemma apply_keystream_append:
  assumes "length a = 64 * k"
  shows "apply_keystream key counter nonce (a @ b) =
    apply_keystream key counter nonce a @ apply_keystream key (counter + word_of_nat k) nonce b"
proof (rule nth_equalityI)
  fix j assume "j < length (apply_keystream key counter nonce (a @ b))"
  then have j: "j < length a + length b" by simp
  show "apply_keystream key counter nonce (a @ b) ! j =
    (apply_keystream key counter nonce a @ apply_keystream key (counter + word_of_nat k) nonce b) ! j"
  proof (cases "j < length a")
    case True
    then show ?thesis using j by (simp add: apply_keystream_nth nth_append)
  next
    case False
    then obtain m where m: "j = 64 * k + m" using assms by (metis le_Suc_ex not_less)
    have "(64 * k + m) div 64 = k + m div 64" "(64 * k + m) mod 64 = m mod 64" by simp_all
    moreover have mb: "m < length b" "(a @ b) ! j = b ! m" using j m assms by (simp_all add: nth_append)
    ultimately have "apply_keystream key counter nonce (a @ b) ! j =
        apply_keystream key (counter + word_of_nat k) nonce b ! m"
      using j m by (simp only: apply_keystream_nth length_append of_nat_add add.assoc)
    then show ?thesis using m assms by (simp add: nth_append)
  qed
qed simp

section \<open>No information is lost in a round\<close>

lemma rotl32_bit: "0 < n \<Longrightarrow> n < 32 \<Longrightarrow> bit (rotl32 v n) k \<longleftrightarrow> k < 32 \<and> bit v ((k + (32 - n)) mod 32)"
proof (cases "k < 32")
  case False
  then show ?thesis by (simp add: bit_simps rotl32_def) (use bit_imp_le_length in fastforce)
next
  case True
  assume n: "0 < n" "n < 32"
  show ?thesis
  proof (cases "k < n")
    case True
    then have "(k + (32 - n)) mod 32 = 32 - n + k" using n by simp
    then show ?thesis using True n by (simp add: rotl32_def bit_simps)
  next
    case False
    then have "(k + (32 - n)) mod 32 = k - n" using n \<open>k < 32\<close> by (simp add: mod_if)
    moreover have "\<not> bit v (32 - n + k)" using False n bit_imp_le_length [of v] by fastforce
    ultimately show ?thesis using False n \<open>k < 32\<close> by (simp add: rotl32_def bit_simps)
  qed
qed

lemma rotl32_rotl32:
  assumes "0 < n" and "n < 32"
  shows "rotl32 (rotl32 v n) (32 - n) = v"
proof (rule bit_eqI)
  fix k
  have "((k + n) mod 32 + (32 - n)) mod 32 = (k + n + (32 - n)) mod 32" by (simp add: mod_add_left_eq)
  also have "\<dots> = k mod 32" using assms by simp
  finally show "bit (rotl32 (rotl32 v n) (32 - n)) k = bit v k"
    using assms bit_imp_le_length [of v k] by (auto simp: rotl32_bit)
qed

definition quarter_back :: "u32 \<times> u32 \<times> u32 \<times> u32 \<Rightarrow> u32 \<times> u32 \<times> u32 \<times> u32" where
  "quarter_back = (\<lambda>(a, b, c, d).
     (let b = rotl32 b 25 XOR c; c = c - d; d = rotl32 d 24 XOR a; a = a - b;
          b = rotl32 b 20 XOR c; c = c - d; d = rotl32 d 16 XOR a; a = a - b
      in (a, b, c, d)))"

lemma quarter_back [simp]: "quarter_back (quarter_round q) = q"
  using rotl32_rotl32 [of 7] rotl32_rotl32 [of 8] rotl32_rotl32 [of 12] rotl32_rotl32 [of 16]
  by (cases q) (simp add: quarter_round_def quarter_back_def Let_def xor.assoc)

lemma qr_at_inj:
  assumes "length x = length y" and "distinct [i, j, k, l]"
    and "i < length x" and "j < length x" and "k < length x" and "l < length x"
    and "qr_at i j k l x = qr_at i j k l y"
  shows "x = y"
proof (rule nth_equalityI [OF assms(1)])
  obtain a b c d where x: "quarter_round (x ! i, x ! j, x ! k, x ! l) = (a, b, c, d)"
    by (metis prod.exhaust)
  obtain a' b' c' d' where y: "quarter_round (y ! i, y ! j, y ! k, y ! l) = (a', b', c', d')"
    by (metis prod.exhaust)
  have eq: "x[i := a, j := b, k := c, l := d] = y[i := a', j := b', k := c', l := d']"
    using assms(7) by (simp add: qr_at_def x y)
  have at: "x[i := a, j := b, k := c, l := d] ! n = y[i := a', j := b', k := c', l := d'] ! n" for n
    by (simp only: eq)
  have "(a, b, c, d) = (a', b', c', d')"
    using at [of i] at [of j] at [of k] at [of l] assms by auto
  then have "(x ! i, x ! j, x ! k, x ! l) = (y ! i, y ! j, y ! k, y ! l)"
    using x y by (metis quarter_back)
  then show "x ! n = y ! n" for n
    using at [of n] by (cases "n = i \<or> n = j \<or> n = k \<or> n = l") auto
qed

lemma length_qr_at [simp]: "length (qr_at i j k l x) = length x"
  by (simp add: qr_at_def split: prod.splits)

lemma qr_at_eq:
  "length x = 16 \<Longrightarrow> length y = 16 \<Longrightarrow> distinct [i, j, k, l] \<Longrightarrow> list_all (\<lambda>n. n < 16) [i, j, k, l] \<Longrightarrow>
    qr_at i j k l x = qr_at i j k l y \<longleftrightarrow> x = y"
  using qr_at_inj [of x y i j k l] by auto

lemma double_round_inj:
  "length x = 16 \<Longrightarrow> length y = 16 \<Longrightarrow> double_round x = double_round y \<longleftrightarrow> x = y"
  by (simp add: double_round_def qr_at_eq)

section \<open>Properties\<close>

text \<open>
  C36. The keystream is addressed by position: byte \<open>j\<close> of the result is byte \<open>j\<close> of the input,
  exclusive-or byte \<open>j mod 64\<close> of the block for counter \<open>counter + j div 64\<close> (modulo $2^{32}$), and
  the length is kept.
\<close>

theorem keystream_by_position:
  assumes "j < length buffer"
  shows "apply_keystream key counter nonce buffer ! j =
      buffer ! j XOR
        chacha_block (chacha_state key (counter + word_of_nat (j div 64)) nonce) ! (j mod 64) \<and>
    length (apply_keystream key counter nonce buffer) = length buffer"
  using apply_keystream_nth [OF assms] by simp

theorem keystream_by_position_witness:
  "apply_keystream (replicate 32 1) 7 (replicate 12 2) (replicate 100 9) ! 70 =
     9 XOR chacha_block (chacha_state (replicate 32 1) 8 (replicate 12 2)) ! 6"
  using keystream_by_position [of 70 "replicate 100 9" "replicate 32 1" 7 "replicate 12 2"] by simp

text \<open>
  A double round of the block function loses no information: different 16-word states stay
  different, so the whole ten-round permutation is injective.
\<close>

theorem rounds_injective:
  assumes "length x = 16" and "length y = 16" and "(double_round ^^ n) x = (double_round ^^ n) y"
  shows "x = y"
  using assms
proof (induction n arbitrary: x y)
  case 0
  then show ?case by simp
next
  case (Suc n)
  have len: "length (double_round z) = length z" for z by (simp add: double_round_def Let_def)
  have "(double_round ^^ n) (double_round x) = (double_round ^^ n) (double_round y)"
    using Suc.prems(3) by (simp only: funpow_Suc_right comp_def)
  then have "double_round x = double_round y" using Suc.prems(1,2) by (metis Suc.IH len)
  then show ?case using Suc.prems double_round_inj by blast
qed

theorem rounds_injective_witness:
  "(double_round ^^ 10) (replicate 16 0) \<noteq> (double_round ^^ 10) (replicate 16 1)"
proof
  assume "(double_round ^^ 10) (replicate 16 0) = (double_round ^^ 10) (replicate 16 1)"
  from rounds_injective [OF _ _ this] show False by (simp add: numeral_eq_Suc)
qed

text \<open>\<open>quarter_round\<close> gives the result of the test vector of RFC 8439, section 2.1.1.\<close>

theorem quarter_round_rfc8439_vector:
  "quarter_round (0x11111111, 0x01020304, 0x9b8d6f43, 0x01234567) =
     (0xea2a92f4, 0xcb1cf8ce, 0x4581472e, 0x5881c4bb)"
  by code_simp

end
