(* ===== verification/Field_1305.thy ===== *)
theory Field_1305
  imports Limb_Bytes
begin

text \<open>
  The field of \<open>src/impl/crypto/util/math/field/field_1305.hpp\<close> and \<open>field_1305.cpp\<close>: numbers
  modulo $2^{130} - 5$ in five limbs of 26 bits, each in a \<open>uint64_t\<close>. The class has the single
  member \<open>limbs\<close>, so a field element is its list of five words. The lemmas describe every
  operation by the number it computes: \<open>reduce_inplace\<close> is canonical for every element with
  limbs below $2^{63}$, \<open>operator*\<close> multiplies modulo $p$ when the limbs are at most $2^{28}$,
  and loading and storing bytes agree with the little-endian number.
\<close>

type_synonym fe1305 = "u64 list"

definition p1305 :: nat where
  "p1305 = 2 ^ 130 - 5"

definition MASK26 :: u64 where
  "MASK26 = push_bit 26 1 - 1"

definition fe1305_zero :: fe1305 where
  "fe1305_zero = [0, 0, 0, 0, 0]"

text \<open>\<open>operator+\<close> adds limb by limb and does not carry.\<close>

definition fe1305_add :: "fe1305 \<Rightarrow> fe1305 \<Rightarrow> fe1305" where
  "fe1305_add a b = map2 (\<lambda>x y. y + x) a b"

text \<open>
  \<open>operator*\<close>. The loops that carry with \<open>MASK26\<close> are \<open>carry_pass 26\<close>; the statements are those
  of \<open>mul_reduce\<close> with \<open>c = 5\<close>, written out here as the source has them.
\<close>

definition fe1305_mul :: "fe1305 \<Rightarrow> fe1305 \<Rightarrow> fe1305" where
  "fe1305_mul a b =
     (let digits = carry_pass 26 8 (mul_digits a b);
          out = [digits ! 0 + digits ! 5 * 5, digits ! 1 + digits ! 6 * 5,
                 digits ! 2 + digits ! 7 * 5, digits ! 3 + digits ! 8 * 5, digits ! 4];
          out = carry_pass 26 4 out;
          out = out[0 := out ! 0 + drop_bit 26 (out ! 4) * 5];
          out = out[4 := out ! 4 AND MASK26]
      in carry_pass 26 4 out)"

text \<open>
  The tentative addition of 5: \<open>c[i] = limbs[i] + carry; carry = c[i] >> 26; c[i] &= MASK26\<close>,
  with the final carry.
\<close>

fun add_carry :: "u64 \<Rightarrow> u64 list \<Rightarrow> u64 list \<times> u64" where
  "add_carry carry [] = ([], carry)"
| "add_carry carry (x # xs) =
     (let s = x + carry; (cs, carry') = add_carry (drop_bit 26 s) xs
      in ((s AND MASK26) # cs, carry'))"

definition fe1305_reduce :: "fe1305 \<Rightarrow> fe1305" where
  "fe1305_reduce l =
     (let l = carry_pass 26 4 l;
          l = l[0 := l ! 0 + drop_bit 26 (l ! 4) * 5];
          l = l[4 := l ! 4 AND MASK26];
          l = carry_pass 26 4 l;
          (c, carry) = add_carry 5 l;
          sel = 0 - carry
      in map2 (\<lambda>ci li. (ci AND sel) OR (li AND NOT sel)) c l)"

text \<open>\<open>from_bytes\<close>; \<open>ld b i k s\<close> is the part \<open>b[i] << s | b[i+1] << (s + 8) | \<dots>\<close> of \<open>k\<close> bytes.\<close>

definition fe1305_load :: "bytes \<Rightarrow> fe1305" where
  "fe1305_load b =
     [ld b 0 4 0 AND MASK26,
      (drop_bit 2 (ucast (b ! 3)) OR ld b 4 3 6) AND MASK26,
      (drop_bit 4 (ucast (b ! 6)) OR ld b 7 3 4) AND MASK26,
      (drop_bit 6 (ucast (b ! 9)) OR ld b 10 3 2) AND MASK26,
      ld b 13 4 0 AND MASK26]"

definition fe1305_from_bytes :: "bytes \<Rightarrow> fe1305" where
  "fe1305_from_bytes b = fe1305_reduce (fe1305_load (b[16 := b ! 16 AND 0x03]))"

text \<open>\<open>to_bytes\<close>; \<open>byte_of x s m\<close> is \<open>uint8_t ((x >> s) & m)\<close>.\<close>

definition fe1305_store :: "fe1305 \<Rightarrow> bytes" where
  "fe1305_store l =
     [byte_of (l ! 0) 0 0xFF, byte_of (l ! 0) 8 0xFF, byte_of (l ! 0) 16 0xFF,
      byte_of (l ! 0) 24 0x03 OR byte_of (push_bit 2 (l ! 1)) 0 0xFF,
      byte_of (l ! 1) 6 0xFF, byte_of (l ! 1) 14 0xFF,
      byte_of (l ! 1) 22 0x0F OR byte_of (push_bit 4 (l ! 2)) 0 0xFF,
      byte_of (l ! 2) 4 0xFF, byte_of (l ! 2) 12 0xFF,
      byte_of (l ! 2) 20 0x3F OR byte_of (push_bit 6 (l ! 3)) 0 0xFF,
      byte_of (l ! 3) 2 0xFF, byte_of (l ! 3) 10 0xFF, byte_of (l ! 3) 18 0xFF,
      byte_of (l ! 4) 0 0xFF, byte_of (l ! 4) 8 0xFF, byte_of (l ! 4) 16 0xFF,
      byte_of (l ! 4) 24 0x03]"

definition fe1305_to_bytes :: "fe1305 \<Rightarrow> bytes" where
  "fe1305_to_bytes f = fe1305_store (fe1305_reduce f)"

section \<open>The number an element stands for\<close>

abbreviation fval :: "fe1305 \<Rightarrow> nat" where
  "fval \<equiv> lval 26"

text \<open>The canonical form: the 26-bit digits of a number below \<open>p\<close>.\<close>

definition canon1305 :: "fe1305 \<Rightarrow> bool" where
  "canon1305 l \<longleftrightarrow> (\<exists>v < p1305. map unat l = digs 26 4 v)"

lemma MASK26_mask [simp]: "MASK26 = mask 26"
  by (simp add: MASK26_def mask_eq_exp_minus_1)

lemma fe1305_mul_reduce: "length a = 5 \<Longrightarrow> length b = 5 \<Longrightarrow> fe1305_mul a b = mul_reduce 26 5 a b"
  by (simp add: fe1305_mul_def mul_reduce_def weak_reduce_def wrap_top_def fold_digits_def Let_def)

lemma divmod_step:
  fixes s F M :: nat
  shows "(s + 2 ^ w * F) mod (2 ^ w * M) = s mod 2 ^ w + 2 ^ w * ((F + s div 2 ^ w) mod M)"
    and "(s + 2 ^ w * F) div (2 ^ w * M) = (F + s div 2 ^ w) div M"
  by (simp_all add: mod_mult2_eq div_mult2_eq add.commute)

lemma add_carry_digits:
  assumes "list_all (\<lambda>x. unat x < 2 ^ 63) xs" and "unat k < 2 ^ 63"
  shows "fval (fst (add_carry k xs)) = (fval xs + unat k) mod 2 ^ (26 * length xs) \<and>
    unat (snd (add_carry k xs)) = (fval xs + unat k) div 2 ^ (26 * length xs) \<and>
    length (fst (add_carry k xs)) = length xs \<and>
    list_all (\<lambda>x. unat x < 2 ^ 26) (fst (add_carry k xs))"
  using assms
proof (induction xs arbitrary: k)
  case Nil
  then show ?case by simp
next
  case (Cons x xs)
  let ?s = "unat x + unat k" and ?M = "2 ^ (26 * length xs) :: nat" and ?k = "drop_bit 26 (x + k)"
  have s: "unat (x + k) = ?s"
    using Cons.prems by (simp add: unat_word_ariths)
  have k: "unat ?k = ?s div 2 ^ 26"
    by (simp only: unat_drop_bit s)
  have "?s < 2 ^ 63 * 2 ^ 26" using Cons.prems by simp
  then have "unat ?k < 2 ^ 63" unfolding k by (rule less_mult_imp_div_less)
  moreover have "list_all (\<lambda>x. unat x < 2 ^ 63) xs" using Cons.prems by simp
  ultimately have ih: "fval (fst (add_carry ?k xs)) = (fval xs + ?s div 2 ^ 26) mod ?M"
    "unat (snd (add_carry ?k xs)) = (fval xs + ?s div 2 ^ 26) div ?M"
    "length (fst (add_carry ?k xs)) = length xs"
    "list_all (\<lambda>x. unat x < 2 ^ 26) (fst (add_carry ?k xs))"
    using Cons.IH [of ?k] unfolding k by blast+
  have eq: "add_carry k (x # xs) =
      (((x + k) AND MASK26) # fst (add_carry ?k xs), snd (add_carry ?k xs))"
    by (simp add: Let_def split_beta)
  have head: "unat ((x + k) AND MASK26) = ?s mod 2 ^ 26"
    by (simp only: MASK26_mask unat_and_mask s)
  have tot: "fval (x # xs) + unat k = ?s + 2 ^ 26 * fval xs" by simp
  have M: "2 ^ (26 * length (x # xs)) = 2 ^ 26 * ?M"
    by (simp add: power_add)
  show ?case
    unfolding eq fst_conv snd_conv tot M divmod_step
    unfolding lval.simps list.pred_inject head ih
    using ih by simp
qed

section \<open>Reduction is canonical\<close>

lemma select_word:
  fixes a b :: "u64"
  shows "(a AND (0 - 1)) OR (b AND NOT (0 - 1)) = a" and "(a AND (0 - 0)) OR (b AND NOT (0 - 0)) = b"
  by simp_all

lemma fval_bound:
  assumes "length l = 5" and "list_all (\<lambda>x. unat x < 2 ^ 63) l"
  shows "fval l div 2 ^ 130 \<le> 2 ^ 38"
proof -
  obtain a b c d e where l: "l = [a, b, c, d, e]" using list5 assms(1) by blast
  have "fval l < (2 ^ 38 + 1) * 2 ^ 130"
    using assms(2) by (simp add: l lval5)
  then have "fval l div 2 ^ 130 < 2 ^ 38 + 1" by (rule less_mult_imp_div_less)
  then show ?thesis by simp
qed

lemma roomy_26: "unat x < 2 ^ 63 \<Longrightarrow> roomy 26 (x :: u64)"
  by (simp add: roomy_def)

text \<open>
  For limbs below $2^{63}$ the carries cannot overflow, the folded number is below $2p$, and one
  conditional subtraction of \<open>p\<close> makes the result canonical.
\<close>

lemma fe1305_reduce_digs:
  assumes "length l = 5" and "list_all (\<lambda>x. unat x < 2 ^ 63) l"
  shows "map unat (fe1305_reduce l) = digs 26 4 (fval l mod p1305)"
proof -
  let ?V = "fold_top 130 5 (fval l)"
  let ?l = "weak_reduce 26 5 l"
  let ?c = "fst (add_carry 5 ?l)" and ?k = "snd (add_carry 5 ?l)"
  note b = fval_bound [OF assms]
  have room: "2 ^ 26 + 5 * (fval l div 2 ^ 130) \<le> 2 ^ LENGTH(64)" using b by simp
  have rm: "list_all (roomy 26) (tl l)"
    using assms by (cases l) (auto simp: list_all_iff roomy_26)
  have wd: "map unat ?l = digs 26 4 ?V"
    using r26.weak_reduce_digits [OF assms(1) rm] room by simp
  have V: "?V < 2 ^ 130 + 5 * 2 ^ 38 + 1" using b by (rule fold_top_le)
  have len: "length ?l = 5" using arg_cong [OF wd, of length] by simp
  have val: "fval ?l = ?V" by (simp add: lval_nval wd)
  have small: "list_all (\<lambda>x. unat x < 2 ^ 63) ?l"
  proof -
    have top: "?V div 2 ^ 104 < 2 ^ 63" using V by (intro less_mult_imp_div_less) simp
    have "x mod 2 ^ 26 < 2 ^ 63" for x :: nat by (rule less_trans [of _ "2 ^ 26"]) simp_all
    then have "list_all (\<lambda>x. x < 2 ^ 63) (digs 26 4 ?V)"
      using top unfolding digs_4 by simp
    then show ?thesis by (simp add: wd [symmetric] list_all_iff)
  qed
  note ac = add_carry_digits [OF small, of 5]
  have cv: "fval ?c = (?V + 5) mod 2 ^ 130" and kv: "unat ?k = (?V + 5) div 2 ^ 130"
    and clen: "length ?c = 5" and clow: "list_all (\<lambda>x. unat x < 2 ^ 26) ?c"
    using ac len val by simp_all
  have mod: "?V mod p1305 = fval l mod p1305"
    using fold_top_mod [of 5 130 "fval l"] by (simp add: p1305_def)
  have red: "fe1305_reduce l =
      map2 (\<lambda>ci li. (ci AND (0 - ?k)) OR (li AND NOT (0 - ?k))) ?c ?l"
    by (simp add: fe1305_reduce_def weak_reduce_def wrap_top_def Let_def split_beta)
  show ?thesis
  proof (cases "p1305 \<le> ?V")
    case True
    then have one: "(?V + 5) div 2 ^ 130 = 1" and m: "(?V + 5) mod 2 ^ 130 = ?V - p1305"
      using V by (auto simp: p1305_def div_nat_eqI mod_if)
    have "?k = 1" using kv one by (metis unat_1 word_unat_eq_iff)
    then have "fe1305_reduce l = map2 (\<lambda>ci li. ci) ?c ?l" by (simp add: red)
    also have "\<dots> = ?c" using clen len by simp
    finally have r: "fe1305_reduce l = ?c" .
    have "?V - p1305 = ?V mod p1305" using True V by (simp add: p1305_def le_mod_geq)
    then have "fval ?c = fval l mod p1305" using cv m mod by simp
    moreover have "map unat ?c = digs 26 4 (nval 26 (map unat ?c))"
      using clen clow by (intro digs4_unique) (auto simp: list_all_iff)
    ultimately show ?thesis by (simp add: r lval_nval)
  next
    case False
    then have zero: "(?V + 5) div 2 ^ 130 = 0" by (simp add: p1305_def)
    have "?k = 0" using kv zero by (metis unat_0 word_unat_eq_iff)
    then have "fe1305_reduce l = map2 (\<lambda>ci li. li) ?c ?l" by (simp add: red)
    also have "\<dots> = ?l" using clen len by simp
    finally have r: "fe1305_reduce l = ?l" .
    then show ?thesis using wd mod False by simp
  qed
qed

text \<open>The limbs of a product stay small: the top limb is at most $2^{26}$.\<close>

definition small1305 :: "fe1305 \<Rightarrow> bool" where
  "small1305 l \<longleftrightarrow> length l = 5 \<and> list_all (\<lambda>x. unat x \<le> 2 ^ 26) l"

lemma digs_small:
  assumes "map unat l = digs 26 4 v" and "v div 2 ^ 104 \<le> 2 ^ 26"
  shows "small1305 l"
proof -
  have m: "x mod 2 ^ 26 \<le> 2 ^ 26" for x :: nat
    by (rule order_less_imp_le) simp
  have top: "v div 2 ^ (4 * 26) \<le> 2 ^ 26" using assms(2) by simp
  have "list_all (\<lambda>x. x \<le> 2 ^ 26) (map unat l)"
    unfolding assms(1) digs_4 list.pred_inject by (intro conjI m top) simp
  then show ?thesis
    using length_of_digs [OF assms(1)] by (simp add: small1305_def list_all_iff)
qed

lemma fold_top_small_1305:
  assumes "V \<le> 2 ^ 266"
  shows "fold_top 130 5 (fold_top 130 5 V) div 2 ^ 104 \<le> 2 ^ 26"
proof -
  let ?V1 = "fold_top 130 5 V"
  have "V div 2 ^ 130 \<le> 2 ^ 136" using div_le_mono [OF assms, of "2 ^ 130"] by simp
  then have "?V1 < 2 ^ 130 + 5 * 2 ^ 136 + 1" by (rule fold_top_le)
  then have "?V1 \<le> 2 ^ 139" by simp
  from div_le_mono [OF this, of "2 ^ 130"] have "?V1 div 2 ^ 130 \<le> 2 ^ 9" by simp
  then have "fold_top 130 5 ?V1 < 2 ^ 130 + 5 * 2 ^ 9 + 1" by (rule fold_top_le)
  then have "fold_top 130 5 ?V1 \<le> 2 ^ 130 + 5 * 2 ^ 9" by simp
  from div_le_mono [OF this, of "2 ^ 104"] show ?thesis by simp
qed

lemma fe1305_mul_val:
  assumes "length a = 5" and "length b = 5"
    and "list_all (\<lambda>x. unat x \<le> 2 ^ 28) a" and "list_all (\<lambda>x. unat x \<le> 2 ^ 28) b"
  shows "fval (fe1305_mul a b) mod p1305 = (fval a * fval b) mod p1305 \<and> small1305 (fe1305_mul a b)"
proof -
  let ?V = "fval a * fval b"
  have room: "2 ^ (LENGTH(64) - 26) + (5 + 1) * 2 ^ 26 + 5 * (1 + 4 * 5 * (2 ^ 28 * 2 ^ 28)) +
      5 * (2 ^ 28 * 2 ^ 28) \<le> (2 :: nat) ^ LENGTH(64)" by simp
  have m: "map unat (fe1305_mul a b) = digs 26 4 (fold_top 130 5 (fold_top 130 5 ?V))"
    using r26.mul_reduce_digits [OF assms room] assms(1,2) by (simp add: fe1305_mul_reduce)
  have "fval a \<le> 2 * 2 ^ 28 * 2 ^ 104" "fval b \<le> 2 * 2 ^ 28 * 2 ^ 104"
    using lval5_le [OF assms(1,3), of 26] lval5_le [OF assms(2,4), of 26] by simp_all
  then have "?V \<le> (2 * 2 ^ 28 * 2 ^ 104) * (2 * 2 ^ 28 * 2 ^ 104)" by (rule mult_le_mono)
  then have "?V \<le> 2 ^ 266" by simp
  then have "small1305 (fe1305_mul a b)" by (intro digs_small [OF m] fold_top_small_1305)
  moreover have "fval (fe1305_mul a b) mod p1305 = ?V mod p1305"
    using fold_top_mod [of 5 130] by (simp add: digs_eq_lval [OF m] p1305_def)
  ultimately show ?thesis by simp
qed

lemma fe1305_add_val:
  assumes "length a = 5" and "length b = 5"
    and "list_all (\<lambda>x. unat x \<le> 2 ^ 62) a" and "list_all (\<lambda>x. unat x \<le> 2 ^ 62) b"
  shows "fval (fe1305_add a b) = fval a + fval b"
proof -
  have "unat (y + x) = unat x + unat y" if "unat x \<le> 2 ^ 62" "unat y \<le> 2 ^ 62" for x y :: u64
    using that by (simp add: unat_word_ariths)
  then show ?thesis
    using list5 [OF assms(1)] list5 [OF assms(2)] assms(3,4)
    by (auto simp: fe1305_add_def lval5 algebra_simps)
qed

lemma fe1305_add_small:
  assumes "small1305 a" and "small1305 b"
  shows "fval (fe1305_add a b) = fval a + fval b \<and> length (fe1305_add a b) = 5 \<and>
    list_all (\<lambda>x. unat x \<le> 2 ^ 28) (fe1305_add a b)"
proof -
  have sum: "unat (y + x) \<le> 2 ^ 28" if "unat x \<le> 2 ^ 26" "unat y \<le> 2 ^ 26" for x y :: u64
    using that by (simp add: unat_word_ariths)
  obtain a0 a1 a2 a3 a4 where a: "a = [a0, a1, a2, a3, a4]"
    using assms(1) list5 unfolding small1305_def by blast
  obtain b0 b1 b2 b3 b4 where b: "b = [b0, b1, b2, b3, b4]"
    using assms(2) list5 unfolding small1305_def by blast
  have le: "unat x \<le> 2 ^ 62" if "unat x \<le> 2 ^ 26" for x :: u64 using that by simp
  have "list_all (\<lambda>x. unat x \<le> 2 ^ 62) a" "list_all (\<lambda>x. unat x \<le> 2 ^ 62) b"
    using assms le by (auto simp: small1305_def list_all_iff)
  then have "fval (fe1305_add a b) = fval a + fval b"
    using assms by (intro fe1305_add_val) (auto simp: small1305_def)
  then show ?thesis
    using assms sum by (simp add: a b small1305_def fe1305_add_def)
qed

section \<open>Bytes\<close>

lemma fe1305_load_digs:
  assumes "length b = 17"
  shows "map unat (fe1305_load b) = digs 26 4 (lval 8 b mod 2 ^ 130)"
proof -
  note al = unat_load_aligned [of _ 4 b 26] and st = unat_load_straddle [of _ 3 b _ 26]
  have l: "unat (ld b 0 4 0 AND mask 26) = lval 8 b mod 2 ^ 26"
    "unat (ld b 13 4 0 AND mask 26) = lval 8 b div 2 ^ (4 * 26) mod 2 ^ 26"
    using al [of 0] al [of 13] assms by simp_all
  have m: "unat ((drop_bit 2 (ucast (b ! 3)) OR ld b 4 3 6) AND mask 26) = lval 8 b div 2 ^ 26 mod 2 ^ 26"
    "unat ((drop_bit 4 (ucast (b ! 6)) OR ld b 7 3 4) AND mask 26) = lval 8 b div 2 ^ (2 * 26) mod 2 ^ 26"
    "unat ((drop_bit 6 (ucast (b ! 9)) OR ld b 10 3 2) AND mask 26) = lval 8 b div 2 ^ (3 * 26) mod 2 ^ 26"
    using st [of 3 2] st [of 6 4] st [of 9 6] assms by simp_all
  have "map unat (fe1305_load b) = digs 26 4 (lval 8 b mod 2 ^ (5 * 26))"
    unfolding fe1305_load_def MASK26_mask list.map l m digs_4_mod by (rule refl)
  then show ?thesis by simp
qed

text \<open>\<open>from_bytes\<close> is canonical and reads the low 130 bits.\<close>

lemma lval_mask_16:
  assumes "length b = 17"
  shows "lval 8 (b[16 := b ! 16 AND 0x03]) = lval 8 (b :: bytes) mod 2 ^ 130"
proof -
  have u: "b[16 := b ! 16 AND 0x03] = take 16 b @ [b ! 16 AND mask 2]"
    using assms by (simp add: upd_conv_take_nth_drop mask_eq_exp_minus_1)
  have b: "b = take 16 b @ [b ! 16]"
    using assms take_Suc_conv_app_nth [of 16 b] by simp
  have l: "length (take 16 b) = 16" using assms by simp
  have "lval 8 (take 16 b) < 2 ^ 128" using bytes_less [of "take 16 b"] l by simp
  moreover have "lval 8 b = lval 8 (take 16 b) + 2 ^ 128 * unat (b ! 16)"
    by (subst b) (simp add: lval_append l del: length_take)
  moreover have "lval 8 (b[16 := b ! 16 AND 0x03]) =
      lval 8 (take 16 b) + 2 ^ 128 * (unat (b ! 16) mod 2 ^ 2)"
    unfolding u by (simp add: lval_append l unat_and_mask del: length_take)
  moreover have "(2 :: nat) ^ 130 = 2 ^ 128 * 2 ^ 2" by simp
  ultimately show ?thesis by (simp only: mod_mult2_eq) simp
qed

lemma fe1305_from_bytes_digs:
  assumes "length b = 17"
  shows "map unat (fe1305_from_bytes b) = digs 26 4 (lval 8 b mod 2 ^ 130 mod p1305)"
proof -
  let ?b = "b[16 := b ! 16 AND 0x03]"
  have m: "map unat (fe1305_load ?b) = digs 26 4 (lval 8 b mod 2 ^ 130)"
    using fe1305_load_digs [of ?b] assms by (simp add: lval_mask_16)
  have "(lval 8 b mod 2 ^ 130) div 2 ^ 104 < 2 ^ 26"
    by (rule less_mult_imp_div_less) simp
  then have "small1305 (fe1305_load ?b)" by (intro digs_small [OF m]) simp
  then have "length (fe1305_load ?b) = 5" "list_all (\<lambda>x. unat x < 2 ^ 63) (fe1305_load ?b)"
    by (auto simp: small1305_def list_all_iff intro: order_le_less_trans [of _ "2 ^ 26"])
  from fe1305_reduce_digs [OF this] show ?thesis
    by (simp add: fe1305_from_bytes_def digs_eq_lval [OF m])
qed

lemma from_bytes_small: "length b = 17 \<Longrightarrow> small1305 (fe1305_from_bytes b)"
proof -
  assume b: "length b = 17"
  have "lval 8 b mod 2 ^ 130 mod p1305 < p1305" by (simp add: p1305_def)
  then have "(lval 8 b mod 2 ^ 130 mod p1305) div 2 ^ 104 < 2 ^ 26"
    by (intro less_mult_imp_div_less) (simp add: p1305_def)
  then show ?thesis by (intro digs_small [OF fe1305_from_bytes_digs [OF b]]) simp
qed

text \<open>\<open>to_bytes\<close> writes the canonical number.\<close>

lemma fe1305_store_bytes:
  assumes "map unat l = digs 26 4 (v mod 2 ^ 130)"
  shows "fe1305_store l = le_bytes 17 (v mod 2 ^ 130)"
proof -
  have "length l = 5" using length_of_digs [OF assms] by simp
  then obtain l0 l1 l2 l3 l4 where l: "l = [l0, l1, l2, l3, l4]" using list5 by blast
  have five: "(130 :: nat) = 5 * 26" by simp
  have "map unat l = [v mod 2 ^ 26, v div 2 ^ 26 mod 2 ^ 26, v div 2 ^ (2 * 26) mod 2 ^ 26,
     v div 2 ^ (3 * 26) mod 2 ^ 26, v div 2 ^ (4 * 26) mod 2 ^ 26]"
    using assms unfolding five digs_4_mod .
  then have d: "unat l0 = v div 2 ^ 0 mod 2 ^ 26" "unat l1 = v div 2 ^ 26 mod 2 ^ 26"
    "unat l2 = v div 2 ^ 52 mod 2 ^ 26" "unat l3 = v div 2 ^ 78 mod 2 ^ 26"
    "unat l4 = v div 2 ^ 104 mod 2 ^ 26"
    unfolding l by simp_all
  have d1: "unat l1 = v div 2 ^ (0 + 26) mod 2 ^ 26" "unat l2 = v div 2 ^ (26 + 26) mod 2 ^ 26"
    "unat l3 = v div 2 ^ (52 + 26) mod 2 ^ 26" using d(2-4) by simp_all
  let ?w = "\<lambda>i. word_of_nat (v div 2 ^ (8 * i)) :: byte"
  note bi = byte_inside and bs = byte_straddle
  have b0: "byte_of l0 0 (mask 8) = ?w 0" "byte_of l0 8 (mask 8) = ?w 1"
    "byte_of l0 16 (mask 8) = ?w 2"
    using bi [OF d(1), of 0] bi [OF d(1), of 8] bi [OF d(1), of 16] by simp_all
  have b3: "byte_of l0 24 (mask 2) OR byte_of (push_bit 2 l1) 0 (mask 8) = ?w 3"
    using bs [OF d(1) d1(1), of 2] by simp
  have b1: "byte_of l1 6 (mask 8) = ?w 4" "byte_of l1 14 (mask 8) = ?w 5"
    using bi [OF d(2), of 6] bi [OF d(2), of 14] by simp_all
  have b6: "byte_of l1 22 (mask 4) OR byte_of (push_bit 4 l2) 0 (mask 8) = ?w 6"
    using bs [OF d(2) d1(2), of 4] by simp
  have b2: "byte_of l2 4 (mask 8) = ?w 7" "byte_of l2 12 (mask 8) = ?w 8"
    using bi [OF d(3), of 4] bi [OF d(3), of 12] by simp_all
  have b9: "byte_of l2 20 (mask 6) OR byte_of (push_bit 6 l3) 0 (mask 8) = ?w 9"
    using bs [OF d(3) d1(3), of 6] by simp
  have b10: "byte_of l3 2 (mask 8) = ?w 10" "byte_of l3 10 (mask 8) = ?w 11"
    "byte_of l3 18 (mask 8) = ?w 12"
    using bi [OF d(4), of 2] bi [OF d(4), of 10] bi [OF d(4), of 18] by simp_all
  have b13: "byte_of l4 0 (mask 8) = ?w 13" "byte_of l4 8 (mask 8) = ?w 14"
    "byte_of l4 16 (mask 8) = ?w 15"
    using bi [OF d(5), of 0] bi [OF d(5), of 8] bi [OF d(5), of 16] by simp_all
  have "unat (byte_of l4 24 (mask 2)) = unat (word_of_nat (v mod 2 ^ 130 div 2 ^ 128) :: byte)"
  proof -
    have "unat (byte_of l4 24 (mask 2)) = v div 2 ^ 128 mod 2 ^ 2"
      using div_mod_digit [of 24 2 26 v 104] by (simp add: unat_byte_of d)
    also have "\<dots> = v mod 2 ^ 130 div 2 ^ 128"
      using mod_mult2_eq [of v "2 ^ 128" "2 ^ 2"] by simp
    finally show ?thesis by (simp add: unat_of_nat)
  qed
  then have b16: "byte_of l4 24 (mask 2) = word_of_nat (v mod 2 ^ 130 div 2 ^ (8 * 16))"
    by (simp add: word_unat_eq_iff)
  have low: "word_of_nat (v mod 2 ^ 130 div 2 ^ (8 * i)) = ?w i" if "i < 16" for i
  proof -
    have "(v mod 2 ^ 130) div 2 ^ (8 * i) mod 2 ^ 8 = v div 2 ^ (8 * i) mod 2 ^ 8"
      using div_mod_digit [of "8 * i" 8 130 v 0] that by simp
    then show ?thesis by (simp add: word_unat_eq_iff unat_of_nat)
  qed
  have "[0..<17] = [0,1,2,3,4,5,6,7,8,9,10,11,12,13,14,15,16 :: nat]" by (simp add: upt_rec)
  then have "le_bytes 17 (v mod 2 ^ 130) = [?w 0, ?w 1, ?w 2, ?w 3, ?w 4, ?w 5, ?w 6, ?w 7, ?w 8,
      ?w 9, ?w 10, ?w 11, ?w 12, ?w 13, ?w 14, ?w 15, word_of_nat (v mod 2 ^ 130 div 2 ^ (8 * 16))]"
    unfolding le_bytes_map by (simp only: list.map low)
  moreover have "fe1305_store l = [?w 0, ?w 1, ?w 2, ?w 3, ?w 4, ?w 5, ?w 6, ?w 7, ?w 8,
      ?w 9, ?w 10, ?w 11, ?w 12, ?w 13, ?w 14, ?w 15, word_of_nat (v mod 2 ^ 130 div 2 ^ (8 * 16))]"
    unfolding fe1305_store_def l masks
    by (simp add: b0 b3 b1 b6 b2 b9 b10 b13 b16)
  ultimately show ?thesis by simp
qed

lemma fe1305_to_bytes_eq:
  assumes "length f = 5" and "list_all (\<lambda>x. unat x < 2 ^ 63) f"
  shows "fe1305_to_bytes f = le_bytes 17 (fval f mod p1305)"
proof -
  have "fval f mod p1305 < p1305" by (simp add: p1305_def)
  then have "fval f mod p1305 mod 2 ^ 130 = fval f mod p1305" by (simp add: p1305_def)
  then show ?thesis
    using fe1305_store_bytes [of "fe1305_reduce f" "fval f mod p1305"] fe1305_reduce_digs [OF assms]
    by (simp add: fe1305_to_bytes_def)
qed

section \<open>Properties\<close>

text \<open>
  \<open>reduce_inplace\<close> is a full reduction: for every element whose limbs are below $2^{63}$, carried
  or not, it leaves the 26-bit digits of the value modulo $2^{130} - 5$, so equal numbers have
  equal limbs afterwards.
\<close>

theorem reduce_inplace_canonical:
  assumes "length l = 5" and "list_all (\<lambda>x. unat x < 2 ^ 63) l"
  shows "map unat (fe1305_reduce l) = digs 26 4 (fval l mod p1305)"
  using assms by (rule fe1305_reduce_digs)

theorem reduce_inplace_canonical_witness:
  "map unat (fe1305_reduce [0x3FFFFFB, 0x3FFFFFF, 0x3FFFFFF, 0x3FFFFFF, 0x7FFFFFF]) =
     digs 26 4 ((p1305 + 2 ^ 130) mod p1305)"
  using reduce_inplace_canonical [of "[0x3FFFFFB, 0x3FFFFFF, 0x3FFFFFF, 0x3FFFFFF, 0x7FFFFFF]"]
  by (simp add: p1305_def)

text \<open>
  C30. \<open>operator*\<close> multiplies modulo $2^{130} - 5$ without overflow whenever the limbs are at most
  $2^{28}$, and its result has limbs at most $2^{26}$, so sums of two results can be multiplied
  again; the comment in the source assumes limbs below $2^{26}$, which the sum \<open>acc + n\<close> is not.
\<close>

theorem operator_times_correct:
  assumes "length a = 5" and "length b = 5"
    and "list_all (\<lambda>x. unat x \<le> 2 ^ 28) a" and "list_all (\<lambda>x. unat x \<le> 2 ^ 28) b"
  shows "fval (fe1305_mul a b) mod p1305 = (fval a * fval b) mod p1305 \<and>
    length (fe1305_mul a b) = 5 \<and> list_all (\<lambda>x. unat x \<le> 2 ^ 26) (fe1305_mul a b)"
  using fe1305_mul_val [OF assms] by (auto simp: small1305_def)

theorem operator_times_correct_witness:
  "fval (fe1305_mul (replicate 5 (2 ^ 28)) (replicate 5 3)) mod p1305 =
     (fval (replicate 5 (2 ^ 28)) * fval (replicate 5 3)) mod p1305"
proof -
  have "list_all (\<lambda>x. unat x \<le> 2 ^ 28) (replicate 5 (2 ^ 28 :: u64))"
    "list_all (\<lambda>x. unat x \<le> 2 ^ 28) (replicate 5 (3 :: u64))"
    by (simp_all add: list_all_iff)
  from operator_times_correct [OF _ _ this] show ?thesis by simp
qed

text \<open>
  \<open>to_bytes\<close> and \<open>from_bytes\<close> agree with the little-endian number: storing writes the 17 bytes
  of the reduced value, and loading what was stored gives the canonical limbs back.
\<close>

theorem bytes_round_trip:
  assumes "length f = 5" and "list_all (\<lambda>x. unat x < 2 ^ 63) f"
  shows "fe1305_to_bytes f = le_bytes 17 (fval f mod p1305) \<and>
    fe1305_from_bytes (fe1305_to_bytes f) = fe1305_reduce f"
proof -
  let ?v = "fval f mod p1305"
  have v: "?v < p1305" by (simp add: p1305_def)
  then have "?v mod 2 ^ 136 mod 2 ^ 130 mod p1305 = ?v" by (simp add: p1305_def)
  then have "map unat (fe1305_from_bytes (le_bytes 17 ?v)) = digs 26 4 ?v"
    using fe1305_from_bytes_digs [of "le_bytes 17 ?v"] by simp
  then have "map unat (fe1305_from_bytes (le_bytes 17 ?v)) = map unat (fe1305_reduce f)"
    using fe1305_reduce_digs [OF assms] by simp
  then have "fe1305_from_bytes (le_bytes 17 ?v) = fe1305_reduce f"
    by (rule map_injective) (simp add: inj_def word_unat_eq_iff)
  then show ?thesis by (simp add: fe1305_to_bytes_eq [OF assms])
qed

theorem bytes_round_trip_witness:
  "fe1305_to_bytes [7, 0, 0, 0, 0] = le_bytes 17 (7 mod p1305)"
  using bytes_round_trip [of "[7, 0, 0, 0, 0]"] by simp

end
