(* ===== verification/Poly_1305.thy ===== *)
theory Poly_1305
  imports Field_1305
begin

text \<open>
  The one-time authenticator of \<open>src/impl/crypto/mac/poly_1305.cpp\<close>: \<open>generate\<close> clamps the first
  half of the key, runs the block loop over the message in limb arithmetic, and adds the second
  half of the key with a byte-wise carry; \<open>verify\<close> recomputes the tag and compares it by
  accumulating differences. The number-level reference below is the definition of RFC 8439,
  and the lemmas show that the limb code computes exactly that.
\<close>

section \<open>The code\<close>

text \<open>The clamping statements on \<open>r_bytes\<close>, which is the first 16 key bytes and a zero byte.\<close>

definition clamp :: "bytes \<Rightarrow> bytes" where
  "clamp r =
     (let r = r[3 := r ! 3 AND 0x0F]; r = r[7 := r ! 7 AND 0x0F];
          r = r[11 := r ! 11 AND 0x0F]; r = r[15 := r ! 15 AND 0x0F];
          r = r[4 := r ! 4 AND 0xFC]; r = r[8 := r ! 8 AND 0xFC]
      in r[12 := r ! 12 AND 0xFC])"

definition r_bytes :: "bytes \<Rightarrow> bytes" where
  "r_bytes key = clamp (take 16 key @ [0])"

text \<open>The 17-byte block: the message bytes, \<open>0x01\<close> after them, zeros after that.\<close>

definition pad_block :: "bytes \<Rightarrow> bytes" where
  "pad_block chunk = (chunk @ replicate (17 - length chunk) 0)[length chunk := 0x01]"

text \<open>The \<open>while (offset < msg.size ())\<close> loop; the argument is what is left of \<open>msg\<close>.\<close>

function absorb :: "fe1305 \<Rightarrow> fe1305 \<Rightarrow> bytes \<Rightarrow> fe1305" where
  "absorb r acc msg =
     (if msg = [] then acc
      else let block_len = min (length msg) 16;
               n = fe1305_from_bytes (pad_block (take block_len msg))
           in absorb r (fe1305_mul (fe1305_add acc n) r) (drop block_len msg))"
  by pat_completeness auto
termination by (relation "measure (\<lambda>(r, acc, msg). length msg)") auto

declare absorb.simps [simp del]

text \<open>The final addition, byte by byte in \<open>uint32_t\<close>.\<close>

fun add_bytes :: "u32 \<Rightarrow> bytes \<Rightarrow> bytes \<Rightarrow> bytes" where
  "add_bytes carry (x # xs) (y # ys) =
     (let sum = ucast x + ucast y + carry in ucast sum # add_bytes (drop_bit 8 sum) xs ys)"
| "add_bytes carry _ _ = []"

definition poly_generate :: "bytes \<Rightarrow> bytes \<Rightarrow> bytes" where
  "poly_generate key msg =
     (let r = fe1305_from_bytes (r_bytes key);
          acc = fe1305_reduce (absorb r fe1305_zero msg);
          acc_bytes = fe1305_to_bytes acc
      in add_bytes 0 (take 16 acc_bytes) (span_at 16 16 key))"

definition poly_verify :: "bytes \<Rightarrow> bytes \<Rightarrow> bytes \<Rightarrow> bool" where
  "poly_verify key msg provided_tag =
     (fold (\<lambda>i diff. diff OR (poly_generate key msg ! i XOR provided_tag ! i)) [0..<16] 0 = 0)"

section \<open>The reference: RFC 8439\<close>

text \<open>The clamp as one mask of the 128-bit number.\<close>

definition rfc_r :: "bytes \<Rightarrow> nat" where
  "rfc_r key = lval 8 (take 16 key) AND 0x0ffffffc0ffffffc0ffffffc0fffffff"

function rfc_poly :: "nat \<Rightarrow> nat \<Rightarrow> bytes \<Rightarrow> nat" where
  "rfc_poly r a msg =
     (if msg = [] then a
      else rfc_poly r ((a + lval 8 (take 16 msg @ [1])) * r mod p1305) (drop 16 msg))"
  by pat_completeness auto
termination by (relation "measure (\<lambda>(r, a, msg). length msg)") auto

declare rfc_poly.simps [simp del]

definition rfc_tag :: "bytes \<Rightarrow> bytes \<Rightarrow> bytes" where
  "rfc_tag key msg =
     le_bytes 16 (rfc_poly (rfc_r key) 0 msg mod p1305 + lval 8 (span_at 16 16 key))"

section \<open>The limb code computes the reference\<close>

lemma length_clamp [simp]: "length (clamp r) = length r"
  by (simp add: clamp_def Let_def)

lemma length_r_bytes [simp]: "16 \<le> length key \<Longrightarrow> length (r_bytes key) = 17"
  by (simp add: r_bytes_def)

lemma list16: "length l = 16 \<Longrightarrow>
    \<exists>a0 a1 a2 a3 a4 a5 a6 a7 a8 a9 a10 a11 a12 a13 a14 a15.
      l = [a0, a1, a2, a3, a4, a5, a6, a7, a8, a9, a10, a11, a12, a13, a14, a15]"
  by (auto simp: numeral_eq_Suc length_Suc_conv)

text \<open>A bitwise conjunction of little-endian numbers is the byte-wise one.\<close>

lemma and_low_high:
  fixes x y a b :: nat
  assumes "x < 2 ^ n" and "y < 2 ^ n"
  shows "(x + 2 ^ n * a) AND (y + 2 ^ n * b) = (x AND y) + 2 ^ n * (a AND b)"
proof -
  have s: "u + 2 ^ n * c = u OR push_bit n c" if "u < 2 ^ n" for u c :: nat
  proof -
    have "\<not> bit u k" if "n \<le> k" for k
      using \<open>u < 2 ^ n\<close> that by (metis bit_take_bit_iff not_less take_bit_nat_eq_self)
    then have "u AND push_bit n c = 0" by (auto simp: bit_eq_iff bit_simps)
    then show ?thesis by (simp add: disjunctive_add_eq_or push_bit_eq_mult mult.commute)
  qed
  have xy: "x AND y < 2 ^ n"
    using assms by (metis take_bit_and take_bit_nat_eq_self take_bit_nat_eq_self_iff)
  show ?thesis
    unfolding s [OF assms(1)] s [OF assms(2)] s [OF xy]
  proof (rule bit_eqI)
    fix k
    have "\<not> bit x k" "\<not> bit y k" if "n \<le> k"
      using assms that by (metis bit_take_bit_iff not_less take_bit_nat_eq_self)+
    then show "bit ((x OR push_bit n a) AND (y OR push_bit n b)) k =
        bit ((x AND y) OR push_bit n (a AND b)) k"
      by (cases "n \<le> k") (auto simp: bit_simps)
  qed
qed

lemma lval_and:
  "length xs = length ys \<Longrightarrow> lval 8 (map2 (AND) xs ys) = lval 8 (xs :: bytes) AND lval 8 ys"
proof (induction xs ys rule: list_induct2)
  case Nil
  then show ?case by simp
next
  case (Cons x xs y ys)
  have "unat x < 2 ^ 8" "unat y < 2 ^ 8" using unsigned_less [of x] unsigned_less [of y] by simp_all
  from and_low_high [OF this, of "lval 8 xs" "lval 8 ys"] show ?case
    using Cons.IH by (simp add: unsigned_and_eq)
qed

definition clamp_mask :: bytes where
  "clamp_mask = [0xFF, 0xFF, 0xFF, 0x0F, 0xFC, 0xFF, 0xFF, 0x0F,
     0xFC, 0xFF, 0xFF, 0x0F, 0xFC, 0xFF, 0xFF, 0x0F]"

lemma lval_clamp_mask: "lval 8 clamp_mask = 0x0ffffffc0ffffffc0ffffffc0fffffff"
  by (simp add: clamp_mask_def)

lemma byte_and_full: "(x :: byte) AND 0xFF = x"
proof -
  have "(0xFF :: byte) = - 1" by simp
  then show ?thesis by (simp only: and.right_neutral)
qed

lemma r_bytes_mask:
  assumes "16 \<le> length key"
  shows "r_bytes key = map2 (AND) (take 16 key) clamp_mask @ [0]"
proof -
  have "length (take 16 key) = 16" using assms by simp
  from list16 [OF this] show ?thesis
    by (elim exE) (simp add: r_bytes_def clamp_def clamp_mask_def byte_and_full del: take_bit_eq_mask)
qed

lemma lval_r_bytes: "16 \<le> length key \<Longrightarrow> lval 8 (r_bytes key) = rfc_r key"
proof -
  assume k: "16 \<le> length key"
  then have "length (take 16 key) = length clamp_mask" by (simp add: clamp_mask_def)
  from lval_and [OF this] show ?thesis
    by (simp add: r_bytes_mask [OF k] lval_append rfc_r_def lval_clamp_mask)
qed

lemma and_nat_less:
  assumes "y < 2 ^ n"
  shows "x AND y < (2 :: nat) ^ n"
proof -
  have "\<not> bit y k" if "n \<le> k" for k
    using assms that by (metis bit_take_bit_iff not_less take_bit_nat_eq_self)
  then have "x AND y = take_bit n (x AND y)" by (auto simp: bit_eq_iff bit_simps not_le [symmetric])
  then show ?thesis by (metis take_bit_nat_less_exp)
qed

lemma rfc_r_less: "rfc_r key < 2 ^ 124"
  unfolding rfc_r_def by (rule and_nat_less) simp

lemma r_val:
  assumes "16 \<le> length key"
  shows "fval (fe1305_from_bytes (r_bytes key)) = rfc_r key"
proof -
  have "rfc_r key mod 2 ^ 130 mod p1305 = rfc_r key"
    using rfc_r_less [of key] by (simp add: p1305_def)
  then show ?thesis
    using digs_eq_lval [OF fe1305_from_bytes_digs [of "r_bytes key"]] assms
    by (simp add: lval_r_bytes)
qed

lemma lval_zeros [simp]: "lval w (replicate n 0) = 0"
  by (induction n) auto

lemma pad_block_val:
  assumes "length chunk \<le> 16"
  shows "length (pad_block chunk) = 17 \<and> lval 8 (pad_block chunk) = lval 8 (chunk @ [1]) \<and>
    lval 8 (chunk @ [1]) < 2 ^ 130"
proof -
  have "17 - length chunk = Suc (16 - length chunk)" using assms by simp
  then have p: "pad_block chunk = (chunk @ [1]) @ replicate (16 - length chunk) 0"
    by (simp add: pad_block_def)
  have "(2 :: nat) ^ (8 * length chunk) \<le> 2 ^ 128" using assms by (intro power_increasing) auto
  moreover have "lval 8 chunk < 2 ^ (8 * length chunk)" by (rule bytes_less)
  ultimately have "lval 8 (chunk @ [1]) < 2 ^ 130" by (simp add: lval_append)
  then show ?thesis
    using assms unfolding p lval_append [of 8 "chunk @ [1]"] by simp
qed

lemma block_val:
  assumes "length chunk \<le> 16"
  shows "fval (fe1305_from_bytes (pad_block chunk)) mod p1305 = lval 8 (chunk @ [1]) mod p1305"
proof -
  note p = pad_block_val [OF assms]
  from p have "map unat (fe1305_from_bytes (pad_block chunk)) =
      digs 26 4 (lval 8 (chunk @ [1]) mod p1305)"
    using fe1305_from_bytes_digs [of "pad_block chunk"] by simp
  from digs_eq_lval [OF this] show ?thesis by simp
qed

lemma small_28: "small1305 l \<Longrightarrow> length l = 5 \<and> list_all (\<lambda>x. unat x \<le> 2 ^ 28) l"
  by (auto simp: small1305_def list_all_iff intro: order_trans [of _ "2 ^ 26"])

lemma small_63:
  assumes "small1305 l"
  shows "length l = 5" and "list_all (\<lambda>x. unat x < 2 ^ 63) l"
  using assms
  by (auto simp: small1305_def list_all_iff intro: order_le_less_trans [of _ "2 ^ 26"])

lemma absorb_step:
  assumes "small1305 r" and "small1305 acc" and "length chunk \<le> 16"
    and "fval acc mod p1305 = a mod p1305" and "fval r mod p1305 = R mod p1305"
  shows "fval (fe1305_mul (fe1305_add acc (fe1305_from_bytes (pad_block chunk))) r) mod p1305 =
      ((a + lval 8 (chunk @ [1])) * R) mod p1305 \<and>
    small1305 (fe1305_mul (fe1305_add acc (fe1305_from_bytes (pad_block chunk))) r)"
proof -
  let ?n = "fe1305_from_bytes (pad_block chunk)"
  have "small1305 ?n" using pad_block_val [OF assms(3)] by (intro from_bytes_small) simp
  note add = fe1305_add_small [OF assms(2) this]
  note mul = fe1305_mul_val [of "fe1305_add acc ?n" r]
  have m: "fval (fe1305_mul (fe1305_add acc ?n) r) mod p1305 =
      ((fval acc + fval ?n) * fval r) mod p1305"
    and s: "small1305 (fe1305_mul (fe1305_add acc ?n) r)"
    using mul add small_28 [OF assms(1)] by auto
  have "(fval acc + fval ?n) mod p1305 = (a + lval 8 (chunk @ [1])) mod p1305"
    using assms(4) block_val [OF assms(3)] by (metis mod_add_eq)
  then show ?thesis using m s assms(5) by (metis mod_mult_eq)
qed

lemma absorb_val:
  assumes "small1305 r" and "small1305 acc" and "fval acc mod p1305 = a mod p1305"
    and "fval r mod p1305 = R mod p1305"
  shows "fval (absorb r acc msg) mod p1305 = rfc_poly R a msg mod p1305 \<and>
    small1305 (absorb r acc msg)"
  using assms
proof (induction R a msg arbitrary: acc rule: rfc_poly.induct)
  case (1 R a msg)
  show ?case
  proof (cases "msg = []")
    case True
    then show ?thesis using "1.prems" by (simp add: absorb.simps rfc_poly.simps)
  next
    case False
    let ?c = "take 16 msg"
    have t: "take (min (length msg) 16) msg = ?c" "drop (min (length msg) 16) msg = drop 16 msg"
      by (auto simp: min_def)
    note st = absorb_step [OF "1.prems"(1,2) _ "1.prems"(3,4), of ?c]
    let ?acc = "fe1305_mul (fe1305_add acc (fe1305_from_bytes (pad_block ?c))) r"
    have "fval ?acc mod p1305 = ((a + lval 8 (?c @ [1])) * R mod p1305) mod p1305" "small1305 ?acc"
      using st by simp_all
    then have "fval (absorb r ?acc (drop 16 msg)) mod p1305 =
        rfc_poly R ((a + lval 8 (?c @ [1])) * R mod p1305) (drop 16 msg) mod p1305 \<and>
        small1305 (absorb r ?acc (drop 16 msg))"
      using "1.prems" by (intro "1.IH" [OF False]) auto
    then show ?thesis
      using False by (subst (1 2) absorb.simps, subst rfc_poly.simps) (simp add: t Let_def)
  qed
qed

section \<open>The final addition and the comparison\<close>

lemma add_bytes_le:
  assumes "length xs = length ys" and "unat carry < 2 ^ 16"
  shows "add_bytes carry xs ys = le_bytes (length xs) (lval 8 xs + lval 8 ys + unat carry)"
  using assms
proof (induction xs ys arbitrary: carry rule: list_induct2)
  case Nil
  then show ?case by simp
next
  case (Cons x xs y ys)
  let ?s = "unat x + unat y + unat carry" and ?sum = "ucast x + ucast y + carry :: u32"
  have b: "unat x < 256" "unat y < 256" using unsigned_less [of x] unsigned_less [of y] by simp_all
  have s: "unat ?sum = ?s"
    using b Cons.prems by (simp add: unat_word_ariths unat_ucast_byte)
  have d: "unat (drop_bit 8 ?sum) = ?s div 256" by (simp add: unat_drop_bit s)
  have "?s div 256 < 2 ^ 16" using b Cons.prems by (intro less_mult_imp_div_less) simp
  then have ih: "add_bytes (drop_bit 8 ?sum) xs ys =
      le_bytes (length xs) (lval 8 xs + lval 8 ys + ?s div 256)"
    using Cons.IH [of "drop_bit 8 ?sum"] by (simp add: d)
  have tot: "lval 8 (x # xs) + lval 8 (y # ys) + unat carry =
      ?s + 256 * (lval 8 xs + lval 8 ys)" by simp
  have h: "(ucast ?sum :: byte) = word_of_nat (?s + 256 * (lval 8 xs + lval 8 ys))"
  proof -
    have "unat (ucast ?sum :: byte) = ?s mod 256"
      by (simp add: unsigned_ucast_eq s take_bit_eq_mod)
    also have "\<dots> = (?s + 256 * (lval 8 xs + lval 8 ys)) mod 2 ^ LENGTH(8)"
      using mod_mult_self2 [of ?s 256 "lval 8 xs + lval 8 ys"] by (simp del: mod_mult_self2 distrib_left_numeral)
    finally show ?thesis by (simp only: word_unat_eq_iff unat_of_nat)
  qed
  have dv: "(?s + 256 * k) div 256 = k + ?s div 256" for k by simp
  show ?case
    unfolding tot add_bytes.simps Let_def ih h length_Cons le_bytes.simps dv by (rule refl)
qed

lemma take_le_bytes: "k \<le> n \<Longrightarrow> take k (le_bytes n v) = le_bytes k v"
proof (induction n arbitrary: k v)
  case 0
  then show ?case by simp
next
  case (Suc n)
  then show ?case by (cases k) auto
qed

lemma poly_generate_rfc:
  assumes "32 \<le> length key"
  shows "poly_generate key msg = rfc_tag key msg"
proof -
  let ?r = "fe1305_from_bytes (r_bytes key)"
  let ?acc = "absorb ?r fe1305_zero msg"
  let ?v = "rfc_poly (rfc_r key) 0 msg mod p1305"
  have "small1305 ?r" using assms by (intro from_bytes_small) simp
  moreover have "small1305 fe1305_zero" "fval fe1305_zero = 0"
    by (simp_all add: small1305_def fe1305_zero_def)
  moreover have "fval ?r = rfc_r key" using assms by (intro r_val) simp
  ultimately have a: "fval ?acc mod p1305 = ?v" and s: "small1305 ?acc"
    using absorb_val [of ?r fe1305_zero 0 "rfc_r key" msg] by auto
  note rd = fe1305_reduce_digs [OF small_63 [OF s], unfolded a]
  have vp: "?v < p1305" by (simp add: p1305_def)
  then have "?v div 2 ^ 104 < 2 ^ 26" by (intro less_mult_imp_div_less) (simp add: p1305_def)
  then have rs: "small1305 (fe1305_reduce ?acc)" by (intro digs_small [OF rd]) simp
  then have "fe1305_to_bytes (fe1305_reduce ?acc) = le_bytes 17 ?v"
    using digs_eq_lval [OF rd] fe1305_to_bytes_eq [OF small_63 [OF rs]] by simp
  moreover have "add_bytes 0 (le_bytes 16 ?v) (span_at 16 16 key) =
      le_bytes 16 (?v mod 2 ^ 128 + lval 8 (span_at 16 16 key))"
    using assms by (subst add_bytes_le) auto
  moreover have "\<dots> = le_bytes 16 (?v + lval 8 (span_at 16 16 key))"
    unfolding le_bytes_eq_iff by (simp add: mod_add_left_eq)
  ultimately show ?thesis
    by (simp add: poly_generate_def rfc_tag_def take_le_bytes)
qed

lemma length_add_bytes [simp]: "length (add_bytes k xs ys) = min (length xs) (length ys)"
  by (induction k xs ys rule: add_bytes.induct) (simp_all add: Let_def)

lemma length_poly_generate:
  "32 \<le> length key \<Longrightarrow> length (poly_generate key msg) = 16"
  by (simp add: poly_generate_rfc rfc_tag_def)

lemma fold_or_zero:
  "fold (\<lambda>i d. d OR f i) is d = (0 :: byte) \<longleftrightarrow> d = 0 \<and> (\<forall>i\<in>set is. f i = 0)"
  by (induction "is" arbitrary: d) (auto simp: or_eq_0_iff)

lemma xor_eq_zero: "(a :: byte) XOR b = 0 \<longleftrightarrow> a = b"
  by (auto simp: bit_eq_iff bit_simps)

lemma poly_verify_iff:
  assumes "32 \<le> length key" and "length tag = 16"
  shows "poly_verify key msg tag \<longleftrightarrow> tag = poly_generate key msg"
proof -
  have "poly_verify key msg tag \<longleftrightarrow> (\<forall>i < 16. poly_generate key msg ! i = tag ! i)"
    unfolding poly_verify_def fold_or_zero by (auto simp: atLeast0LessThan xor_eq_zero)
  then show ?thesis
    using assms length_poly_generate [OF assms(1), of msg] by (auto simp: list_eq_iff_nth_eq)
qed

section \<open>Properties\<close>

text \<open>
  C14. \<open>generate\<close> computes the Poly1305 tag of RFC 8439 for every 32-byte key and every message: the
  limb arithmetic, the block loop and the byte-wise final addition give the low 128 bits of the
  polynomial evaluated modulo $2^{130} - 5$ at the clamped \<open>r\<close>, plus \<open>s\<close>.
\<close>

theorem generate_is_rfc8439:
  assumes "length key = 32"
  shows "poly_generate key msg = rfc_tag key msg \<and> length (poly_generate key msg) = 16"
  using assms poly_generate_rfc [of key msg] length_poly_generate [of key msg] by simp

theorem generate_is_rfc8439_witness:
  "poly_generate (replicate 32 0x11) [1, 2, 3] = rfc_tag (replicate 32 0x11) [1, 2, 3]"
  using generate_is_rfc8439 [of "replicate 32 0x11" "[1, 2, 3]"] by simp

text \<open>
  \<open>verify\<close> accepts a 16-byte tag exactly when it is the tag of the message: the accumulated
  differences vanish only if every byte agrees.
\<close>

theorem verify_accepts_only_the_tag:
  assumes "length key = 32" and "length tag = 16"
  shows "poly_verify key msg tag \<longleftrightarrow> tag = rfc_tag key msg"
  using assms poly_verify_iff [of key tag msg] poly_generate_rfc [of key msg] by simp

theorem verify_accepts_only_the_tag_witness:
  "poly_verify (replicate 32 0) [] (replicate 16 0)"
proof -
  have z: "le_bytes n 0 = replicate n 0" for n by (induction n) simp_all
  have "rfc_tag (replicate 32 0) [] = replicate 16 0"
    by (simp add: rfc_tag_def rfc_poly.simps span_at_def z)
  then show ?thesis
    using verify_accepts_only_the_tag [of "replicate 32 0" "replicate 16 0" "[]"] by simp
qed

end
