(* ===== verification/Aead.thy ===== *)
theory Aead
  imports Chacha_20 Poly_1305
begin

text \<open>
  The authenticated cipher of \<open>src/impl/crypto/aead/chacha20_poly1305.cpp\<close> and the contract of
  \<open>src/domain/crypto/aead.hpp\<close>. \<open>seal\<close> returns the ciphertext followed by the tag (and leaves
  the ciphertext in the caller's buffer); \<open>open\<close> returns the plaintext, and the empty vector
  when the blob is too short or the tag is wrong. The locale \<open>aead\<close> states what the users of
  the concept rely on, and its interpretation discharges that for this cipher.
\<close>

section \<open>The code\<close>

text \<open>The lambda \<open>append_padded\<close> and the lambda \<open>append_le64\<close> of \<open>build_mac_input\<close>.\<close>

definition append_padded :: "bytes \<Rightarrow> bytes \<Rightarrow> bytes" where
  "append_padded out data =
     (let out = out @ data; pad = (16 - length data mod 16) mod 16 in out @ replicate pad 0)"

definition append_le64 :: "bytes \<Rightarrow> u64 \<Rightarrow> bytes" where
  "append_le64 out v = out @ map (\<lambda>i. ucast (drop_bit (8 * i) v)) [0..<8]"

definition build_mac_input :: "bytes \<Rightarrow> bytes \<Rightarrow> bytes" where
  "build_mac_input aad ciphertext =
     (let out = append_padded [] aad;
          out = append_padded out ciphertext;
          out = append_le64 out (word_of_nat (length aad))
      in append_le64 out (word_of_nat (length ciphertext)))"

definition tag_size :: nat where
  "tag_size = 16"

definition aead_seal :: "bytes \<Rightarrow> bytes \<Rightarrow> bytes \<Rightarrow> bytes \<Rightarrow> bytes" where
  "aead_seal key nonce plaintext aad =
     (let auth_key = chacha_subkey key nonce;
          ciphertext = chacha_encrypt key nonce plaintext;
          mac_input = build_mac_input aad ciphertext;
          tag = poly_generate auth_key mac_input
      in ciphertext @ tag)"

definition aead_open :: "bytes \<Rightarrow> bytes \<Rightarrow> bytes \<Rightarrow> bytes \<Rightarrow> bytes" where
  "aead_open key nonce blob aad =
     (if length blob < tag_size then []
      else let ciphertext = take (length blob - tag_size) blob;
               tag = span_at (length ciphertext) tag_size blob;
               auth_key = chacha_subkey key nonce;
               mac_input = build_mac_input aad ciphertext
           in if \<not> poly_verify auth_key mac_input tag then []
              else chacha_decrypt key nonce ciphertext)"

section \<open>The contract\<close>

text \<open>
  What a user of the concept relies on: sealing adds the tag, opening undoes sealing, and
  whatever opens to a non-empty plaintext is exactly what sealing that plaintext gives.
\<close>

locale aead =
  fixes seal :: "bytes \<Rightarrow> bytes \<Rightarrow> bytes \<Rightarrow> bytes \<Rightarrow> bytes"
    and unseal :: "bytes \<Rightarrow> bytes \<Rightarrow> bytes \<Rightarrow> bytes \<Rightarrow> bytes"
    and tag_len :: nat
  assumes length_seal: "length (seal key nonce pt aad) = length pt + tag_len"
    and unseal_seal: "unseal key nonce (seal key nonce pt aad) aad = pt"
    and unseal_sound: "unseal key nonce blob aad \<noteq> [] \<Longrightarrow>
      blob = seal key nonce (unseal key nonce blob aad) aad"
begin

lemma unseal_iff:
  "pt \<noteq> [] \<Longrightarrow> unseal key nonce blob aad = pt \<longleftrightarrow> blob = seal key nonce pt aad"
  using unseal_seal unseal_sound by metis

lemma unseal_short: "length blob < tag_len \<Longrightarrow> unseal key nonce blob aad = []"
  using unseal_sound length_seal by (metis not_add_less2)

lemma length_unseal: "length (unseal key nonce blob aad) \<le> length blob - tag_len"
proof (cases "unseal key nonce blob aad = []")
  case False
  then have "length blob = length (unseal key nonce blob aad) + tag_len"
    using unseal_sound length_seal by metis
  then show ?thesis by simp
qed simp

lemma seal_inj: "seal key nonce pt aad = seal key nonce pt' aad \<Longrightarrow> pt = pt'"
  using unseal_seal by metis

text \<open>A blob that differs from the honest one in any byte does not open to another plaintext of the same seal.\<close>

lemma tampered: "pt \<noteq> [] \<Longrightarrow> blob \<noteq> seal key nonce pt aad \<Longrightarrow> unseal key nonce blob aad \<noteq> pt"
  using unseal_iff by blast

end

section \<open>The cipher meets the contract\<close>

lemma length_subkey [simp]: "length (chacha_subkey key nonce) = 32"
  by (simp add: chacha_subkey_def)

lemma chacha_roundtrip [simp]: "chacha_decrypt key nonce (chacha_encrypt key nonce pt) = pt"
  "chacha_encrypt key nonce (chacha_decrypt key nonce pt) = pt"
  by (simp_all add: chacha_decrypt_def chacha_encrypt_def apply_keystream_twice)

lemma length_chacha [simp]: "length (chacha_encrypt key nonce pt) = length pt"
  "length (chacha_decrypt key nonce pt) = length pt"
  by (simp_all add: chacha_decrypt_def chacha_encrypt_def)

lemma length_tag [simp]: "length (poly_generate (chacha_subkey key nonce) m) = 16"
  by (rule length_poly_generate) simp

lemma aead_open_iff:
  assumes "length t = 16"
  shows "aead_open key nonce (c @ t) aad =
    (if t = poly_generate (chacha_subkey key nonce) (build_mac_input aad c)
     then chacha_decrypt key nonce c else [])"
  using assms by (simp add: aead_open_def tag_size_def poly_verify_iff)

lemma blob_cases:
  obtains (short) "length blob < 16" | (split) c t where "blob = c @ t" "length t = 16"
proof (cases "length blob < 16")
  case False
  then show ?thesis
    using split [of "take (length blob - 16) blob" "drop (length blob - 16) blob"] by simp
qed (rule short)

interpretation cp: aead aead_seal aead_open tag_size
proof unfold_locales
  fix key nonce pt aad blob :: bytes
  show "length (aead_seal key nonce pt aad) = length pt + tag_size"
    by (simp add: aead_seal_def Let_def tag_size_def)
  show "aead_open key nonce (aead_seal key nonce pt aad) aad = pt"
    by (simp add: aead_seal_def Let_def aead_open_iff)
  assume ne: "aead_open key nonce blob aad \<noteq> []"
  show "blob = aead_seal key nonce (aead_open key nonce blob aad) aad"
  proof (cases blob rule: blob_cases)
    case short
    then show ?thesis using ne by (simp add: aead_open_def tag_size_def)
  next
    case (split c t)
    then show ?thesis using ne by (simp add: aead_open_iff aead_seal_def Let_def split: if_splits)
  qed
qed

section \<open>The MAC input determines what it authenticates\<close>

lemma append_le64_bytes: "append_le64 out (word_of_nat n) = out @ le_bytes 8 n"
proof -
  have "(ucast (drop_bit (8 * i) (word_of_nat n :: u64)) :: byte) = word_of_nat (n div 2 ^ (8 * i))"
    if "i < 8" for i
  proof -
    have "unat (ucast (drop_bit (8 * i) (word_of_nat n :: u64)) :: byte) =
        (n div 2 ^ 0 mod 2 ^ 64) div 2 ^ (8 * i) mod 2 ^ 8"
      by (simp add: unsigned_ucast_eq unat_drop_bit unat_of_nat take_bit_eq_mod)
    also have "\<dots> = n div 2 ^ (0 + 8 * i) mod 2 ^ 8" using that by (intro div_mod_digit) simp
    finally show ?thesis by (simp add: word_unat_eq_iff unat_of_nat)
  qed
  then show ?thesis unfolding append_le64_def le_bytes_map by (simp cong: map_cong)
qed

definition pad16 :: "bytes \<Rightarrow> bytes" where
  "pad16 d = replicate ((16 - length d mod 16) mod 16) 0"

lemma build_mac_input_eq:
  "build_mac_input aad ct = aad @ pad16 aad @ ct @ pad16 ct @
     le_bytes 8 (length aad) @ le_bytes 8 (length ct)"
  by (simp add: build_mac_input_def append_padded_def append_le64_bytes pad16_def)

lemma length_pad16: "length aad = length aad' \<Longrightarrow> length (pad16 aad) = length (pad16 aad')"
  by (simp add: pad16_def)

lemma append_eq_same_tail: "xs @ t = ys @ t' \<Longrightarrow> length t = length t' \<Longrightarrow> xs = ys \<and> t = t'"
  by (simp add: append_eq_append_conv)

lemma build_mac_input_inj:
  assumes "build_mac_input a c = build_mac_input a' c'"
    and "length a < 2 ^ 64" and "length a' < 2 ^ 64" and "length c < 2 ^ 64" and "length c' < 2 ^ 64"
  shows "a = a' \<and> c = c'"
proof -
  let ?t = "\<lambda>a c. le_bytes 8 (length a) @ le_bytes 8 (length c)"
  have "(a @ pad16 a @ c @ pad16 c) @ ?t a c = (a' @ pad16 a' @ c' @ pad16 c') @ ?t a' c'"
    using assms(1) by (simp only: build_mac_input_eq append_assoc)
  then have h: "a @ pad16 a @ c @ pad16 c = a' @ pad16 a' @ c' @ pad16 c'" and t: "?t a c = ?t a' c'"
    by (auto dest!: append_eq_same_tail simp del: append_assoc)
  from t have "le_bytes 8 (length a) = le_bytes 8 (length a')" "le_bytes 8 (length c) = le_bytes 8 (length c')"
    by simp_all
  then have la: "length a = length a'" and lc: "length c = length c'"
    using assms(2-5) by (simp_all add: le_bytes_eq_iff)
  from h la have a: "a = a'" by (simp add: append_eq_append_conv)
  with h have "c @ pad16 c = c' @ pad16 c'" by simp
  with lc a show ?thesis by (simp add: append_eq_append_conv)
qed

text \<open>The MAC input is a whole number of 16-byte blocks.\<close>

lemma length_pad16_dvd: "16 dvd length d + length (pad16 d)"
proof -
  have *: "16 dvd 16 * q + r + (16 - r) mod 16" if "r < 16" for q r :: nat
  proof (cases r)
    case (Suc r')
    then have "16 * q + r + (16 - r) mod 16 = 16 * Suc q" using that by simp
    then show ?thesis by (simp only: dvd_triv_left)
  qed simp
  have "16 dvd m + (16 - m mod 16) mod 16" for m :: nat
    using * [of "m mod 16" "m div 16"] by simp
  then show ?thesis by (simp add: pad16_def)
qed

lemma length_build_mac_input: "16 dvd length (build_mac_input a c)"
proof -
  have "length (build_mac_input a c) =
      (length a + length (pad16 a)) + (length c + length (pad16 c)) + 16"
    by (simp add: build_mac_input_eq)
  then show ?thesis using length_pad16_dvd [of a] length_pad16_dvd [of c] by (simp only: dvd_add dvd_refl)
qed

section \<open>Properties\<close>

text \<open>
  C18. \<open>open\<close> returns a non-empty plaintext exactly for the blob that \<open>seal\<close> makes of it under the same
  key, nonce and additional data: every sealed message opens to itself, and nothing else
  opens to it.
\<close>

theorem open_iff_sealed:
  assumes "pt \<noteq> []"
  shows "aead_open key nonce blob aad = pt \<longleftrightarrow> blob = aead_seal key nonce pt aad"
  using assms by (rule cp.unseal_iff)

theorem open_iff_sealed_witness:
  "aead_open (replicate 32 1) (replicate 12 0) (aead_seal (replicate 32 1) (replicate 12 0) [5] []) [] = [5]"
  using open_iff_sealed [of "[5]"] by simp

text \<open>
  Two different pairs of additional data and ciphertext never give the same authenticated
  input, and that input is a whole number of blocks, as RFC 8439 requires.
\<close>

theorem mac_input_injective:
  assumes "length a < 2 ^ 64" and "length a' < 2 ^ 64" and "length c < 2 ^ 64" and "length c' < 2 ^ 64"
  shows "(build_mac_input a c = build_mac_input a' c' \<longleftrightarrow> a = a' \<and> c = c') \<and>
    16 dvd length (build_mac_input a c)"
  using build_mac_input_inj [of a c a' c'] assms length_build_mac_input by blast

theorem mac_input_injective_witness:
  "build_mac_input [1, 0] [2] \<noteq> build_mac_input [1] [0, 2]"
  using mac_input_injective [of "[1, 0]" "[1]" "[2]" "[0, 2]"] by simp

end
