(* ===== verification/Session.thy ===== *)
theory Session
  imports Wire Tcp Aead
begin

text \<open>
  The encrypted session of \<open>src/session/session.hpp\<close> and the transport half of
  \<open>src/session/session.cpp\<close>: \<open>counter_nonce\<close>, \<open>session::send\<close> and \<open>session::recv\<close>. The lemmas
  rest on the contract of the authenticated cipher (its interpretation \<open>cp\<close>), on the frame
  layer and on the message layer: what one end sends the other end receives, in order and
  unchanged, and whatever is received was sealed under the shared key.
\<close>

section \<open>The code\<close>

record session =
  peer_identity_pk :: bytes
  k_send :: bytes
  k_recv :: bytes
  send_ctr :: u64

definition counter_nonce :: "u64 \<Rightarrow> bytes" where
  "counter_nonce ctr =
     fst (fold (\<lambda>i (n, ctr). (n[4 + i := ucast (ctr AND 0xFF)], drop_bit 8 ctr))
       (rev [0..<8]) (replicate 12 0, ctr))"

definition session_send ::
  "session \<Rightarrow> tcp_connection \<Rightarrow> bytes \<Rightarrow> bool \<times> session \<times> tcp_connection" where
  "session_send s conn plaintext =
     (let nonce = counter_nonce (send_ctr s);
          s = s\<lparr>send_ctr := send_ctr s + 1\<rparr>;
          blob = aead_seal (k_send s) nonce plaintext [];
          frame = build_encrypted nonce blob;
          (ok, conn) = send_frame frame conn
      in (ok, s, conn))"

definition session_recv :: "session \<Rightarrow> tcp_connection \<Rightarrow> bytes option \<times> tcp_connection" where
  "session_recv s conn =
     (case recv_frame conn of
        (None, conn) \<Rightarrow> (None, conn)
      | (Some raw, conn) \<Rightarrow>
          (case parse_encrypted raw of
             None \<Rightarrow> (None, conn)
           | Some enc \<Rightarrow>
               let plaintext = aead_open (k_recv s) (enc_nonce enc) (enc_blob enc) []
               in if plaintext = [] then (None, conn) else (Some plaintext, conn)))"

section \<open>Nonces\<close>

text \<open>The counter in big-endian order behind four zero bytes.\<close>

lemma counter_nonce_bytes:
  "counter_nonce c = replicate 4 0 @ map (\<lambda>i. ucast (drop_bit (8 * (7 - i)) c)) [0..<8]"
proof -
  have m: "(ucast (x AND 0xFF :: u64) :: byte) = ucast x" for x
    by (rule bit_word_eqI) (auto simp: bit_simps masks(1))
  have "rev [0..<8] = [7, 6, 5, 4, 3, 2, 1, 0 :: nat]" "[0..<8] = [0, 1, 2, 3, 4, 5, 6, 7 :: nat]"
    by (simp_all add: upt_rec)
  moreover have "replicate 12 (0 :: byte) = [0,0,0,0,0,0,0,0,0,0,0,0]" "replicate 4 (0 :: byte) = [0,0,0,0]"
    by (simp_all add: numeral_eq_Suc)
  ultimately show ?thesis by (simp add: counter_nonce_def m)
qed

lemma length_counter_nonce [simp]: "length (counter_nonce c) = 12"
  by (simp add: counter_nonce_bytes)

lemma counter_nonce_inj: "counter_nonce c = counter_nonce d \<Longrightarrow> c = d"
proof (rule bit_word_eqI)
  fix n assume eq: "counter_nonce c = counter_nonce d" and n: "n < LENGTH(64)"
  then have i: "7 - n div 8 < 8" "7 - (7 - n div 8) = n div 8" "n mod 8 < 8" by auto
  from eq have "map (\<lambda>i. ucast (drop_bit (8 * (7 - i)) c) :: byte) [0..<8] ! (7 - n div 8) =
      map (\<lambda>i. ucast (drop_bit (8 * (7 - i)) d)) [0..<8] ! (7 - n div 8)"
    by (simp add: counter_nonce_bytes)
  then have "(ucast (drop_bit (8 * (n div 8)) c) :: byte) = ucast (drop_bit (8 * (n div 8)) d)"
    using i by simp
  then have "bit (ucast (drop_bit (8 * (n div 8)) c) :: byte) (n mod 8) =
      bit (ucast (drop_bit (8 * (n div 8)) d) :: byte) (n mod 8)" by simp
  then show "bit c n = bit d n" using i by (simp add: bit_simps)
qed

section \<open>One message\<close>

text \<open>The frame \<open>session::send\<close> puts on the wire.\<close>

definition sealed_frame :: "bytes \<Rightarrow> u64 \<Rightarrow> bytes \<Rightarrow> bytes" where
  "sealed_frame key ctr m = build_encrypted (counter_nonce ctr) (aead_seal key (counter_nonce ctr) m [])"

lemma length_sealed_frame [simp]: "length (sealed_frame key ctr m) = length m + 29"
  by (simp add: sealed_frame_def cp.length_seal tag_size_def)

lemma session_send_sent:
  assumes "session_send s c m = (True, s', c')"
  shows "tx c' = tx c @ frame_bytes (sealed_frame (k_send s) (send_ctr s) m) \<and>
    s' = s\<lparr>send_ctr := send_ctr s + 1\<rparr> \<and> rx c' = rx c"
  using assms
  by (auto simp: session_send_def sealed_frame_def frame_bytes_def Let_def split: prod.splits
      dest!: send_frame_tx)

lemma session_send_state: "fst (snd (session_send s c m)) = s\<lparr>send_ctr := send_ctr s + 1\<rparr>"
  by (simp add: session_send_def Let_def split: prod.splits)

lemma parse_sealed_frame:
  "parse_encrypted (sealed_frame key ctr m) =
     Some \<lparr>enc_nonce = counter_nonce ctr, enc_blob = aead_seal key (counter_nonce ctr) m []\<rparr>"
  by (subst parse_encrypted_exact) (simp add: sealed_frame_def cp.length_seal tag_size_def)

lemma session_recv_frame:
  assumes "recv_frame c = (Some (sealed_frame (k_recv s) ctr m), c')"
  shows "session_recv s c = (if m = [] then None else Some m, c')"
  using assms by (simp add: session_recv_def parse_sealed_frame cp.unseal_seal)

lemma session_recv_stream:
  assumes "live c" and "stream c = frame_bytes (sealed_frame (k_recv s) ctr m) @ rest"
    and "length m + 29 \<le> frame_cap"
  shows "\<exists>c'. session_recv s c = (if m = [] then None else Some m, c') \<and> stream c' = rest \<and> live c'"
proof -
  have "stream c = be32 (word_of_nat (length (sealed_frame (k_recv s) ctr m))) @
      sealed_frame (k_recv s) ctr m @ rest"
    using assms(2) by (simp only: frame_bytes_def append_assoc)
  from recv_frame_stream [OF assms(1) this] assms(3) obtain c' where
    "recv_frame c = (Some (sealed_frame (k_recv s) ctr m), c')" "stream c' = rest" "live c'"
    by auto
  then show ?thesis using session_recv_frame by blast
qed

text \<open>Whatever is delivered was sealed under the receiving key.\<close>

lemma session_recv_authentic:
  assumes "session_recv s c = (Some m, c')"
  shows "\<exists>nonce. length nonce = 12 \<and> m \<noteq> [] \<and>
    recv_frame c = (Some (build_encrypted nonce (aead_seal (k_recv s) nonce m [])), c')"
proof -
  obtain raw enc where raw: "recv_frame c = (Some raw, c')" and enc: "parse_encrypted raw = Some enc"
    and m: "m = aead_open (k_recv s) (enc_nonce enc) (enc_blob enc) []" "m \<noteq> []"
    using assms by (auto simp: session_recv_def Let_def split: prod.splits option.splits if_splits)
  have "enc_blob enc = aead_seal (k_recv s) (enc_nonce enc) m []"
    using m cp.unseal_sound by metis
  then show ?thesis using raw enc m by (auto simp: parse_encrypted_exact)
qed

section \<open>A run of messages\<close>

fun session_sends ::
  "bytes list \<Rightarrow> session \<Rightarrow> tcp_connection \<Rightarrow> bool \<times> session \<times> tcp_connection" where
  "session_sends [] s c = (True, s, c)"
| "session_sends (m # ms) s c =
     (case session_send s c m of
        (True, s', c') \<Rightarrow> session_sends ms s' c'
      | (False, s', c') \<Rightarrow> (False, s', c'))"

fun session_recvs :: "nat \<Rightarrow> session \<Rightarrow> tcp_connection \<Rightarrow> bytes list \<times> tcp_connection" where
  "session_recvs 0 s c = ([], c)"
| "session_recvs (Suc n) s c =
     (case session_recv s c of
        (None, c') \<Rightarrow> ([], c')
      | (Some m, c') \<Rightarrow> (let (ms, c'') = session_recvs n s c' in (m # ms, c'')))"

fun sealed_stream :: "bytes \<Rightarrow> u64 \<Rightarrow> bytes list \<Rightarrow> bytes" where
  "sealed_stream key ctr [] = []"
| "sealed_stream key ctr (m # ms) = frame_bytes (sealed_frame key ctr m) @ sealed_stream key (ctr + 1) ms"

lemma session_sends_sent:
  assumes "session_sends ms s c = (True, s', c')"
  shows "tx c' = tx c @ sealed_stream (k_send s) (send_ctr s) ms \<and>
    send_ctr s' = send_ctr s + word_of_nat (length ms) \<and> k_send s' = k_send s"
  using assms
proof (induction ms arbitrary: s c)
  case Nil
  then show ?case by simp
next
  case (Cons m ms)
  then obtain s1 c1 where 1: "session_send s c m = (True, s1, c1)" and 2: "session_sends ms s1 c1 = (True, s', c')"
    by (auto split: prod.splits bool.splits)
  show ?case using session_send_sent [OF 1] Cons.IH [OF 2] by (simp add: add.assoc)
qed

definition deliverable :: "bytes \<Rightarrow> bool" where
  "deliverable m \<longleftrightarrow> m \<noteq> [] \<and> length m + 29 \<le> frame_cap"

lemma session_recvs_stream:
  assumes "live c" and "stream c = sealed_stream (k_recv s) ctr ms @ rest" and "list_all deliverable ms"
  shows "\<exists>c'. session_recvs (length ms) s c = (ms, c') \<and> stream c' = rest \<and> live c'"
  using assms
proof (induction ms arbitrary: c ctr)
  case Nil
  then show ?case by simp
next
  case (Cons m ms)
  have "stream c = frame_bytes (sealed_frame (k_recv s) ctr m) @ sealed_stream (k_recv s) (ctr + 1) ms @ rest"
    using Cons.prems by simp
  from session_recv_stream [OF Cons.prems(1) this] Cons.prems(3) obtain c1 where
    c1: "session_recv s c = (Some m, c1)" "stream c1 = sealed_stream (k_recv s) (ctr + 1) ms @ rest" "live c1"
    by (auto simp: deliverable_def)
  from Cons.IH [OF c1(3,2)] Cons.prems(3) show ?case using c1 by auto
qed

text \<open>The nonces of one key are never reused within $2^{64}$ messages.\<close>

lemma nonces_distinct:
  assumes "n \<le> 2 ^ 64"
  shows "distinct (map (\<lambda>i. counter_nonce (ctr + word_of_nat i)) [0..<n])"
proof -
  have "i = j" if "i < n" "j < n" "counter_nonce (ctr + word_of_nat i) = counter_nonce (ctr + word_of_nat j)" for i j
  proof -
    from counter_nonce_inj [OF that(3)] have "(word_of_nat i :: u64) = word_of_nat j" by simp
    then have "unat (word_of_nat i :: u64) = unat (word_of_nat j :: u64)" by simp
    then show ?thesis using that assms by (simp add: unat_of_nat)
  qed
  then show ?thesis by (auto simp: distinct_map inj_on_def)
qed

section \<open>Properties\<close>

text \<open>
  C13. The session transports messages: when a run of \<open>session::send\<close> calls succeeds and the other end
  holds the matching key, the same number of \<open>session::recv\<close> calls returns the same messages in
  the same order, however the bytes are segmented. The messages must be non-empty and fit, with
  29 bytes of overhead, under the frame cap.
\<close>

theorem session_delivers:
  assumes "session_sends ms s c = (True, s', c')" and "tx c = []" and "k_recv r = k_send s"
    and "live d" and "stream d = tx c'" and "list_all deliverable ms"
  shows "\<exists>d'. session_recvs (length ms) r d = (ms, d') \<and> stream d' = []"
proof -
  have "stream d = sealed_stream (k_recv r) (send_ctr s) ms @ []"
    using session_sends_sent [OF assms(1)] assms(2,3,5) by simp
  from session_recvs_stream [OF assms(4) this assms(6)] show ?thesis by auto
qed

definition sample_session :: session where
  "sample_session = \<lparr>peer_identity_pk = replicate 32 1, k_send = replicate 32 2, k_recv = replicate 32 2, send_ctr = 0\<rparr>"

lemma session_send_room:
  assumes "list_all (\<lambda>r. 0 < r) (tx_room c)" and "length m + 33 \<le> length (tx_room c)"
  shows "\<exists>s' c'. session_send s c m = (True, s', c') \<and> list_all (\<lambda>r. 0 < r) (tx_room c') \<and>
    length (tx_room c) - (length m + 33) \<le> length (tx_room c')"
proof -
  have "length (sealed_frame (k_send s) (send_ctr s) m) + 4 \<le> length (tx_room c)"
    using assms(2) by simp
  from send_frame_room [OF assms(1) this] show ?thesis
    by (auto simp: session_send_def Let_def sealed_frame_def split_beta cp.length_seal tag_size_def)
qed

theorem session_delivers_witness:
  "\<exists>s' c' d'. session_sends [[1, 2], [3]] sample_session (idle_conn (replicate 100 1) []) = (True, s', c') \<and>
     session_recvs 2 sample_session (idle_conn [] [tx c']) = ([[1, 2], [3]], d')"
proof -
  let ?c = "idle_conn (replicate 100 1) []"
  obtain s1 c1 where 1: "session_send sample_session ?c [1, 2] = (True, s1, c1)"
    "list_all (\<lambda>r. 0 < r) (tx_room c1)" "65 \<le> length (tx_room c1)"
    using session_send_room [of ?c "[1, 2]" sample_session] by (auto simp: idle_conn_def list_all_iff)
  obtain s2 c2 where 2: "session_send s1 c1 [3] = (True, s2, c2)"
    using session_send_room [of c1 "[3]" s1] 1 by auto
  have s: "session_sends [[1, 2], [3]] sample_session ?c = (True, s2, c2)" using 1 2 by simp
  have "tx c2 \<noteq> []" using session_sends_sent [OF s] by simp
  then have d: "live (idle_conn [] [tx c2])" "stream (idle_conn [] [tx c2]) = tx c2"
    by (simp_all add: idle_conn_def live_def stream_def)
  have ms: "list_all deliverable [[1, 2], [3]]" by (simp add: deliverable_def frame_cap_def)
  have k: "tx ?c = []" "k_recv sample_session = k_send sample_session"
    by (simp_all add: idle_conn_def sample_session_def)
  have two: "length [[1, 2], [3 :: byte]] = 2" by simp
  obtain d' where "session_recvs 2 sample_session (idle_conn [] [tx c2]) = ([[1, 2], [3]], d')"
    using session_delivers [OF s k d ms] unfolding two by blast
  then show ?thesis using s by blast
qed

text \<open>
  C21. \<open>session::recv\<close> is authentic: whatever it returns arrived in an ENCRYPTED frame whose blob is
  the sealing of exactly that message under the session's receiving key and the frame's nonce.
\<close>

theorem session_recv_only_sealed:
  assumes "session_recv s c = (Some m, c')"
  shows "m \<noteq> [] \<and> (\<exists>nonce. length nonce = 12 \<and>
    stream c = frame_bytes (build_encrypted nonce (aead_seal (k_recv s) nonce m [])) @ stream c')"
  using session_recv_authentic [OF assms] recv_frame_some by blast

theorem session_recv_only_sealed_witness:
  "\<exists>c' nonce. session_recv sample_session (idle_conn [] [frame_bytes (sealed_frame (replicate 32 2) 9 [4])]) = (Some [4], c') \<and>
     frame_bytes (sealed_frame (replicate 32 2) 9 [4]) =
       frame_bytes (build_encrypted nonce (aead_seal (replicate 32 2) nonce [4] [])) @ stream c'"
proof -
  let ?f = "frame_bytes (sealed_frame (replicate 32 2) 9 [4])"
  let ?c = "idle_conn [] [?f]"
  have c: "live ?c" "stream ?c = ?f @ []" by (simp_all add: live_def stream_def idle_conn_def)
  obtain c' where "session_recv sample_session ?c = (Some [4], c')"
    using session_recv_stream [of ?c sample_session 9 "[4]" "[]"] c
    by (auto simp: sample_session_def frame_cap_def)
  then show ?thesis
    using session_recv_only_sealed [of sample_session ?c "[4]" c'] c by (auto simp: sample_session_def)
qed



text \<open>
  An empty message cannot be delivered: \<open>session::send\<close> accepts it and seals it correctly, but
  \<open>session::recv\<close> takes the empty plaintext for a failed authentication and returns \<open>nullopt\<close>.
\<close>

theorem empty_message_reported_as_forged:
  assumes "session_send s c [] = (True, s', c')" and "tx c = []" and "k_recv r = k_send s"
    and "live d" and "stream d = tx c' @ rest"
  shows "fst (session_recv r d) = None"
proof -
  have "stream d = frame_bytes (sealed_frame (k_recv r) (send_ctr s) []) @ rest"
    using session_send_sent [OF assms(1)] assms(2,3,5) by simp
  from session_recv_stream [OF assms(4) this] show ?thesis by (auto simp: frame_cap_def)
qed

theorem empty_message_reported_as_forged_witness:
  "\<exists>s' c'. session_send sample_session (idle_conn (replicate 100 1) []) [] = (True, s', c') \<and>
     fst (session_recv sample_session (idle_conn [] [tx c'])) = None"
proof -
  let ?c = "idle_conn (replicate 100 1) []"
  obtain s1 c1 where 1: "session_send sample_session ?c [] = (True, s1, c1)"
    using session_send_room [of ?c "[]" sample_session] by (auto simp: idle_conn_def list_all_iff)
  have "tx c1 \<noteq> []" using session_send_sent [OF 1] by simp
  then show ?thesis
    using empty_message_reported_as_forged [OF 1, of sample_session "idle_conn [] [tx c1]" "[]"] 1
    by (auto simp: idle_conn_def sample_session_def live_def stream_def)
qed

lemma session_recvs_replay:
  assumes "live c" and "stream c = concat (replicate n (frame_bytes (sealed_frame (k_recv s) ctr m)))"
    and "deliverable m"
  shows "fst (session_recvs n s c) = replicate n m"
  using assms(1,2)
proof (induction n arbitrary: c)
  case 0
  then show ?case by simp
next
  case (Suc n)
  have "stream c = frame_bytes (sealed_frame (k_recv s) ctr m) @
      concat (replicate n (frame_bytes (sealed_frame (k_recv s) ctr m)))" using Suc.prems(2) by simp
  from session_recv_stream [OF Suc.prems(1) this] assms(3) obtain c1 where
    "session_recv s c = (Some m, c1)"
    "stream c1 = concat (replicate n (frame_bytes (sealed_frame (k_recv s) ctr m)))" "live c1"
    by (auto simp: deliverable_def)
  then show ?case using Suc.IH by (simp add: split_beta)
qed

text \<open>
  C40. The receiver keeps no nonce state, so a recorded frame that is played again is delivered
  again: the same ENCRYPTED frame \<open>n\<close> times in the stream is \<open>n\<close> times the same message, although
  the header of \<open>session.hpp\<close> calls the nonces implicit monotonic counters.
\<close>

theorem replayed_frames_are_accepted:
  assumes "session_send s c m = (True, s', c')" and "tx c = []" and "k_recv r = k_send s"
    and "deliverable m" and "live d" and "stream d = concat (replicate n (tx c'))"
  shows "fst (session_recvs n r d) = replicate n m"
proof -
  have "tx c' = frame_bytes (sealed_frame (k_recv r) (send_ctr s) m)"
    using session_send_sent [OF assms(1)] assms(2,3) by simp
  then show ?thesis using session_recvs_replay [OF assms(5) _ assms(4)] assms(6) by simp
qed

theorem replayed_frames_are_accepted_witness:
  "\<exists>s' c'. session_send sample_session (idle_conn (replicate 100 1) []) [7] = (True, s', c') \<and>
     fst (session_recvs 3 sample_session (idle_conn [] [tx c', tx c', tx c'])) = [[7], [7], [7]]"
proof -
  let ?c = "idle_conn (replicate 100 1) []"
  obtain s1 c1 where 1: "session_send sample_session ?c [7] = (True, s1, c1)"
    using session_send_room [of ?c "[7]" sample_session] by (auto simp: idle_conn_def list_all_iff)
  have "tx c1 \<noteq> []" using session_send_sent [OF 1] by simp
  then have "fst (session_recvs 3 sample_session (idle_conn [] [tx c1, tx c1, tx c1])) = replicate 3 [7]"
    using replayed_frames_are_accepted [OF 1, of sample_session "idle_conn [] [tx c1, tx c1, tx c1]" 3]
    by (simp add: idle_conn_def sample_session_def live_def stream_def deliverable_def frame_cap_def
        numeral_3_eq_3)
  then show ?thesis using 1 by (auto simp: numeral_3_eq_3)
qed

end
