(* ===== verification/Chunker.thy ===== *)
theory Chunker
  imports Session
begin

text \<open>
  Chunked transfers, \<open>src/transfer/chunker.hpp\<close> and \<open>src/transfer/chunker.cpp\<close>: the chunk frame,
  \<open>send_chunked\<close>, the reassembler of one transfer and the registry of the transfers in flight.
  The random transfer identifier of \<open>send_chunked\<close> (from \<open>randombytes_buf\<close>) and the readings of
  the steady clock are arguments. The lemmas show that a parsed frame is exactly a built one,
  that a transfer completes with the original data for every order of arrival and any number
  of duplicates, and that concurrent transfers do not influence each other.
\<close>

section \<open>The chunk frame\<close>

definition CHUNK_MAGIC :: byte where "CHUNK_MAGIC = 0x01"
definition CHUNK_HEADER_SIZE :: nat where "CHUNK_HEADER_SIZE = 9"
definition CHUNK_PAYLOAD_SIZE :: nat where "CHUNK_PAYLOAD_SIZE = 8 * 1024"

record chunk_info =
  ci_transfer_id :: u32
  ci_index :: u16
  ci_total :: u16
  ci_data :: bytes

definition make_chunk_frame :: "u32 \<Rightarrow> u16 \<Rightarrow> u16 \<Rightarrow> bytes \<Rightarrow> bytes" where
  "make_chunk_frame transfer_id index tot data =
     (let frame = replicate (CHUNK_HEADER_SIZE + length data) 0;
          frame = frame[0 := CHUNK_MAGIC];
          frame = frame[1 := ucast transfer_id];
          frame = frame[2 := ucast (drop_bit 8 transfer_id)];
          frame = frame[3 := ucast (drop_bit 16 transfer_id)];
          frame = frame[4 := ucast (drop_bit 24 transfer_id)];
          frame = frame[5 := ucast index];
          frame = frame[6 := ucast (drop_bit 8 index)];
          frame = frame[7 := ucast tot];
          frame = frame[8 := ucast (drop_bit 8 tot)]
      in write_at CHUNK_HEADER_SIZE data frame)"

definition parse_chunk_frame :: "bytes \<Rightarrow> chunk_info option" where
  "parse_chunk_frame b =
     (if length b < CHUNK_HEADER_SIZE then None
      else if b ! 0 \<noteq> CHUNK_MAGIC then None
      else let tid = ucast (b ! 1) OR push_bit 8 (ucast (b ! 2)) OR push_bit 16 (ucast (b ! 3))
                       OR push_bit 24 (ucast (b ! 4));
               index = ucast (b ! 5) OR push_bit 8 (ucast (b ! 6));
               tot = ucast (b ! 7) OR push_bit 8 (ucast (b ! 8));
               data = drop CHUNK_HEADER_SIZE b
           in if tot = 0 \<or> tot \<le> index then None
              else Some \<lparr>ci_transfer_id = tid, ci_index = index, ci_total = tot, ci_data = data\<rparr>)"

section \<open>Sending\<close>

lemma u16_next: "i < tot \<Longrightarrow> unat (i + 1) = unat i + 1" for i tot :: u16
proof -
  assume "i < tot"
  moreover have "unat tot < 2 ^ LENGTH(16)" by (rule unsigned_less)
  ultimately have "unat i + 1 < 2 ^ LENGTH(16)" by (simp add: word_less_nat_alt)
  then show ?thesis by (simp add: unat_word_ariths)
qed

text \<open>The \<open>for (uint16_t i = 0; i < total; ++i)\<close> loop.\<close>

function send_chunks ::
  "u32 \<Rightarrow> u16 \<Rightarrow> u16 \<Rightarrow> nat \<Rightarrow> bytes \<Rightarrow> session \<Rightarrow> tcp_connection \<Rightarrow> u16 \<times> session \<times> tcp_connection" where
  "send_chunks tid tot i chunk_size data s conn =
     (if i < tot then
        let offset = unat i * chunk_size;
            len = min chunk_size (length data - offset);
            frame = make_chunk_frame tid i tot (span_at offset len data)
        in case session_send s conn frame of
             (False, s, conn) \<Rightarrow> (i, s, conn)
           | (True, s, conn) \<Rightarrow> send_chunks tid tot (i + 1) chunk_size data s conn
      else (tot, s, conn))"
  by pat_completeness auto
termination
  by (relation "measure (\<lambda>(tid, tot, i, _). unat tot - unat i)")
    (auto simp: u16_next word_less_nat_alt)

declare send_chunks.simps [simp del]

definition chunk_total :: "nat \<Rightarrow> nat \<Rightarrow> u16" where
  "chunk_total len chunk_size = word_of_nat ((len + chunk_size - 1) mod 2 ^ 64 div chunk_size)"

definition send_chunked ::
  "u32 \<Rightarrow> session \<Rightarrow> tcp_connection \<Rightarrow> bytes \<Rightarrow> nat \<Rightarrow> u16 \<times> session \<times> tcp_connection" where
  "send_chunked transfer_id s conn data chunk_size =
     (if data = [] then (0, s, conn)
      else let chunk_size = (if chunk_size = 0 then CHUNK_PAYLOAD_SIZE else chunk_size);
               tot = chunk_total (length data) chunk_size
           in send_chunks transfer_id tot 0 chunk_size data s conn)"

section \<open>Reassembly\<close>

record chunk_reassembler =
  ra_slots :: "bytes option list"
  ra_total :: u16
  ra_received :: u16

definition new_reassembler :: "u16 \<Rightarrow> chunk_reassembler" where
  "new_reassembler t = \<lparr>ra_slots = replicate (unat t) None, ra_total = t, ra_received = 0\<rparr>"

definition reassembler_add ::
  "u16 \<Rightarrow> bytes \<Rightarrow> chunk_reassembler \<Rightarrow> bytes option \<times> chunk_reassembler" where
  "reassembler_add index data r =
     (if ra_total r \<le> index \<or> ra_slots r ! unat index \<noteq> None then (None, r)
      else let r = r\<lparr>ra_slots := (ra_slots r)[unat index := Some data]\<rparr>;
               r = r\<lparr>ra_received := ra_received r + 1\<rparr>
           in if ra_received r < ra_total r then (None, r)
              else (Some (concat (map the (ra_slots r))), r))"

record entry =
  asm :: chunk_reassembler
  created :: int

type_synonym transfer_registry = "u32 \<rightharpoonup> entry"

text \<open>\<open>map_.emplace\<close> leaves an existing entry as it is; \<open>now\<close> is the clock reading of a new one.\<close>

definition registry_ingest ::
  "int \<Rightarrow> u32 \<Rightarrow> u16 \<Rightarrow> u16 \<Rightarrow> bytes \<Rightarrow> transfer_registry \<Rightarrow> bytes option \<times> transfer_registry" where
  "registry_ingest now tid index tot data m =
     (let e = (case m tid of None \<Rightarrow> \<lparr>asm = new_reassembler tot, created = now\<rparr> | Some e \<Rightarrow> e);
          (result, r) = reassembler_add index data (asm e);
          m = m(tid \<mapsto> e\<lparr>asm := r\<rparr>)
      in if result \<noteq> None then (result, m(tid := None)) else (result, m))"

definition registry_prune :: "int \<Rightarrow> int \<Rightarrow> transfer_registry \<Rightarrow> transfer_registry" where
  "registry_prune now ttl m =
     (\<lambda>tid. case m tid of
        None \<Rightarrow> None
      | Some e \<Rightarrow> if now - created e > ttl then None else Some e)"

section \<open>Frames: what is parsed is what was built\<close>

definition le16 :: "u16 \<Rightarrow> bytes" where
  "le16 x = [ucast x, ucast (drop_bit 8 x)]"

definition le32 :: "u32 \<Rightarrow> bytes" where
  "le32 x = [ucast x, ucast (drop_bit 8 x), ucast (drop_bit 16 x), ucast (drop_bit 24 x)]"

lemma make_chunk_frame_eq:
  "make_chunk_frame tid i t d = CHUNK_MAGIC # le32 tid @ le16 i @ le16 t @ d"
proof -
  have "replicate (9 + length d) (0 :: byte) = [0, 0, 0, 0, 0, 0, 0, 0, 0] @ replicate (length d) 0"
    by (simp add: numeral_eq_Suc)
  then show ?thesis
    by (simp add: make_chunk_frame_def CHUNK_HEADER_SIZE_def le16_def le32_def write_at_def)
qed

definition dec16 :: "byte \<Rightarrow> byte \<Rightarrow> u16" where
  "dec16 a b = ucast a OR push_bit 8 (ucast b)"

definition dec32 :: "byte \<Rightarrow> byte \<Rightarrow> byte \<Rightarrow> byte \<Rightarrow> u32" where
  "dec32 a b c d = ucast a OR push_bit 8 (ucast b) OR push_bit 16 (ucast c) OR push_bit 24 (ucast d)"

lemma le16_dec [simp]: "dec16 (ucast x) (ucast (drop_bit 8 x)) = x"
  unfolding dec16_def by (rule bit_word_eqI) (auto simp: bit_simps)

lemma le32_dec [simp]:
  "dec32 (ucast x) (ucast (drop_bit 8 x)) (ucast (drop_bit 16 x)) (ucast (drop_bit 24 x)) = x"
proof (rule bit_word_eqI)
  fix n assume "n < LENGTH(32)"
  then consider "n < 8" | "8 \<le> n" "n < 16" | "16 \<le> n" "n < 24" | "24 \<le> n" "n < 32" by force
  then show "bit (dec32 (ucast x) (ucast (drop_bit 8 x)) (ucast (drop_bit 16 x))
      (ucast (drop_bit 24 x))) n = bit x n"
    unfolding dec32_def by cases (auto simp: bit_simps)
qed

lemma le16_enc [simp]: "le16 (dec16 a b) = [a, b]"
  unfolding dec16_def by (auto simp: le16_def bit_simps byte_bit_high intro!: bit_word_eqI)

lemma le32_enc [simp]: "le32 (dec32 a b c d) = [a, b, c, d]"
  unfolding dec32_def by (auto simp: le32_def bit_simps byte_bit_high intro!: bit_word_eqI)

lemma parse_chunk_frame_nine:
  "parse_chunk_frame (x0 # x1 # x2 # x3 # x4 # x5 # x6 # x7 # x8 # d) =
     (if x0 = CHUNK_MAGIC \<and> dec16 x5 x6 < dec16 x7 x8
      then Some \<lparr>ci_transfer_id = dec32 x1 x2 x3 x4, ci_index = dec16 x5 x6,
                 ci_total = dec16 x7 x8, ci_data = d\<rparr>
      else None)"
proof -
  have z: "t = 0 \<or> t \<le> i \<longleftrightarrow> \<not> i < t" for i t :: u16 by (auto simp: not_less)
  let ?b = "x0 # x1 # x2 # x3 # x4 # x5 # x6 # x7 # x8 # d"
  have b: "(length ?b < 9) = False" "?b ! 0 = x0" "?b ! 1 = x1" "?b ! 2 = x2" "?b ! 3 = x3" "?b ! 4 = x4"
    "?b ! 5 = x5" "?b ! 6 = x6" "?b ! 7 = x7" "?b ! 8 = x8" "drop 9 ?b = d" by simp_all
  show ?thesis
    unfolding parse_chunk_frame_def Let_def z CHUNK_HEADER_SIZE_def b
      dec16_def [symmetric] dec32_def [symmetric] by (simp only: if_False if_not_P) auto
qed

lemma parse_make_chunk_frame:
  "parse_chunk_frame (make_chunk_frame tid i t d) =
     (if i < t then Some \<lparr>ci_transfer_id = tid, ci_index = i, ci_total = t, ci_data = d\<rparr> else None)"
  unfolding make_chunk_frame_eq le16_def le32_def by (simp add: parse_chunk_frame_nine)

lemma parse_chunk_frame_exact:
  "parse_chunk_frame b = Some ci \<longleftrightarrow>
     b = make_chunk_frame (ci_transfer_id ci) (ci_index ci) (ci_total ci) (ci_data ci) \<and>
     ci_index ci < ci_total ci"
proof
  assume p: "parse_chunk_frame b = Some ci"
  then have "9 \<le> length b" by (auto simp: parse_chunk_frame_def CHUNK_HEADER_SIZE_def split: if_splits)
  then obtain x0 x1 x2 x3 x4 x5 x6 x7 x8 d where b: "b = x0 # x1 # x2 # x3 # x4 # x5 # x6 # x7 # x8 # d"
    by (auto simp: numeral_eq_Suc Suc_le_length_iff)
  show "b = make_chunk_frame (ci_transfer_id ci) (ci_index ci) (ci_total ci) (ci_data ci) \<and>
     ci_index ci < ci_total ci"
    using p unfolding b
    by (auto simp: parse_chunk_frame_nine make_chunk_frame_eq split: if_splits)
qed (simp add: parse_make_chunk_frame)

section \<open>The pieces of a transfer\<close>

definition piece :: "nat \<Rightarrow> bytes \<Rightarrow> nat \<Rightarrow> bytes" where
  "piece cs data i = span_at (i * cs) (min cs (length data - i * cs)) data"

lemma piece_take: "piece cs data i = take cs (drop (i * cs) data)"
  by (simp add: piece_def span_at_def min_def)

lemma concat_pieces: "concat (map (piece cs data) [0..<n]) = take (n * cs) data"
  by (induction n) (simp_all add: piece_take take_add [symmetric] add.commute)

lemma chunk_total_covers:
  assumes "0 < cs" and "0 < len" and "len + cs \<le> 2 ^ 64" and "len \<le> 65535 * cs"
  shows "len \<le> unat (chunk_total len cs) * cs" and "0 < unat (chunk_total len cs)"
proof -
  let ?n = "(len + cs - 1) div cs"
  have "len + cs - 1 < 65536 * cs" using assms by (simp add: less_eq_Suc_le)
  then have n: "?n < 65536" by (rule less_mult_imp_div_less)
  have "unat (chunk_total len cs) = ?n"
    using assms n by (simp add: chunk_total_def unat_of_nat)
  moreover have "len \<le> ?n * cs"
  proof -
    have "(len + cs - 1) mod cs < cs" using assms by simp
    then show ?thesis using div_mult_mod_eq [of "len + cs - 1" cs] assms by linarith
  qed
  ultimately show "len \<le> unat (chunk_total len cs) * cs" and "0 < unat (chunk_total len cs)"
    using assms by (auto intro: gr0I)
qed

definition chunk_frame :: "u32 \<Rightarrow> u16 \<Rightarrow> nat \<Rightarrow> bytes \<Rightarrow> nat \<Rightarrow> bytes" where
  "chunk_frame tid tot cs data i = make_chunk_frame tid (word_of_nat i) tot (piece cs data i)"

lemma session_send_grows: "session_send s c m = (ok, s', c') \<Longrightarrow> \<exists>t. tx c' = tx c @ t"
  by (auto simp: session_send_def send_frame_def Let_def split: prod.splits if_splits bool.splits
      dest!: send_all_tx)

text \<open>
  The returned count is the number of chunks that went out whole; when it is \<open>tot\<close> nothing
  else was written.
\<close>

lemma send_chunks_sent:
  assumes "send_chunks tid tot i cs data s c = (k, s', c')" and "i \<le> tot"
  shows "i \<le> k \<and> k \<le> tot \<and>
    (\<exists>t. tx c' = tx c @ sealed_stream (k_send s) (send_ctr s)
        (map (chunk_frame tid tot cs data) [unat i..<unat k]) @ t \<and> (k = tot \<longrightarrow> t = []))"
  using assms
proof (induction tid tot i cs data s c rule: send_chunks.induct)
  case (1 tid tot i cs data s c)
  show ?case
  proof (cases "i < tot")
    case False
    then have "k = tot" "c' = c" "i = tot" using "1.prems" by (auto simp: send_chunks.simps)
    then show ?thesis by simp
  next
    case True
    let ?m = "make_chunk_frame tid i tot (piece cs data (unat i))"
    obtain ok s1 c1 where st: "session_send s c ?m = (ok, s1, c1)" by (metis prod.exhaust)
    have m: "?m = chunk_frame tid tot cs data (unat i)" by (simp add: chunk_frame_def)
    show ?thesis
    proof (cases ok)
      case False
      then have "k = i" "c' = c1" using "1.prems" True st
        by (auto simp: send_chunks.simps [of tid tot i] Let_def piece_def)
      then show ?thesis using session_send_grows [OF st] True by auto
    next
      case ok: True
      then have rec: "send_chunks tid tot (i + 1) cs data s1 c1 = (k, s', c')"
        using "1.prems" True st by (simp add: send_chunks.simps [of tid tot i] Let_def piece_def)
      have le: "i + 1 \<le> tot" using True by (simp add: inc_le)
      have f: "make_chunk_frame tid i tot (span_at (unat i * cs) (min cs (length data - unat i * cs)) data) = ?m"
        by (simp add: piece_def)
      have ih: "i + 1 \<le> k \<and> k \<le> tot \<and> (\<exists>t. tx c' = tx c1 @ sealed_stream (k_send s1) (send_ctr s1)
          (map (chunk_frame tid tot cs data) [unat (i + 1)..<unat k]) @ t \<and> (k = tot \<longrightarrow> t = []))"
        using "1.IH" [OF True refl refl refl] st ok rec le f by (metis (full_types))
      from ih have "unat i < unat k" using u16_next [OF True] by (simp add: word_le_nat_alt)
      then have "[unat i..<unat k] = unat i # [unat (i + 1)..<unat k]"
        using u16_next [OF True] by (simp add: upt_conv_Cons)
      then show ?thesis
        using ih session_send_sent [of s c ?m s1 c1] st ok \<open>unat i < unat k\<close>
        by (auto simp: m word_le_nat_alt)
    qed
  qed
qed

section \<open>Reassembly in any order\<close>

text \<open>The reassembler after the chunks with indices in \<open>S\<close> arrived.\<close>

definition part :: "bytes list \<Rightarrow> u16 \<Rightarrow> u16 set \<Rightarrow> chunk_reassembler" where
  "part chunks tot S =
     \<lparr>ra_slots = map (\<lambda>j. if word_of_nat j \<in> S then Some (chunks ! j) else None) [0..<unat tot],
      ra_total = tot, ra_received = word_of_nat (card S)\<rparr>"

lemma part_empty: "part chunks tot {} = new_reassembler tot"
  by (simp add: part_def new_reassembler_def map_replicate_const)

lemma below_card: "card {i :: u16. i < tot} = unat tot"
proof -
  have t: "unat tot < 2 ^ LENGTH(16)" by (rule unsigned_less)
  have "n \<in> unat ` {i :: u16. i < tot}" if "n < unat tot" for n
    using that t by (intro image_eqI [of _ _ "word_of_nat n"]) (auto simp: word_less_nat_alt unat_of_nat)
  then have "unat ` {i :: u16. i < tot} = {..<unat tot}" by (auto simp: word_less_nat_alt)
  moreover have "inj_on unat {i :: u16. i < tot}" by (auto simp: inj_on_def word_unat_eq_iff)
  ultimately show ?thesis by (metis card_image card_lessThan)
qed

lemma part_add:
  assumes "S \<subseteq> {i. i < tot}" and "i < tot"
  shows "reassembler_add i (chunks ! unat i) (part chunks tot S) =
    (if i \<notin> S \<and> insert i S = {i. i < tot} then Some (concat (map ((!) chunks) [0..<unat tot])) else None,
     part chunks tot (insert i S))"
proof (cases "i \<in> S")
  case True
  then show ?thesis using assms by (auto simp: reassembler_add_def part_def word_less_nat_alt insert_absorb)
next
  case False
  let ?S = "insert i S"
  have fin: "finite S" by simp
  have sub: "?S \<subseteq> {i. i < tot}" using assms by auto
  then have "card ?S \<le> unat tot" using card_mono [of "{i. i < tot}" ?S] below_card [of tot] by simp
  moreover have "unat tot < 2 ^ LENGTH(16)" by (rule unsigned_less)
  ultimately have c: "unat (word_of_nat (card ?S) :: u16) = card ?S" by (simp add: unat_of_nat)
  have full: "word_of_nat (card ?S) < tot \<longleftrightarrow> ?S \<noteq> {i. i < tot}"
    using sub card_seteq [of "{i. i < tot}" ?S] below_card [of tot] \<open>card ?S \<le> unat tot\<close>
    by (auto simp: word_less_nat_alt c)
  have sl: "(ra_slots (part chunks tot S))[unat i := Some (chunks ! unat i)] = ra_slots (part chunks tot ?S)"
  proof (rule nth_equalityI)
    fix j assume "j < length ((ra_slots (part chunks tot S))[unat i := Some (chunks ! unat i)])"
    then have j: "j < unat tot" by (simp add: part_def)
    then have "unat (word_of_nat j :: u16) = j" using \<open>unat tot < 2 ^ LENGTH(16)\<close> by (simp add: unat_of_nat)
    then show "(ra_slots (part chunks tot S))[unat i := Some (chunks ! unat i)] ! j =
        ra_slots (part chunks tot ?S) ! j"
      using j by (cases "j = unat i") (auto simp: part_def)
  qed (simp add: part_def)
  have rc: "ra_received (part chunks tot S) + 1 = ra_received (part chunks tot ?S)"
    using False fin by (simp add: part_def add.commute)
  have none: "ra_slots (part chunks tot S) ! unat i = None"
    using False assms(2) by (simp add: part_def word_less_nat_alt)
  have out: "concat (map the (ra_slots (part chunks tot ?S))) = concat (map ((!) chunks) [0..<unat tot])"
    if "?S = {i. i < tot}"
  proof -
    have "word_of_nat j \<in> ?S" if "j < unat tot" for j
      using that \<open>?S = {i. i < tot}\<close> \<open>unat tot < 2 ^ LENGTH(16)\<close>
      by (simp add: word_less_nat_alt unat_of_nat)
    then have "map the (ra_slots (part chunks tot ?S)) = map ((!) chunks) [0..<unat tot]"
      by (simp add: part_def)
    then show ?thesis by simp
  qed
  have st: "part chunks tot S\<lparr>ra_slots := ra_slots (part chunks tot ?S), ra_received := ra_received (part chunks tot ?S)\<rparr>
      = part chunks tot ?S" by (simp add: part_def)
  have tt: "ra_total (part chunks tot T) = tot" "ra_received (part chunks tot T) = word_of_nat (card T)" for T
    by (simp_all add: part_def)
  have "reassembler_add i (chunks ! unat i) (part chunks tot S) =
      (if word_of_nat (card ?S) < tot then (None, part chunks tot ?S)
       else (Some (concat (map the (ra_slots (part chunks tot ?S)))), part chunks tot ?S))"
    using assms(2) unfolding reassembler_add_def Let_def tt none sl
    by (simp add: sl rc st tt(1) not_le del: card_insert_disjoint)
      (auto simp: tt simp del: card_insert_disjoint)
  then show ?thesis using False full out by auto
qed

section \<open>Runs of the registry\<close>

text \<open>One arrival: clock reading, transfer, chunk index, announced total, data.\<close>

record arrival =
  at :: int
  a_tid :: u32
  a_index :: u16
  a_total :: u16
  a_data :: bytes

fun ingest_run :: "arrival list \<Rightarrow> transfer_registry \<Rightarrow> (u32 \<times> bytes option) list \<times> transfer_registry" where
  "ingest_run [] m = ([], m)"
| "ingest_run (e # es) m =
     (let (r, m) = registry_ingest (at e) (a_tid e) (a_index e) (a_total e) (a_data e) m;
          (rs, m) = ingest_run es m
      in ((a_tid e, r) # rs, m))"

lemma registry_ingest_local:
  assumes "m tid = m' tid"
  shows "fst (registry_ingest now tid i t d m) = fst (registry_ingest now tid i t d m')"
    and "snd (registry_ingest now tid i t d m) tid = snd (registry_ingest now tid i t d m') tid"
    and "tid' \<noteq> tid \<Longrightarrow> snd (registry_ingest now tid i t d m) tid' = m tid'"
  using assms by (auto simp: registry_ingest_def Let_def split: prod.splits)

lemma ingest_run_isolated:
  assumes "m tid = m' tid"
  shows "filter (\<lambda>(t, r). t = tid) (fst (ingest_run es m)) =
      fst (ingest_run (filter (\<lambda>e. a_tid e = tid) es) m') \<and>
    snd (ingest_run es m) tid = snd (ingest_run (filter (\<lambda>e. a_tid e = tid) es) m') tid"
  using assms
proof (induction es arbitrary: m m')
  case Nil
  then show ?case by simp
next
  case (Cons e es)
  let ?g = "registry_ingest (at e) (a_tid e) (a_index e) (a_total e) (a_data e)"
  show ?case
  proof (cases "a_tid e = tid")
    case True
    have "fst (?g m) = fst (?g m')" "snd (?g m) tid = snd (?g m') tid"
      using registry_ingest_local(1,2) [of m "a_tid e" m'] Cons.prems True by auto
    then show ?thesis using Cons.IH [of "snd (?g m)" "snd (?g m')"] True
      by (simp add: Let_def split_beta)
  next
    case False
    then have "snd (?g m) tid = m' tid"
      using registry_ingest_local(3) [of m "a_tid e" m tid] Cons.prems by auto
    then show ?thesis using Cons.IH [of "snd (?g m)" m'] False by (simp add: Let_def split_beta)
  qed
qed

text \<open>An honest arrival of one transfer: the announced total and the chunk that belongs to the index.\<close>

definition honest :: "u32 \<Rightarrow> u16 \<Rightarrow> bytes list \<Rightarrow> arrival \<Rightarrow> bool" where
  "honest tid tot chunks e \<longleftrightarrow>
     a_tid e = tid \<and> a_total e = tot \<and> a_index e < tot \<and> a_data e = chunks ! unat (a_index e)"

definition at_part :: "bytes list \<Rightarrow> u16 \<Rightarrow> u16 set \<Rightarrow> entry option \<Rightarrow> bool" where
  "at_part chunks tot S x \<longleftrightarrow>
     (case x of None \<Rightarrow> S = {} | Some e \<Rightarrow> asm e = part chunks tot S)"

lemma honest_ingest:
  assumes "honest tid tot chunks e" and "at_part chunks tot S (m tid)" and "S \<subseteq> {i. i < tot}"
    and "a_index e \<notin> S \<Longrightarrow> insert (a_index e) S \<noteq> {i. i < tot}"
  shows "\<exists>m'. registry_ingest (at e) tid (a_index e) tot (a_data e) m = (None, m') \<and>
    at_part chunks tot (insert (a_index e) S) (m' tid)"
proof -
  have h: "a_index e < tot" "a_data e = chunks ! unat (a_index e)" using assms(1) by (auto simp: honest_def)
  have a: "asm (case m tid of None \<Rightarrow> \<lparr>asm = new_reassembler tot, created = at e\<rparr> | Some x \<Rightarrow> x) = part chunks tot S"
    using assms(2) by (auto simp: at_part_def part_empty split: option.splits)
  have "reassembler_add (a_index e) (a_data e) (part chunks tot S) = (None, part chunks tot (insert (a_index e) S))"
    using part_add [OF assms(3) h(1), of chunks] assms(4) h(2) by auto
  then show ?thesis by (simp add: registry_ingest_def Let_def a at_part_def)
qed

lemma honest_prefix:
  assumes "list_all (honest tid tot chunks) es" and "at_part chunks tot S (m tid)" and "S \<subseteq> {i. i < tot}"
    and "S \<union> a_index ` set es \<noteq> {i. i < tot}"
  shows "fst (ingest_run es m) = map (\<lambda>e. (tid, None)) es \<and>
    at_part chunks tot (S \<union> a_index ` set es) (snd (ingest_run es m) tid)"
  using assms
proof (induction es arbitrary: m S)
  case Nil
  then show ?case by simp
next
  case (Cons e es)
  have h: "honest tid tot chunks e" and hs: "list_all (honest tid tot chunks) es" using Cons.prems by auto
  then have he: "a_tid e = tid" "a_total e = tot" "a_index e < tot" by (auto simp: honest_def)
  have sub: "insert (a_index e) S \<subseteq> {i. i < tot}" using Cons.prems(3) he by auto
  have rest: "a_index ` set es \<subseteq> {i. i < tot}" using hs by (auto simp: list_all_iff honest_def)
  have "insert (a_index e) S \<noteq> {i. i < tot}" using Cons.prems(4) rest by auto
  then obtain m' where m': "registry_ingest (at e) tid (a_index e) tot (a_data e) m = (None, m')"
    "at_part chunks tot (insert (a_index e) S) (m' tid)"
    using honest_ingest [of tid tot chunks e S m] h Cons.prems(2,3) by blast
  have "fst (ingest_run es m') = map (\<lambda>e. (tid, None)) es \<and>
      at_part chunks tot (insert (a_index e) S \<union> a_index ` set es) (snd (ingest_run es m') tid)"
    using Cons.prems(4) using Cons.IH [of "insert (a_index e) S" m'] hs m'(2) sub by simp
  then show ?case using m' he by (simp add: Let_def split_beta)
qed

lemma ingest_run_append:
  "ingest_run (es @ fs) m =
     (let (rs, m1) = ingest_run es m; (qs, m2) = ingest_run fs m1 in (rs @ qs, m2))"
  by (induction es arbitrary: m) (auto simp: Let_def split_beta)

text \<open>
  A transfer whose chunks arrive in any order, with any duplicates before the last missing
  one, delivers the data exactly once, with that last one, and leaves no entry behind.
\<close>

lemma transfer_completes:
  assumes "list_all (honest tid tot chunks) (es @ [e])" and "m tid = None"
    and "a_index e \<notin> a_index ` set es" and "a_index ` set (es @ [e]) = {i. i < tot}"
    and "length chunks = unat tot"
  shows "fst (ingest_run (es @ [e]) m) = map (\<lambda>e. (tid, None)) es @ [(tid, Some (concat chunks))] \<and>
    snd (ingest_run (es @ [e]) m) tid = None"
proof -
  let ?S = "a_index ` set es"
  have h: "list_all (honest tid tot chunks) es" "honest tid tot chunks e" using assms(1) by auto
  then have he: "a_tid e = tid" "a_total e = tot" "a_index e < tot" "a_data e = chunks ! unat (a_index e)"
    by (auto simp: honest_def)
  have ne: "?S \<noteq> {i. i < tot}" using assms(3) he by auto
  obtain rs m1 where run: "ingest_run es m = (rs, m1)" by (metis prod.exhaust)
  have "fst (ingest_run es m) = map (\<lambda>e. (tid, None)) es \<and> at_part chunks tot ({} \<union> ?S) (snd (ingest_run es m) tid)"
    using ne assms(2) by (intro honest_prefix [OF h(1)]) (auto simp: at_part_def)
  then have rs: "rs = map (\<lambda>e. (tid, None)) es" and p: "at_part chunks tot ?S (m1 tid)"
    by (simp_all add: run)
  have sub: "?S \<subseteq> {i. i < tot}" using h(1) by (auto simp: list_all_iff honest_def)
  have a: "asm (case m1 tid of None \<Rightarrow> \<lparr>asm = new_reassembler tot, created = at e\<rparr> | Some x \<Rightarrow> x) = part chunks tot ?S"
    using p by (auto simp: at_part_def part_empty split: option.splits)
  have "insert (a_index e) ?S = {i. i < tot}" using assms(4) by simp
  moreover have "concat (map ((!) chunks) [0..<unat tot]) = concat chunks"
    by (metis assms(5) map_nth)
  ultimately have "fst (reassembler_add (a_index e) (a_data e) (part chunks tot ?S)) = Some (concat chunks)"
    using part_add [OF sub he(3), of chunks] assms(3) he(4) by simp
  then obtain r where "reassembler_add (a_index e) (a_data e) (part chunks tot ?S) = (Some (concat chunks), r)"
    by (metis prod.collapse)
  then have "registry_ingest (at e) tid (a_index e) tot (a_data e) m1 =
      (Some (concat chunks), m1(tid := None))"
    by (simp add: registry_ingest_def Let_def a fun_upd_upd)
  then show ?thesis by (simp add: ingest_run_append run rs he Let_def)
qed

section \<open>Bounds of the registry\<close>

text \<open>
  The invariant behind the indexing \<open>slots_[index]\<close>, the dereference \<open>s->begin ()\<close> and the 16-bit
  counter \<open>received_\<close>.
\<close>

definition filled :: "bytes option list \<Rightarrow> nat" where
  "filled xs = length (filter (\<lambda>s. s \<noteq> None) xs)"

definition asm_inv :: "chunk_reassembler \<Rightarrow> bool" where
  "asm_inv r \<longleftrightarrow> length (ra_slots r) = unat (ra_total r) \<and> unat (ra_received r) = filled (ra_slots r)"

lemma filled_update: "i < length xs \<Longrightarrow> xs ! i = None \<Longrightarrow> filled (xs[i := Some d]) = Suc (filled xs)"
  by (induction xs arbitrary: i) (auto simp: filled_def nth_Cons split: nat.splits)

lemma filled_le: "filled xs \<le> length xs"
  by (simp add: filled_def)

lemma filled_all: "filled xs = length xs \<longleftrightarrow> None \<notin> set xs"
  unfolding filled_def by (metis (mono_tags, lifting) filter_id_conv length_filter_less less_irrefl)

lemma asm_inv_new: "asm_inv (new_reassembler t)"
  by (simp add: asm_inv_def new_reassembler_def filled_def)

lemma asm_inv_add:
  assumes "asm_inv r" and "reassembler_add i d r = (res, r')"
  shows "asm_inv r' \<and> (res \<noteq> None \<longrightarrow> None \<notin> set (ra_slots r')) \<and> ra_total r' = ra_total r"
proof (cases "ra_total r \<le> i \<or> ra_slots r ! unat i \<noteq> None")
  case True
  then show ?thesis using assms by (auto simp: reassembler_add_def)
next
  case False
  let ?s = "(ra_slots r)[unat i := Some d]"
  have i: "unat i < length (ra_slots r)" using False assms(1) by (simp add: asm_inv_def not_le word_less_nat_alt)
  have f: "filled ?s = Suc (unat (ra_received r))" using False i assms(1) by (simp add: filled_update asm_inv_def)
  have "unat (ra_total r) < 2 ^ LENGTH(16)" by (rule unsigned_less)
  moreover have "filled ?s \<le> unat (ra_total r)" using filled_le [of ?s] assms(1) by (simp add: asm_inv_def)
  ultimately have "Suc (unat (ra_received r)) < 2 ^ LENGTH(16)" using f by linarith
  then have rc: "unat (ra_received r + 1) = filled ?s" using f by (simp add: unat_word_ariths)
  have r': "r' = r\<lparr>ra_slots := ?s, ra_received := ra_received r + 1\<rparr>"
    and res: "res \<noteq> None \<Longrightarrow> \<not> ra_received r + 1 < ra_total r"
    using False assms(2) by (auto simp: reassembler_add_def Let_def split: if_splits)
  have "None \<notin> set ?s" if "res \<noteq> None"
    using res [OF that] filled_le [of ?s] filled_all [of ?s] assms(1)
    by (simp add: word_less_nat_alt rc asm_inv_def)
  then show ?thesis using assms(1) rc by (simp add: r' asm_inv_def)
qed

definition registry_inv :: "transfer_registry \<Rightarrow> bool" where
  "registry_inv m \<longleftrightarrow> (\<forall>tid e. m tid = Some e \<longrightarrow> asm_inv (asm e))"

lemma registry_inv_ingest:
  assumes "registry_inv m"
  shows "registry_inv (snd (registry_ingest now tid i t d m))"
proof -
  define e where "e = (case m tid of None \<Rightarrow> \<lparr>asm = new_reassembler t, created = now\<rparr> | Some e \<Rightarrow> e)"
  have "asm_inv (asm e)" using assms by (auto simp: e_def registry_inv_def asm_inv_new split: option.splits)
  then have "asm_inv (snd (reassembler_add i d (asm e)))" using asm_inv_add by (metis prod.collapse)
  then show ?thesis
    using assms unfolding registry_ingest_def e_def [symmetric]
    by (auto simp: registry_inv_def Let_def split: prod.splits if_splits)
qed

lemma registry_inv_prune: "registry_inv m \<Longrightarrow> registry_inv (registry_prune now ttl m)"
  by (auto simp: registry_inv_def registry_prune_def split: option.splits if_splits)

text \<open>A history of calls on one registry.\<close>

datatype registry_call = Ingest int u32 u16 u16 bytes | Prune int int

fun registry_exec :: "registry_call \<Rightarrow> transfer_registry \<Rightarrow> transfer_registry" where
  "registry_exec (Ingest now tid i t d) m = snd (registry_ingest now tid i t d m)"
| "registry_exec (Prune now ttl) m = registry_prune now ttl m"

lemma registry_inv_run: "registry_inv m \<Longrightarrow> registry_inv (fold registry_exec cs m)"
proof (induction cs arbitrary: m)
  case (Cons c cs)
  then show ?case by (cases c) (simp_all add: registry_inv_ingest registry_inv_prune)
qed simp

section \<open>Properties\<close>

text \<open>
  C19. Concurrent transfers do not disturb each other and each completes: in any interleaving of
  chunks of any transfers, a transfer whose own chunks arrive in any order, with any duplicates
  before the last missing chunk, yields nothing until that chunk and then exactly its data,
  once, and its entry is removed.
\<close>

theorem transfer_reassembles_in_any_order:
  assumes "filter (\<lambda>e. a_tid e = tid) es = fs @ [e]" and "list_all (honest tid tot chunks) (fs @ [e])"
    and "m tid = None" and "a_index e \<notin> a_index ` set fs"
    and "a_index ` set (fs @ [e]) = {i. i < tot}" and "length chunks = unat tot"
  shows "filter (\<lambda>(t, r). t = tid) (fst (ingest_run es m)) =
      map (\<lambda>_. (tid, None)) fs @ [(tid, Some (concat chunks))] \<and>
    snd (ingest_run es m) tid = None"
  using ingest_run_isolated [of m tid m es] transfer_completes [of tid tot chunks fs e m] assms by simp

definition arr :: "u32 \<Rightarrow> u16 \<Rightarrow> u16 \<Rightarrow> bytes \<Rightarrow> arrival" where
  "arr t i n d = \<lparr>at = 0, a_tid = t, a_index = i, a_total = n, a_data = d\<rparr>"

theorem transfer_reassembles_in_any_order_witness:
  "filter (\<lambda>(t, r). t = 7) (fst (ingest_run
       [arr 7 1 2 [5], arr 8 0 2 [9], arr 7 1 2 [5], arr 7 0 2 [4]] (\<lambda>_. None))) =
     [(7, None), (7, None), (7, Some [4, 5])]"
proof -
  have two: "{i :: u16. i < 2} = {0, 1}"
  proof (rule set_eqI)
    fix i :: u16
    have "i = 0 \<or> i = 1 \<longleftrightarrow> unat i = 0 \<or> unat i = 1" by (auto simp: word_unat_eq_iff)
    then show "i \<in> {i. i < 2} \<longleftrightarrow> i \<in> {0, 1}" by (auto simp: word_less_nat_alt)
  qed
  show ?thesis
    using transfer_reassembles_in_any_order [of 7 "[arr 7 1 2 [5], arr 8 0 2 [9], arr 7 1 2 [5], arr 7 0 2 [4]]"
        "[arr 7 1 2 [5], arr 7 1 2 [5]]" "arr 7 0 2 [4]" 2 "[[4], [5]]" "\<lambda>_. None"]
    by (simp add: arr_def honest_def two insert_commute del: ingest_run.simps)
qed

text \<open>
  \<open>parse_chunk_frame\<close> accepts exactly the frames \<open>make_chunk_frame\<close> builds for an index below the
  total, and returns what they were built from.
\<close>

theorem chunk_frames_round_trip:
  "parse_chunk_frame b = Some ci \<longleftrightarrow>
     b = make_chunk_frame (ci_transfer_id ci) (ci_index ci) (ci_total ci) (ci_data ci) \<and>
     ci_index ci < ci_total ci"
  by (rule parse_chunk_frame_exact)

text \<open>
  C38. The registry never indexes a slot out of range, never dereferences an empty slot and never
  wraps its counter, whatever sequence of \<open>ingest\<close> and \<open>prune\<close> calls with whatever arguments it
  sees: every entry keeps one slot per announced chunk and counts exactly the filled ones, and
  a payload is returned only when all slots are filled.
\<close>

theorem registry_stays_in_bounds:
  assumes "fold registry_exec calls (\<lambda>_. None) tid = Some e"
  shows "length (ra_slots (asm e)) = unat (ra_total (asm e)) \<and>
    unat (ra_received (asm e)) = length (filter (\<lambda>s. s \<noteq> None) (ra_slots (asm e))) \<and>
    (fst (reassembler_add i d (asm e)) \<noteq> None \<longrightarrow>
       None \<notin> set (ra_slots (snd (reassembler_add i d (asm e)))))"
proof -
  have "registry_inv (fold registry_exec calls (\<lambda>_. None))"
    by (rule registry_inv_run) (simp add: registry_inv_def)
  then have "asm_inv (asm e)" using assms by (simp add: registry_inv_def)
  moreover from this have "fst (reassembler_add i d (asm e)) \<noteq> None \<Longrightarrow>
      None \<notin> set (ra_slots (snd (reassembler_add i d (asm e))))"
    using asm_inv_add [OF _ prod.collapse [symmetric]] by blast
  ultimately show ?thesis by (simp add: asm_inv_def filled_def)
qed

theorem registry_stays_in_bounds_witness:
  "\<exists>e. fold registry_exec [Ingest 0 7 1 3 [5], Prune 10 60] (\<lambda>_. None) 7 = Some e \<and>
     length (ra_slots (asm e)) = 3"
proof -
  let ?e = "\<lparr>asm = \<lparr>ra_slots = [None, Some [5], None], ra_total = 3, ra_received = 1\<rparr>, created = 0\<rparr>"
  have e: "fold registry_exec [Ingest 0 7 1 3 [5], Prune 10 60] (\<lambda>_. None) 7 = Some ?e"
    by code_simp
  from registry_stays_in_bounds [OF e] e show ?thesis by simp
qed

text \<open>
  \<open>send_chunked\<close> reports honestly: the returned number is the number of chunks whose frames went
  out complete, in order and with consecutive nonces, and if it equals the total then nothing
  else was written and the chunks put together are the data up to \<open>total * chunk_size\<close> bytes.
\<close>

theorem send_chunked_reports_chunks_sent:
  assumes "send_chunked tid s c data cs = (k, s', c')" and "data \<noteq> []" and "0 < cs"
  shows "k \<le> chunk_total (length data) cs \<and>
    (\<exists>t. tx c' = tx c @ sealed_stream (k_send s) (send_ctr s)
        (map (chunk_frame tid (chunk_total (length data) cs) cs data) [0..<unat k]) @ t \<and>
      (k = chunk_total (length data) cs \<longrightarrow> t = [])) \<and>
    concat (map (piece cs data) [0..<unat k]) = take (unat k * cs) data"
  using send_chunks_sent [of tid "chunk_total (length data) cs" 0 cs data s c k s' c'] assms
  by (simp add: send_chunked_def Let_def concat_pieces)

theorem send_chunked_reports_chunks_sent_witness:
  "fst (send_chunked 1 sample_session (idle_conn [] []) [1, 2, 3] 2) \<le> chunk_total 3 2"
proof -
  obtain k s' c' where "send_chunked 1 sample_session (idle_conn [] []) [1, 2, 3] 2 = (k, s', c')"
    by (metis prod.exhaust)
  moreover have len: "length [1, 2, 3 :: byte] = 3" by simp
  ultimately show ?thesis
    using send_chunked_reports_chunks_sent [of 1 sample_session "idle_conn [] []" "[1, 2, 3]" 2]
    unfolding len by auto
qed



end
