(* ===== verification/File_Transfer.thy ===== *)
theory File_Transfer
  imports Chunker
begin

text \<open>
  One chunked transfer from end to end: the chunk frames \<open>send_chunked\<close> puts into a session are
  deliverable, parse as chunks, and complete the transfer at the last of them when they are
  handed to the registry in the order they were sent.
\<close>

text \<open>What the receive loop hands to the registry for a parsed chunk.\<close>

definition arrival_of :: "int \<Rightarrow> chunk_info \<Rightarrow> arrival" where
  "arrival_of now ci = \<lparr>at = now, a_tid = ci_transfer_id ci, a_index = ci_index ci,
     a_total = ci_total ci, a_data = ci_data ci\<rparr>"

lemma unat_below_total: "i < unat t \<Longrightarrow> unat (word_of_nat i :: u16) = i" for t :: u16
proof -
  assume "i < unat t"
  moreover have "unat t < 2 ^ LENGTH(16)" by (rule unsigned_less)
  ultimately have "i < 2 ^ LENGTH(16)" by (rule less_trans)
  then show ?thesis by (simp add: unat_of_nat)
qed

lemma below_total: "i < unat t \<Longrightarrow> word_of_nat i < (t :: u16)"
  using unat_below_total [of i t] by (simp add: word_less_nat_alt)

lemma chunk_frame_deliverable:
  assumes "cs + 38 \<le> frame_cap"
  shows "deliverable (chunk_frame tid t cs data i)"
  using assms by (simp add: deliverable_def chunk_frame_def make_chunk_frame_eq piece_take le16_def le32_def)

lemma parse_chunk_frame_sent:
  assumes "i < unat t"
  shows "parse_chunk_frame (chunk_frame tid t cs data i) =
    Some \<lparr>ci_transfer_id = tid, ci_index = word_of_nat i, ci_total = t, ci_data = piece cs data i\<rparr>"
  using below_total [OF assms] by (simp add: chunk_frame_def parse_make_chunk_frame)

lemma image_words_below: "word_of_nat ` {0..<unat t} = {i :: u16. i < t}"
proof (rule set_eqI)
  fix i :: u16
  have "i \<in> word_of_nat ` {0..<unat t}" if "i < t"
    using that by (intro image_eqI [of _ _ "unat i"]) (auto simp: word_less_nat_alt)
  then show "i \<in> word_of_nat ` {0..<unat t} \<longleftrightarrow> i \<in> {i. i < t}" by (auto simp: below_total)
qed

text \<open>Ingesting the chunks of one transfer in the order they were sent.\<close>

lemma ingest_sent_chunks:
  fixes t :: u16
  assumes "0 < unat t" and "reg tid = None"
  shows "\<exists>reg'. ingest_run (map (\<lambda>i. arrival_of now (the (parse_chunk_frame (chunk_frame tid t cs data i))))
      [0..<unat t]) reg =
    (replicate (unat t - 1) (tid, None) @ [(tid, Some (take (unat t * cs) data))], reg') \<and> reg' tid = None"
proof -
  let ?a = "\<lambda>i. arrival_of now (the (parse_chunk_frame (chunk_frame tid t cs data i)))"
  let ?n = "unat t - 1" and ?ch = "map (piece cs data) [0..<unat t]"
  have a: "?a i = \<lparr>at = now, a_tid = tid, a_index = word_of_nat i, a_total = t, a_data = piece cs data i\<rparr>"
    if "i < unat t" for i using that by (simp add: parse_chunk_frame_sent arrival_of_def)
  have split: "map ?a [0..<unat t] = map ?a [0..<?n] @ [?a ?n]"
    using assms(1) upt_Suc [of 0 ?n] by simp
  have h: "honest tid t ?ch (?a i)" if "i < unat t" for i
    using that by (simp add: a honest_def below_total unat_below_total)
  then have hs: "list_all (honest tid t ?ch) (map ?a [0..<?n] @ [?a ?n])"
    unfolding split [symmetric] by (simp add: list_all_iff)
  have idx: "a_index ` set (map ?a [0..<k]) = word_of_nat ` {0..<k}" if "k \<le> unat t" for k
  proof -
    have "a_index (?a i) = word_of_nat i" if "i < k" for i using a [of i] that \<open>k \<le> unat t\<close> by simp
    then show ?thesis by (auto simp: image_image)
  qed
  have new: "a_index (?a ?n) \<notin> a_index ` set (map ?a [0..<?n])"
  proof -
    have "unat (word_of_nat i :: u16) = i" if "i < unat t" for i using that by (rule unat_below_total)
    moreover have "?n < unat t" using assms(1) by simp
    ultimately have "(word_of_nat ?n :: u16) \<notin> word_of_nat ` {0..<?n}"
      by (metis (no_types, lifting) atLeastLessThan_iff imageE less_irrefl less_trans)
    then show ?thesis using idx [of ?n] a [of ?n] \<open>?n < unat t\<close> by simp
  qed
  have "fst (ingest_run (map ?a [0..<?n] @ [?a ?n]) reg) =
        map (\<lambda>e. (tid, None)) (map ?a [0..<?n]) @ [(tid, Some (concat ?ch))] \<and>
      snd (ingest_run (map ?a [0..<?n] @ [?a ?n]) reg) tid = None"
  proof (rule transfer_completes [OF hs _ new])
    show "a_index ` set (map ?a [0..<?n] @ [?a ?n]) = {i. i < t}"
      unfolding split [symmetric] using idx [of "unat t"] image_words_below [of t] by (simp only: order_refl)
  qed (simp_all add: assms(2))
  moreover have "map (\<lambda>e. (tid, None)) (map ?a [0..<?n]) = replicate ?n (tid, None :: bytes option)"
    by (simp only: map_replicate_const length_map length_upt minus_nat.diff_0)
  ultimately show ?thesis
    unfolding split [symmetric] concat_pieces by (intro exI [of _ "snd (ingest_run (map ?a [0..<unat t]) reg)"])
      (simp add: prod_eq_iff)
qed

text \<open>All chunks of a file that was sent whole are received and yield the file at the last one.\<close>

lemma sent_file_received:
  assumes "send_chunked tid s c data cs = (chunk_total (length data) cs, s', c')"
    and "data \<noteq> []" and "0 < cs" and "cs + 38 \<le> frame_cap" and "length data \<le> 65535 * cs"
    and "tx c = []" and "k_recv r = k_send s" and "live d" and "stream d = tx c'" and "reg tid = None"
  shows "\<exists>ms d' reg'. session_recvs (unat (chunk_total (length data) cs)) r d = (ms, d') \<and>
    length ms = unat (chunk_total (length data) cs) \<and> list_all (\<lambda>m. parse_chunk_frame m \<noteq> None) ms \<and>
    ingest_run (map (\<lambda>m. arrival_of now (the (parse_chunk_frame m))) ms) reg =
      (replicate (unat (chunk_total (length data) cs) - 1) (tid, None) @ [(tid, Some data)], reg') \<and>
    reg' tid = None"
proof -
  let ?t = "chunk_total (length data) cs"
  let ?ms = "map (chunk_frame tid ?t cs data) [0..<unat ?t]"
  have small: "length data + cs \<le> 2 ^ 64" using assms(4,5) by (simp add: frame_cap_def)
  have cover: "length data \<le> unat ?t * cs" "0 < unat ?t"
    using chunk_total_covers [OF assms(3) _ small assms(5)] assms(2) by simp_all
  have "send_chunks tid ?t 0 cs data s c = (?t, s', c')"
    using assms(1-3) by (simp add: send_chunked_def Let_def)
  from send_chunks_sent [OF this] have "tx c' = sealed_stream (k_send s) (send_ctr s) ?ms"
    using assms(6) by auto
  then have st: "stream d = sealed_stream (k_recv r) (send_ctr s) ?ms @ []" using assms(7,9) by simp
  have "list_all deliverable ?ms" using chunk_frame_deliverable [OF assms(4)] by (simp add: list_all_iff)
  from session_recvs_stream [OF assms(8) st this] obtain d' where
    "session_recvs (unat ?t) r d = (?ms, d')" by auto
  moreover have "length ?ms = unat ?t" by simp
  moreover have "list_all (\<lambda>m. parse_chunk_frame m \<noteq> None) ?ms"
    by (simp add: list_all_iff parse_chunk_frame_sent)
  moreover have "map (\<lambda>m. arrival_of now (the (parse_chunk_frame m))) ?ms =
      map (\<lambda>i. arrival_of now (the (parse_chunk_frame (chunk_frame tid ?t cs data i)))) [0..<unat ?t]"
    by simp
  ultimately show ?thesis
    using ingest_sent_chunks [of ?t reg tid now cs data] cover assms(10) by (metis take_all)
qed

end
