(* ===== verification/Coordinator.thy ===== *)
theory Coordinator
  imports Wire Tcp
begin

text \<open>
  The coordinator of \<open>src/coordinator/coordinator.hpp\<close> and \<open>src/coordinator/coordinator.cpp\<close>: the
  peer table guarded by a mutex, the two critical sections on it, the body of the connection
  loop, and the server as a step relation in which the connection threads interleave. A
  connection thread touches shared state only inside one critical section per message, so one
  iteration of its loop is one step.

  Clock readings are nanoseconds and are arguments of the operations; \<open>inet_pton\<close> is the
  parameter \<open>pton\<close>, which returns the four address bytes or \<open>None\<close> when the text is not an
  address.
\<close>

section \<open>The peer table\<close>

record timed_peer =
  tp_pi :: peer_info
  last_seen :: int

type_synonym peer_table = "timed_peer list"

definition PEER_TTL :: int where
  "PEER_TTL = 30 * 10 ^ 9"

text \<open>\<open>std::find_if\<close> on the key, then the assignment to the entry found or \<open>push_back\<close>.\<close>

fun register_peer :: "int \<Rightarrow> peer_info \<Rightarrow> peer_table \<Rightarrow> peer_table" where
  "register_peer now pi [] = [\<lparr>tp_pi = pi, last_seen = now\<rparr>]"
| "register_peer now pi (tp # tps) =
     (if pubkey (tp_pi tp) = pubkey pi then tp\<lparr>tp_pi := pi, last_seen := now\<rparr> # tps
      else tp # register_peer now pi tps)"

fun live_peers :: "int \<Rightarrow> peer_table \<Rightarrow> peer_info list" where
  "live_peers now [] = []"
| "live_peers now (tp # tps) =
     (if now - last_seen tp \<le> PEER_TTL then tp_pi tp # live_peers now tps else live_peers now tps)"

section \<open>The connection loop\<close>

text \<open>
  One iteration of \<open>while (true)\<close>; the flag is \<open>False\<close> when the iteration leaves the loop.
\<close>

definition handle_message ::
  "(string \<Rightarrow> bytes option) \<Rightarrow> int \<Rightarrow> peer_table \<Rightarrow> tcp_connection \<Rightarrow> bool \<times> peer_table \<times> tcp_connection" where
  "handle_message pton now peers conn =
     (case recv_frame conn of
        (None, conn) \<Rightarrow> (False, peers, conn)
      | (Some frame, conn) \<Rightarrow>
          (case get_type frame of
             Register_node \<Rightarrow>
               (case parse_register frame of
                  None \<Rightarrow> (False, peers, conn)
                | Some r \<Rightarrow>
                    (case pton (peer_ip conn) of
                       None \<Rightarrow> (False, peers, conn)
                     | Some addr \<Rightarrow>
                         let pi = \<lparr>ip = addr, port = reg_port r, pubkey = reg_pubkey r\<rparr>;
                             peers = register_peer now pi peers;
                             (_, conn) = send_frame build_ok conn
                         in (True, peers, conn)))
           | Get_peers \<Rightarrow>
               let snapshot = live_peers now peers;
                   (_, conn) = send_frame (build_peer_list snapshot) conn
               in (True, peers, conn)
           | _ \<Rightarrow> (False, peers, conn)))"

text \<open>
  The whole loop of one connection that is served alone, with the clock reading of each
  iteration. It ends because every iteration takes a frame from the finite input.
\<close>

lemma recv_frame_shrinks: "recv_frame c = (Some d, c') \<Longrightarrow> length (stream c') < length (stream c)"
  using recv_frame_some [of c d c'] by (auto simp: frame_bytes_def)

lemma stream_send_frame: "stream (snd (send_frame d c)) = stream c"
proof -
  obtain ok c' where "send_frame d c = (ok, c')" by (metis prod.exhaust)
  then show ?thesis
    by (auto simp: send_frame_def stream_def split: prod.splits if_splits dest!: send_all_tx)
qed

text \<open>The four ways an iteration can go.\<close>

lemma handle_message_cases:
  assumes "handle_message pton now peers conn = (b, peers', conn')"
  obtains (stop) "\<not> b" "peers' = peers"
  | (registered) f c r addr where "recv_frame conn = (Some f, c)" "get_type f = Register_node"
      "parse_register f = Some r" "pton (peer_ip conn) = Some addr" "b"
      "peers' = register_peer now \<lparr>ip = addr, port = reg_port r, pubkey = reg_pubkey r\<rparr> peers"
      "conn' = snd (send_frame build_ok c)"
  | (listed) f c where "recv_frame conn = (Some f, c)" "get_type f = Get_peers" "b" "peers' = peers"
      "conn' = snd (send_frame (build_peer_list (live_peers now peers)) c)"
proof -
  obtain fo c where rf: "recv_frame conn = (fo, c)" by (metis prod.exhaust)
  show ?thesis
  proof (cases fo)
    case None
    then show ?thesis using assms rf stop by (simp add: handle_message_def)
  next
    case (Some f)
    then have ip: "peer_ip c = peer_ip conn" using recv_frame_some rf by blast
    show ?thesis
    proof (cases "get_type f")
      case Register_node
      then have m: "handle_message pton now peers conn =
          (case parse_register f of None \<Rightarrow> (False, peers, c) | Some r \<Rightarrow>
            (case pton (peer_ip conn) of None \<Rightarrow> (False, peers, c) | Some addr \<Rightarrow>
               (True, register_peer now \<lparr>ip = addr, port = reg_port r, pubkey = reg_pubkey r\<rparr> peers,
                snd (send_frame build_ok c))))"
        using rf Some ip by (simp add: handle_message_def Let_def split_beta split: option.splits)
      show ?thesis
      proof (cases "parse_register f")
        case None
        then show ?thesis using assms m stop by simp
      next
        case r: (Some r)
        show ?thesis
        proof (cases "pton (peer_ip conn)")
          case None
          then show ?thesis using assms m r by (intro stop) simp_all
        next
          case a: (Some addr)
          show ?thesis
            by (rule registered [of f c r addr]) (use assms m r a rf Some Register_node in simp_all)
        qed
      qed
    next
      case Get_peers
      then have "handle_message pton now peers conn =
          (True, peers, snd (send_frame (build_peer_list (live_peers now peers)) c))"
        using rf Some by (simp add: handle_message_def Let_def split_beta)
      then show ?thesis using assms listed [of f c] rf Some Get_peers by simp
    qed (use assms rf Some stop in \<open>auto simp: handle_message_def\<close>)
  qed
qed

lemma handle_message_shrinks:
  assumes "handle_message pton now peers conn = (True, peers', conn')"
  shows "length (stream conn') < length (stream conn)"
  using assms by (cases rule: handle_message_cases) (auto simp: stream_send_frame dest: recv_frame_shrinks)

function serve :: "(string \<Rightarrow> bytes option) \<Rightarrow> (nat \<Rightarrow> int) \<Rightarrow> nat \<Rightarrow> peer_table \<Rightarrow> tcp_connection \<Rightarrow> peer_table \<times> tcp_connection" where
  "serve pton clock k peers conn =
     (case handle_message pton (clock k) peers conn of
        (False, peers, conn) \<Rightarrow> (peers, conn)
      | (True, peers, conn) \<Rightarrow> serve pton clock (Suc k) peers conn)"
  by pat_completeness auto
termination
  by (relation "measure (\<lambda>(pton, clock, k, peers, conn). length (stream conn))")
    (auto dest: handle_message_shrinks [OF sym])

declare serve.simps [simp del]

section \<open>The server\<close>

record server_state =
  srv_peers :: peer_table
  srv_conns :: "nat \<rightharpoonup> tcp_connection"

text \<open>A thread is started per accepted connection; each step runs one iteration of one thread.\<close>

inductive server_step :: "(string \<Rightarrow> bytes option) \<Rightarrow> server_state \<Rightarrow> server_state \<Rightarrow> bool"
  for pton :: "string \<Rightarrow> bytes option" where
  accept: "srv_conns s n = None \<Longrightarrow>
    server_step pton s (s\<lparr>srv_conns := (srv_conns s)(n \<mapsto> conn)\<rparr>)"
| serve_one: "srv_conns s n = Some conn \<Longrightarrow>
    handle_message pton now (srv_peers s) conn = (True, peers', conn') \<Longrightarrow>
    server_step pton s \<lparr>srv_peers = peers', srv_conns = (srv_conns s)(n \<mapsto> conn')\<rparr>"
| disconnect: "srv_conns s n = Some conn \<Longrightarrow>
    handle_message pton now (srv_peers s) conn = (False, peers', conn') \<Longrightarrow>
    server_step pton s \<lparr>srv_peers = peers', srv_conns = (srv_conns s)(n := None)\<rparr>"

inductive server_reach :: "(string \<Rightarrow> bytes option) \<Rightarrow> server_state \<Rightarrow> bool"
  for pton :: "string \<Rightarrow> bytes option" where
  init: "server_reach pton \<lparr>srv_peers = [], srv_conns = (\<lambda>_. None)\<rparr>"
| step: "server_reach pton s \<Longrightarrow> server_step pton s s' \<Longrightarrow> server_reach pton s'"

inductive_cases server_stepE: "server_step pton s s'"

section \<open>The contract of the peer table\<close>

text \<open>
  The table promises what a map from public keys to the latest registration promises. The
  locale states that contract; what it implies for runs of registrations is proved inside.
\<close>

locale peer_directory =
  fixes inv :: "'d \<Rightarrow> bool" and empty :: 'd
    and lookup :: "'d \<Rightarrow> bytes \<Rightarrow> (peer_info \<times> int) option"
    and register :: "int \<Rightarrow> peer_info \<Rightarrow> 'd \<Rightarrow> 'd"
    and snapshot :: "int \<Rightarrow> 'd \<Rightarrow> peer_info list"
    and ttl :: int
  assumes inv_empty: "inv empty"
    and inv_register: "inv d \<Longrightarrow> inv (register now p d)"
    and lookup_empty: "lookup empty k = None"
    and lookup_register: "inv d \<Longrightarrow>
      lookup (register now p d) k = (if k = pubkey p then Some (p, now) else lookup d k)"
    and in_snapshot: "inv d \<Longrightarrow>
      p \<in> set (snapshot now d) \<longleftrightarrow> (\<exists>t. lookup d (pubkey p) = Some (p, t) \<and> now - t \<le> ttl)"
begin

definition registrations :: "(int \<times> peer_info) list \<Rightarrow> 'd \<Rightarrow> 'd" where
  "registrations rs d = fold (\<lambda>(now, p). register now p) rs d"

lemma inv_registrations: "inv d \<Longrightarrow> inv (registrations rs d)"
  by (induction rs arbitrary: d) (auto simp: registrations_def inv_register)

lemma registrations_snoc: "registrations (rs @ [(now, p)]) d = register now p (registrations rs d)"
  by (simp add: registrations_def)

text \<open>The latest registration of a key is the one that counts.\<close>

lemma lookup_registrations:
  "lookup (registrations rs empty) k =
     map_option (\<lambda>(t, p). (p, t)) (find (\<lambda>(t, p). pubkey p = k) (rev rs))"
proof (induction rs rule: rev_induct)
  case Nil
  then show ?case by (simp add: registrations_def lookup_empty)
next
  case (snoc r rs)
  obtain t p where r: "r = (t, p)" by force
  show ?case
    using snoc inv_registrations [OF inv_empty, of rs]
    by (auto simp: r registrations_snoc lookup_register)
qed

lemma snapshot_registrations:
  "p \<in> set (snapshot now (registrations rs empty)) \<longleftrightarrow>
     (\<exists>t. find (\<lambda>(t, q). pubkey q = pubkey p) (rev rs) = Some (t, p) \<and> now - t \<le> ttl)"
  using in_snapshot [OF inv_registrations [OF inv_empty, of rs]]
  by (auto simp: lookup_registrations)

end

section \<open>The table meets the contract\<close>

definition table_keys :: "peer_table \<Rightarrow> bytes list" where
  "table_keys ps = map (pubkey \<circ> tp_pi) ps"

definition table_inv :: "peer_table \<Rightarrow> bool" where
  "table_inv ps \<longleftrightarrow> distinct (table_keys ps)"

definition table_lookup :: "peer_table \<Rightarrow> bytes \<Rightarrow> (peer_info \<times> int) option" where
  "table_lookup ps k =
     map_option (\<lambda>tp. (tp_pi tp, last_seen tp)) (find (\<lambda>tp. pubkey (tp_pi tp) = k) ps)"

lemma table_keys_register:
  "table_keys (register_peer now p ps) =
     (if pubkey p \<in> set (table_keys ps) then table_keys ps else table_keys ps @ [pubkey p])"
  by (induction ps) (auto simp: table_keys_def)

lemma register_inv: "table_inv ps \<Longrightarrow> table_inv (register_peer now p ps)"
  by (auto simp: table_inv_def table_keys_register)

lemma lookup_register_peer:
  "table_lookup (register_peer now p ps) k =
     (if k = pubkey p then Some (p, now) else table_lookup ps k)"
  by (induction ps) (auto simp: table_lookup_def)

lemma in_live_peers:
  "p \<in> set (live_peers now ps) \<longleftrightarrow> (\<exists>tp \<in> set ps. tp_pi tp = p \<and> now - last_seen tp \<le> PEER_TTL)"
  by (induction ps) auto

lemma lookup_iff:
  assumes "table_inv ps"
  shows "table_lookup ps k = Some (p, t) \<longleftrightarrow>
    (\<exists>tp \<in> set ps. tp_pi tp = p \<and> last_seen tp = t \<and> pubkey p = k)"
  using assms
proof (induction ps)
  case Nil
  then show ?case by (simp add: table_lookup_def)
next
  case (Cons tp ps)
  then have "table_inv ps" "pubkey (tp_pi tp) \<notin> pubkey ` tp_pi ` set ps"
    by (auto simp: table_inv_def table_keys_def image_image)
  then show ?case using Cons.IH by (auto simp: table_lookup_def)
qed

interpretation peers: peer_directory table_inv "[]" table_lookup register_peer live_peers PEER_TTL
proof unfold_locales
  show "table_inv []" "table_lookup [] k = None" for k
    by (simp_all add: table_inv_def table_keys_def table_lookup_def)
  show "table_inv (register_peer now p d)" if "table_inv d" for now p d
    using that by (rule register_inv)
  show "table_lookup (register_peer now p d) k = (if k = pubkey p then Some (p, now) else table_lookup d k)"
    for now p d k by (rule lookup_register_peer)
  show "p \<in> set (live_peers now d) \<longleftrightarrow>
      (\<exists>t. table_lookup d (pubkey p) = Some (p, t) \<and> now - t \<le> PEER_TTL)" if "table_inv d" for now p d
    using lookup_iff [OF that] by (auto simp: in_live_peers)
qed

text \<open>The snapshot keeps the table's order and therefore has no key twice.\<close>

lemma live_peers_filter:
  "live_peers now ps = map tp_pi (filter (\<lambda>tp. now - last_seen tp \<le> PEER_TTL) ps)"
  by (induction ps) auto

lemma live_peers_distinct: "table_inv ps \<Longrightarrow> distinct (map pubkey (live_peers now ps))"
  by (induction ps) (auto simp: table_inv_def table_keys_def in_live_peers image_iff)

section \<open>What a message does\<close>

lemma handle_peers:
  assumes "handle_message pton now peers conn = (b, peers', conn')"
  shows "peers' = peers \<or> (\<exists>addr (r :: parsed_register). pton (peer_ip conn) = Some addr \<and> length (reg_pubkey r) = 32 \<and>
    peers' = register_peer now \<lparr>ip = addr, port = reg_port r, pubkey = reg_pubkey r\<rparr> peers)"
  using assms
proof (cases rule: handle_message_cases)
  case (registered f c r addr)
  then have "length (reg_pubkey r) = 32" by (simp add: parse_register_exact)
  with registered show ?thesis by blast
qed simp_all

text \<open>Every table entry has a four-byte address and a 32-byte key, and no key occurs twice.\<close>

definition table_wf :: "peer_table \<Rightarrow> bool" where
  "table_wf ps \<longleftrightarrow> table_inv ps \<and> list_all (\<lambda>tp. wf_peer (tp_pi tp)) ps"

lemma register_wf: "list_all (\<lambda>tp. wf_peer (tp_pi tp)) ps \<Longrightarrow> wf_peer p \<Longrightarrow>
  list_all (\<lambda>tp. wf_peer (tp_pi tp)) (register_peer now p ps)"
  by (induction ps) auto

lemma handle_wf:
  assumes "handle_message pton now peers conn = (b, peers', conn')" and "table_wf peers"
    and "\<And>t a. pton t = Some a \<Longrightarrow> length a = 4"
  shows "table_wf peers'"
proof -
  have "table_wf (register_peer now p peers)" if "wf_peer p" for p
    using that assms(2) by (simp add: table_wf_def register_inv register_wf)
  then show ?thesis
    using handle_peers [OF assms(1)] assms(2,3) by (metis peer_info.select_convs(1,3) wf_peer_def)
qed

lemma server_reach_wf:
  assumes "server_reach pton s" and "\<And>t a. pton t = Some a \<Longrightarrow> length a = 4"
  shows "table_wf (srv_peers s)"
  using assms(1)
proof (induction rule: server_reach.induct)
  case init
  then show ?case by (simp add: table_wf_def table_inv_def table_keys_def)
next
  case (step s s')
  from step(2) show ?case
    by (cases rule: server_stepE) (use step(3) assms(2) in \<open>auto dest: handle_wf\<close>)
qed

section \<open>Properties\<close>

text \<open>
  C20. In every state the server can reach, however the connection threads interleave and whatever
  they are sent, no public key occurs twice in the peer table and every entry has a 4-byte
  address and a 32-byte key; so does every snapshot it hands out.
\<close>

theorem coordinator_table_invariant:
  assumes "server_reach pton s" and "\<forall>t a. pton t = Some a \<longrightarrow> length a = 4"
  shows "distinct (map (pubkey \<circ> tp_pi) (srv_peers s)) \<and>
    list_all (\<lambda>tp. wf_peer (tp_pi tp)) (srv_peers s) \<and>
    distinct (map pubkey (live_peers now (srv_peers s))) \<and>
    list_all wf_peer (live_peers now (srv_peers s))"
  using server_reach_wf [of pton s] assms live_peers_distinct [of "srv_peers s" now]
  by (auto simp: table_wf_def table_inv_def table_keys_def list_all_iff in_live_peers)

definition no_addr :: "string \<Rightarrow> bytes option" where
  "no_addr t = (if t = ''127.0.0.1'' then Some [127, 0, 0, 1] else None)"

lemma sample_registration:
  "handle_message no_addr 5 [] (idle_conn [100, 100] [frame_bytes (build_register 9000 (replicate 32 7))]) =
     (True, [\<lparr>tp_pi = sample_peer, last_seen = 5\<rparr>],
      \<lparr>rx = [], tx_room = [], tx = [0, 0, 0, 1, 4], peer_ip = ''127.0.0.1''\<rparr>)"
proof -
  let ?f = "build_register 9000 (replicate 32 7)" and ?c = "idle_conn [100, 100] [frame_bytes (build_register 9000 (replicate 32 7))]"
  have len: "length ?f = 35" by (simp add: build_defs)
  then have fb: "frame_bytes ?f = [0, 0, 0, 35] @ ?f" by (simp add: frame_bytes_def be32_def)
  have rf: "recv_frame ?c = (Some ?f, idle_conn [100, 100] [])"
    by (simp add: fb len recv_frame_def recv_all.simps [of 4] recv_all.simps [of 35] recv_all.simps [of 0]
        sys_recv_def idle_conn_def be32_dec_def frame_cap_def)
  have "parse_register ?f = Some \<lparr>reg_port = 9000, reg_pubkey = replicate 32 7\<rparr>"
    by (simp add: parse_register_exact)
  moreover have "send_frame build_ok (idle_conn [100, 100] []) =
      (True, \<lparr>rx = [], tx_room = [], tx = [0, 0, 0, 1, 4], peer_ip = ''127.0.0.1''\<rparr>)"
    by (simp add: send_frame_def send_all.simps sys_send_def idle_conn_def be32_def build_ok_def)
  moreover have "peer_ip (idle_conn [100, 100] []) = ''127.0.0.1''" by (simp add: idle_conn_def)
  ultimately show ?thesis
    by (simp add: handle_message_def rf no_addr_def sample_peer_def)
qed

theorem coordinator_table_invariant_witness:
  "\<exists>s. server_reach no_addr s \<and> srv_peers s = [\<lparr>tp_pi = sample_peer, last_seen = 5\<rparr>] \<and>
     list_all wf_peer (live_peers 6 (srv_peers s))"
proof -
  let ?s0 = "\<lparr>srv_peers = [], srv_conns = (\<lambda>_. None)\<rparr>"
  let ?c = "idle_conn [100, 100] [frame_bytes (build_register 9000 (replicate 32 7))]"
  let ?s1 = "?s0\<lparr>srv_conns := (srv_conns ?s0)(0 \<mapsto> ?c)\<rparr>"
  have "server_step no_addr ?s0 ?s1" by (rule accept) simp
  then have r1: "server_reach no_addr ?s1" by (rule server_reach.step [OF init])
  have "handle_message no_addr 5 (srv_peers ?s1) ?c =
      (True, [\<lparr>tp_pi = sample_peer, last_seen = 5\<rparr>],
       \<lparr>rx = [], tx_room = [], tx = [0, 0, 0, 1, 4], peer_ip = ''127.0.0.1''\<rparr>)"
    using sample_registration by simp
  from serve_one [OF _ this, of 0] have "\<exists>s2. server_step no_addr ?s1 s2 \<and>
      srv_peers s2 = [\<lparr>tp_pi = sample_peer, last_seen = 5\<rparr>]" by fastforce
  then obtain s2 where s2: "server_reach no_addr s2" "srv_peers s2 = [\<lparr>tp_pi = sample_peer, last_seen = 5\<rparr>]"
    using server_reach.step [OF r1] by blast
  have "list_all wf_peer (live_peers 6 (srv_peers s2))"
    using coordinator_table_invariant [OF s2(1), where now = 6] by (simp add: no_addr_def)
  then show ?thesis using s2 by blast
qed

text \<open>
  C22. The peer table implements the map it stands for: after any sequence of registrations a peer is
  in the snapshot at time \<open>now\<close> exactly when the latest registration of its key is that very
  record and is at most 30 seconds old.
\<close>

theorem snapshot_is_latest_fresh_registrations:
  "p \<in> set (live_peers now (fold (\<lambda>(t, q). register_peer t q) rs [])) \<longleftrightarrow>
     (\<exists>t. find (\<lambda>(t, q). pubkey q = pubkey p) (rev rs) = Some (t, p) \<and> now - t \<le> PEER_TTL)"
  using peers.snapshot_registrations [of p now rs] by (simp add: peers.registrations_def)

text \<open>
  A GET_PEERS request is answered with the live peers, all of them and nothing else: the reply
  parses back to exactly the snapshot of the table, as long as the table has fewer than 65536
  well-formed entries, and the table is not changed.
\<close>

theorem get_peers_answered_with_snapshot:
  assumes "recv_frame conn = (Some f, c)" and "get_type f = Get_peers"
    and "table_wf peers" and "length peers < 65536"
    and "handle_message pton now peers conn = (b, peers', conn')" and "tx conn = []"
    and "fst (send_frame (build_peer_list (live_peers now peers)) c)"
  shows "b \<and> peers' = peers \<and>
    (\<exists>reply. tx conn' = frame_bytes reply \<and> parse_peer_list reply = Some (live_peers now peers))"
proof -
  let ?l = "live_peers now peers"
  have c': "b" "peers' = peers" "conn' = snd (send_frame (build_peer_list ?l) c)"
    using assms(1,2,5) by (auto simp: handle_message_def Let_def split_beta)
  have "tx c = []" using recv_frame_some [OF assms(1)] assms(6) by simp
  moreover have "send_frame (build_peer_list ?l) c = (True, conn')"
    using assms(7) c'(3) by (metis (full_types) prod.collapse)
  ultimately have "tx conn' = frame_bytes (build_peer_list ?l)"
    using send_frame_tx by (fastforce simp: frame_bytes_def)
  moreover have "list_all wf_peer ?l" using assms(3) by (auto simp: table_wf_def list_all_iff in_live_peers)
  moreover have "length ?l \<le> length peers" by (simp add: live_peers_filter)
  ultimately show ?thesis
    using c' parse_build_peer_list [of ?l "[]"] assms(4) by auto
qed

theorem get_peers_answered_with_snapshot_witness:
  "\<exists>conn' reply. handle_message no_addr 9 [\<lparr>tp_pi = sample_peer, last_seen = 5\<rparr>]
       (idle_conn [100, 100] [[0, 0, 0, 1], [2]]) = (True, [\<lparr>tp_pi = sample_peer, last_seen = 5\<rparr>], conn') \<and>
     tx conn' = frame_bytes reply \<and> parse_peer_list reply = Some [sample_peer]"
proof -
  let ?t = "[\<lparr>tp_pi = sample_peer, last_seen = 5\<rparr>]" and ?c = "idle_conn [100, 100] [[0, 0, 0, 1], [2]]"
  obtain b p' c' where h: "handle_message no_addr 9 ?t ?c = (b, p', c')" by (metis prod.exhaust)
  have rf: "recv_frame ?c = (Some [2], idle_conn [100, 100] [])"
    by (simp add: recv_frame_def recv_all.simps sys_recv_def idle_conn_def be32_dec_def frame_cap_def)
  have wf: "table_wf ?t" by (simp add: table_wf_def table_inv_def table_keys_def wf_peer_def sample_peer_def)
  have l: "live_peers 9 ?t = [sample_peer]" by (simp add: PEER_TTL_def)
  have "length (build_peer_list [sample_peer]) = 41"
    by (simp add: build_peer_list_eq wf_peer_def sample_peer_def peer_bytes_def)
  then have "fst (send_frame (build_peer_list [sample_peer]) (idle_conn [100, 100] []))"
    by (simp add: send_frame_def send_all.simps sys_send_def idle_conn_def be32_def)
  then show ?thesis
    using get_peers_answered_with_snapshot [OF rf _ wf _ h, unfolded l] h
    by (simp add: get_type_def idle_conn_def)
qed

end
