(* ===== verification/Hashing.thy ===== *)
theory Hashing
  imports Limb_Bytes
begin

text \<open>
  What the two hash functions share: a byte buffer that is compressed whenever it is full, and
  the padding of FIPS 180-4. The locale \<open>block_hasher\<close> is the contract of the byte-wise \<open>update\<close>
  loops (the concept of \<open>src/domain/crypto/hash.hpp\<close>); inside it the loop is shown to compress
  exactly the full blocks of the whole input. Big-endian words are here as well.
\<close>

section \<open>Blocks of a message\<close>

function full_blocks :: "nat \<Rightarrow> bytes \<Rightarrow> bytes list" where
  "full_blocks n xs =
     (if n = 0 \<or> length xs < n then [] else take n xs # full_blocks n (drop n xs))"
  by pat_completeness auto
termination by (relation "measure (\<lambda>(n, xs). length xs)") auto

declare full_blocks.simps [simp del]

definition leftover :: "nat \<Rightarrow> bytes \<Rightarrow> bytes" where
  "leftover n xs = drop (length xs div n * n) xs"

lemma full_blocks_short [simp]: "length xs < n \<Longrightarrow> full_blocks n xs = []"
  by (simp add: full_blocks.simps)

lemma full_blocks_append_block:
  "0 < n \<Longrightarrow> length b = n \<Longrightarrow> full_blocks n (b @ xs) = b # full_blocks n xs"
  by (subst full_blocks.simps) simp

lemma length_leftover: "length (leftover n xs) = length xs mod n"
  by (simp add: leftover_def minus_div_mult_eq_mod)

lemma leftover_short [simp]: "length xs < n \<Longrightarrow> leftover n xs = xs"
  by (simp add: leftover_def)

lemma leftover_append_block: "0 < n \<Longrightarrow> length b = n \<Longrightarrow> leftover n (b @ xs) = leftover n xs"
proof -
  assume n: "0 < n" "length b = n"
  then have "length (b @ xs) div n = 1 + length xs div n" by (simp only: length_append div_add_self1)
  then have "length (b @ xs) div n * n = n + length xs div n * n" by simp
  then show ?thesis unfolding leftover_def using n by simp
qed

lemma full_blocks_append:
  assumes "0 < n"
  shows "full_blocks n (xs @ ys) = full_blocks n xs @ full_blocks n (leftover n xs @ ys)"
proof (induction n xs rule: full_blocks.induct)
  case (1 n xs)
  show ?case
  proof (cases "n = 0 \<or> length xs < n")
    case True
    then show ?thesis using full_blocks.simps [of 0] by (auto simp: leftover_def)
  next
    case False
    then have n: "0 < n" "length (take n xs) = n" by auto
    have "full_blocks n (take n xs @ (drop n xs @ ys)) = take n xs # full_blocks n (drop n xs @ ys)"
      using n by (rule full_blocks_append_block)
    moreover have "full_blocks n (take n xs @ drop n xs) = take n xs # full_blocks n (drop n xs)"
      using n by (rule full_blocks_append_block)
    moreover have "leftover n (take n xs @ drop n xs) = leftover n (drop n xs)"
      using n by (rule leftover_append_block)
    ultimately show ?thesis using "1.IH" [OF False] by (simp flip: append_assoc)
  qed
qed

lemma leftover_append:
  assumes "0 < n"
  shows "leftover n (xs @ ys) = leftover n (leftover n xs @ ys)"
proof -
  let ?k = "length xs div n"
  have xs: "xs = take (?k * n) xs @ leftover n xs" by (simp add: leftover_def)
  have len: "length (take (?k * n) xs) = ?k * n" by simp
  have "leftover n (b @ zs) = leftover n zs" if "length b = j * n" for b zs j
    using that assms
  proof (induction j arbitrary: b)
    case (Suc j)
    then have "leftover n (take n b @ (drop n b @ zs)) = leftover n (drop n b @ zs)"
      by (intro leftover_append_block) auto
    moreover have "leftover n (drop n b @ zs) = leftover n zs" using Suc by simp
    ultimately show ?case by (simp flip: append_assoc)
  qed simp
  from this [OF len] show ?thesis by (metis append.assoc xs)
qed

section \<open>Padding\<close>

text \<open>
  FIPS 180-4: a bit 1, the fewest zero bits that make the length congruent to the block length
  less the length field, and the length field \<open>lb\<close>.
\<close>

definition md_pad :: "nat \<Rightarrow> bytes \<Rightarrow> bytes \<Rightarrow> bytes" where
  "md_pad n lb xs =
     xs @ 0x80 # replicate ((2 * n - length lb - 1 - length xs mod n) mod n) 0 @ lb"

text \<open>The one or two final blocks, for what is left in the buffer.\<close>

definition final_blocks :: "nat \<Rightarrow> bytes \<Rightarrow> bytes \<Rightarrow> bytes list" where
  "final_blocks n lb p =
     (let q = p @ [0x80]
      in if length q > n - length lb
         then [q @ replicate (n - length q) 0, replicate (n - length lb) 0 @ lb]
         else [q @ replicate (n - length lb - length q) 0 @ lb])"

lemma pad_zeros:
  fixes n m l :: nat
  assumes "m < n" and "0 < l" and "l < n"
  shows "(2 * n - l - 1 - m) mod n = (if n - l < m + 1 then (n - (m + 1)) + (n - l) else n - l - (m + 1))"
proof (cases "n - l < m + 1")
  case True
  then show ?thesis using assms by simp
next
  case False
  then have "2 * n - l - 1 - m = n + (n - l - (m + 1))" using assms by simp
  then have "(2 * n - l - 1 - m) mod n = (n - l - (m + 1)) mod n" by (simp only: mod_add_self1)
  then show ?thesis using False assms by simp
qed

lemma full_blocks_pad:
  assumes "0 < length lb" and "length lb < n"
  shows "full_blocks n (md_pad n lb xs) = full_blocks n xs @ final_blocks n lb (leftover n xs)"
proof -
  have n: "0 < n" using assms by simp
  let ?p = "leftover n xs" and ?m = "length xs mod n"
  have m: "length ?p = ?m" "?m < n" using n by (simp_all add: length_leftover)
  let ?t = "0x80 # replicate ((2 * n - length lb - 1 - ?m) mod n) 0 @ lb"
  have "full_blocks n (?p @ ?t) = final_blocks n lb ?p"
  proof (cases "n - length lb < ?m + 1")
    case True
    have z: "(2 * n - length lb - 1 - ?m) mod n = (n - (?m + 1)) + (n - length lb)"
      using pad_zeros [OF m(2) assms] True by simp
    let ?b1 = "?p @ [0x80] @ replicate (n - (?m + 1)) 0" and ?b2 = "replicate (n - length lb) 0 @ lb"
    have "?p @ ?t = ?b1 @ ?b2 @ []" unfolding z replicate_add by simp
    moreover have "length ?b1 = n" using m by (simp add: m(1))
    moreover have "length ?b2 = n" using assms by simp
    ultimately have "full_blocks n (?p @ ?t) = [?b1, ?b2]"
      using n by (simp only: full_blocks_append_block) simp
    then show ?thesis using True m by (simp add: final_blocks_def)
  next
    case False
    have z: "(2 * n - length lb - 1 - ?m) mod n = n - length lb - (?m + 1)"
      using pad_zeros [OF m(2) assms] False by simp
    let ?b = "?p @ [0x80] @ replicate (n - length lb - (?m + 1)) 0 @ lb"
    have "?p @ ?t = ?b @ []" unfolding z by simp
    moreover have "length ?b = n" using m assms False by simp
    ultimately have "full_blocks n (?p @ ?t) = [?b]"
      using n by (simp only: full_blocks_append_block) simp
    then show ?thesis using False m by (simp add: final_blocks_def)
  qed
  then show ?thesis unfolding md_pad_def full_blocks_append [OF n, of xs] by simp
qed

section \<open>The contract of the update loop\<close>

text \<open>
  \<open>push\<close> takes one byte; \<open>chain\<close>, \<open>pending\<close> and \<open>count\<close> read the chaining value, the buffered bytes and
  the number of compressed blocks from the state.
\<close>

locale block_hasher =
  fixes n :: nat and compress :: "'c \<Rightarrow> bytes \<Rightarrow> 'c" and push :: "byte \<Rightarrow> 's \<Rightarrow> 's"
    and wf :: "'s \<Rightarrow> bool" and chain :: "'s \<Rightarrow> 'c" and pending :: "'s \<Rightarrow> bytes"
    and counted :: "'s \<Rightarrow> nat \<Rightarrow> bool"
  assumes n_pos: "0 < n"
    and pending_less: "wf s \<Longrightarrow> length (pending s) < n"
    and push_wf: "wf s \<Longrightarrow> wf (push b s)"
    and push_more: "wf s \<Longrightarrow> length (pending s) + 1 < n \<Longrightarrow>
      chain (push b s) = chain s \<and> pending (push b s) = pending s @ [b] \<and>
      (\<forall>k. counted s k \<longrightarrow> counted (push b s) k)"
    and push_full: "wf s \<Longrightarrow> length (pending s) + 1 = n \<Longrightarrow>
      chain (push b s) = compress (chain s) (pending s @ [b]) \<and> pending (push b s) = [] \<and>
      (\<forall>k. counted s k \<longrightarrow> counted (push b s) (k + 1))"
begin

lemma update_blocks:
  assumes "wf s" and "counted s k"
  shows "wf (fold push data s) \<and>
    chain (fold push data s) = foldl compress (chain s) (full_blocks n (pending s @ data)) \<and>
    pending (fold push data s) = leftover n (pending s @ data) \<and>
    counted (fold push data s) (k + (length (pending s) + length data) div n)"
  using assms
proof (induction data arbitrary: s k)
  case Nil
  then show ?case using pending_less by simp
next
  case (Cons b data)
  note p = pending_less [OF Cons.prems(1)]
  show ?case
  proof (cases "length (pending s) + 1 = n")
    case True
    note f = push_full [OF Cons.prems(1) True, of b]
    have "length (pending s @ [b]) = n" using True by simp
    then have "full_blocks n ((pending s @ [b]) @ data) = (pending s @ [b]) # full_blocks n data"
      "leftover n ((pending s @ [b]) @ data) = leftover n data"
      using n_pos by (simp_all only: full_blocks_append_block leftover_append_block)
    moreover have "(length (pending s) + length (b # data)) div n = 1 + length data div n"
    proof -
      have "length (pending s) + length (b # data) = n + length data" using True by simp
      then show ?thesis using n_pos by (simp only: div_add_self1)
    qed
    ultimately show ?thesis
      using Cons.IH [of "push b s" "k + 1"] push_wf [OF Cons.prems(1)] f Cons.prems(2) by simp
  next
    case False
    then have "length (pending s) + 1 < n" using p by simp
    note m = push_more [OF Cons.prems(1) this, of b]
    then show ?thesis
      using Cons.IH [of "push b s" k] push_wf [OF Cons.prems(1)] Cons.prems(2) by simp
  qed
qed

text \<open>Feeding the data in pieces is feeding it at once.\<close>

lemma update_append: "fold push (xs @ ys) s = fold push ys (fold push xs s)"
  by simp

end

section \<open>Big-endian words\<close>

text \<open>\<open>be_or sh bs\<close> is \<open>b\<^sub>0 << sh | b\<^sub>1 << (sh - 8) | \<dots>\<close>; \<open>be_bytes k x\<close> the \<open>k\<close> low bytes, top first.\<close>

fun be_or :: "nat \<Rightarrow> bytes \<Rightarrow> 'a::len word" where
  "be_or sh [] = 0"
| "be_or sh (b # bs) = push_bit sh (ucast b) OR be_or (sh - 8) bs"

definition be_bytes :: "nat \<Rightarrow> 'a::len word \<Rightarrow> bytes" where
  "be_bytes k x = map (\<lambda>i. ucast (drop_bit (8 * (k - 1 - i)) x)) [0..<k]"

lemma list8: "length l = 8 \<Longrightarrow> \<exists>c0 c1 c2 c3 c4 c5 c6 c7. l = [c0, c1, c2, c3, c4, c5, c6, c7]"
  by (auto simp: numeral_eq_Suc length_Suc_conv)

lemma upt8: "[0..<8] = [0, 1, 2, 3, 4, 5, 6, 7 :: nat]"
  by (simp add: upt_rec)

lemma length_be_bytes [simp]: "length (be_bytes k x) = k"
  by (simp add: be_bytes_def)

lemma take_write: "n < length xs \<Longrightarrow> take (Suc n) (xs[n := b]) = take n xs @ [b]"
  by (simp add: take_Suc_conv_app_nth)

text \<open>\<open>while (i < m) buf[i++] = 0\<close>.\<close>

definition fill_zero :: "nat \<Rightarrow> nat \<Rightarrow> bytes \<Rightarrow> bytes" where
  "fill_zero i m buf = fold (\<lambda>j b. b[j := 0]) [i..<m] buf"

lemma fill_zero_eq:
  assumes "m \<le> length buf" and "i \<le> m"
  shows "fill_zero i m buf = take i buf @ replicate (m - i) 0 @ drop m buf"
  using assms
proof (induction m)
  case 0
  then show ?case by (simp add: fill_zero_def)
next
  case (Suc m)
  show ?case
  proof (cases "i = Suc m")
    case True
    then show ?thesis by (simp add: fill_zero_def)
  next
    case False
    then have i: "i \<le> m" using Suc.prems by simp
    have "fill_zero i (Suc m) buf = (fill_zero i m buf)[m := 0]"
      using i by (simp add: fill_zero_def)
    also have "\<dots> = (take i buf @ replicate (m - i) 0 @ drop m buf)[m := 0]"
      using Suc i by simp
    also have "drop m buf = buf ! m # drop (Suc m) buf"
      using Suc.prems by (simp add: Cons_nth_drop_Suc)
    finally show ?thesis
      using i Suc.prems by (simp add: list_update_append Suc_diff_le replicate_append_same)
  qed
qed

end
