(* ===== verification/Sha_256.thy ===== *)
theory Sha_256
  imports Hashing
begin

text \<open>
  SHA-256 as \<open>src/impl/crypto/hash/sha_256.cpp\<close> computes it: the round functions, the message
  schedule, \<open>transform\<close>, the byte-wise \<open>update\<close>, \<open>finalize\<close> with its one or two padding blocks,
  and \<open>hash\<close>. The buffer of a fresh object is not initialised by the constructor, so it is an
  argument; the digest is shown not to depend on it.
\<close>

section \<open>Round functions\<close>

definition rotr :: "u32 \<Rightarrow> nat \<Rightarrow> u32" where
  "rotr x n = drop_bit n x OR push_bit (32 - n) x"

definition choice32 :: "u32 \<Rightarrow> u32 \<Rightarrow> u32 \<Rightarrow> u32" where
  "choice32 x y z = (x AND y) XOR (NOT x AND z)"

definition majority :: "u32 \<Rightarrow> u32 \<Rightarrow> u32 \<Rightarrow> u32" where
  "majority x y z = (x AND y) XOR (x AND z) XOR (y AND z)"

definition sig0 :: "u32 \<Rightarrow> u32" where
  "sig0 x = rotr x 7 XOR rotr x 18 XOR drop_bit 3 x"

definition sig1 :: "u32 \<Rightarrow> u32" where
  "sig1 x = rotr x 17 XOR rotr x 19 XOR drop_bit 10 x"

definition SIG0 :: "u32 \<Rightarrow> u32" where
  "SIG0 x = rotr x 2 XOR rotr x 13 XOR rotr x 22"

definition SIG1 :: "u32 \<Rightarrow> u32" where
  "SIG1 x = rotr x 6 XOR rotr x 11 XOR rotr x 25"

definition K256 :: "u32 list" where
  "K256 = concat
    [[0x428a2f98, 0x71374491, 0xb5c0fbcf, 0xe9b5dba5, 0x3956c25b, 0x59f111f1],
     [0x923f82a4, 0xab1c5ed5, 0xd807aa98, 0x12835b01, 0x243185be, 0x550c7dc3],
     [0x72be5d74, 0x80deb1fe, 0x9bdc06a7, 0xc19bf174, 0xe49b69c1, 0xefbe4786],
     [0x0fc19dc6, 0x240ca1cc, 0x2de92c6f, 0x4a7484aa, 0x5cb0a9dc, 0x76f988da],
     [0x983e5152, 0xa831c66d, 0xb00327c8, 0xbf597fc7, 0xc6e00bf3, 0xd5a79147],
     [0x06ca6351, 0x14292967, 0x27b70a85, 0x2e1b2138, 0x4d2c6dfc, 0x53380d13],
     [0x650a7354, 0x766a0abb, 0x81c2c92e, 0x92722c85, 0xa2bfe8a1, 0xa81a664b],
     [0xc24b8b70, 0xc76c51a3, 0xd192e819, 0xd6990624, 0xf40e3585, 0x106aa070],
     [0x19a4c116, 0x1e376c08, 0x2748774c, 0x34b0bcb5, 0x391c0cb3, 0x4ed8aa4a],
     [0x5b9cca4f, 0x682e6ff3, 0x748f82ee, 0x78a5636f, 0x84c87814, 0x8cc70208],
     [0x90befffa, 0xa4506ceb, 0xbef9a3f7, 0xc67178f2]]"

section \<open>The hash object\<close>

record sha_256 =
  s256_state :: "u32 list"
  s256_buffer :: bytes
  s256_buffer_len :: nat
  s256_bit_len :: u64

definition H256 :: "u32 list" where
  "H256 = [0x6a09e667, 0xbb67ae85, 0x3c6ef372, 0xa54ff53a, 0x510e527f, 0x9b05688c, 0x1f83d9ab, 0x5be0cd19]"

definition new_sha_256 :: "bytes \<Rightarrow> sha_256" where
  "new_sha_256 junk = \<lparr>s256_state = H256, s256_buffer = junk, s256_buffer_len = 0, s256_bit_len = 0\<rparr>"

definition schedule256 :: "bytes \<Rightarrow> u32 list" where
  "schedule256 block =
     fold (\<lambda>i w. w @ [sig1 (w ! (i - 2)) + w ! (i - 7) + sig0 (w ! (i - 15)) + w ! (i - 16)]) [16..<64]
       (map (\<lambda>i. push_bit 24 (ucast (block ! (i * 4))) OR push_bit 16 (ucast (block ! (i * 4 + 1))) OR
                 push_bit 8 (ucast (block ! (i * 4 + 2))) OR ucast (block ! (i * 4 + 3))) [0..<16])"

definition round256 ::
  "u32 list \<Rightarrow> nat \<Rightarrow> u32 \<times> u32 \<times> u32 \<times> u32 \<times> u32 \<times> u32 \<times> u32 \<times> u32 \<Rightarrow>
   u32 \<times> u32 \<times> u32 \<times> u32 \<times> u32 \<times> u32 \<times> u32 \<times> u32" where
  "round256 w i = (\<lambda>(a, b, c, d, e, f, g, h).
     let t1 = h + SIG1 e + choice32 e f g + K256 ! i + w ! i;
         t2 = SIG0 a + majority a b c
     in (t1 + t2, a, b, c, d + t1, e, f, g))"

definition compress256 :: "u32 list \<Rightarrow> bytes \<Rightarrow> u32 list" where
  "compress256 st block =
     (let w = schedule256 block;
          (a, b, c, d, e, f, g, h) = fold (round256 w) [0..<64]
            (st ! 0, st ! 1, st ! 2, st ! 3, st ! 4, st ! 5, st ! 6, st ! 7)
      in [st ! 0 + a, st ! 1 + b, st ! 2 + c, st ! 3 + d, st ! 4 + e, st ! 5 + f, st ! 6 + g, st ! 7 + h])"

definition transform256 :: "bytes \<Rightarrow> sha_256 \<Rightarrow> sha_256" where
  "transform256 block hs = hs\<lparr>s256_state := compress256 (s256_state hs) block\<rparr>"

text \<open>The body of the loop of \<open>update\<close>, and \<open>update\<close>.\<close>

definition push256 :: "byte \<Rightarrow> sha_256 \<Rightarrow> sha_256" where
  "push256 b hs =
     (let hs = hs\<lparr>s256_buffer := (s256_buffer hs)[s256_buffer_len hs := b],
                s256_buffer_len := s256_buffer_len hs + 1\<rparr>
      in if s256_buffer_len hs = 64
         then let hs = transform256 (s256_buffer hs) hs
              in hs\<lparr>s256_bit_len := s256_bit_len hs + 512, s256_buffer_len := 0\<rparr>
         else hs)"

definition update256 :: "bytes \<Rightarrow> sha_256 \<Rightarrow> sha_256" where
  "update256 data hs = fold push256 data hs"

definition digest256 :: "u32 list \<Rightarrow> bytes" where
  "digest256 st =
     concat (map (\<lambda>i. [ucast (drop_bit 24 (st ! i)), ucast (drop_bit 16 (st ! i)),
                       ucast (drop_bit 8 (st ! i)), ucast (st ! i)]) [0..<8])"

text \<open>\<open>finalize\<close>; \<open>junk\<close> is the uninitialised buffer of the object the receiver is reset to.\<close>

definition finalize256 :: "bytes \<Rightarrow> sha_256 \<Rightarrow> bytes \<times> sha_256" where
  "finalize256 junk hs =
     (let total_bits = s256_bit_len hs + word_of_nat (s256_buffer_len hs) * 8;
          hs = hs\<lparr>s256_buffer := (s256_buffer hs)[s256_buffer_len hs := 0x80],
                s256_buffer_len := s256_buffer_len hs + 1\<rparr>;
          hs = (if s256_buffer_len hs > 56
               then let hs = hs\<lparr>s256_buffer := fill_zero (s256_buffer_len hs) 64 (s256_buffer hs)\<rparr>;
                        hs = transform256 (s256_buffer hs) hs
                    in hs\<lparr>s256_buffer_len := 0\<rparr>
               else hs);
          buf = fill_zero (s256_buffer_len hs) 56 (s256_buffer hs);
          buf = fold (\<lambda>i b. b[63 - i := ucast (drop_bit (i * 8) total_bits)]) [0..<8] buf;
          hs = transform256 buf hs
      in (digest256 (s256_state hs), new_sha_256 junk))"

definition sha_256_hash :: "bytes \<Rightarrow> bytes \<Rightarrow> bytes" where
  "sha_256_hash junk data = fst (finalize256 junk (update256 data (new_sha_256 junk)))"

section \<open>The object keeps its invariant\<close>

definition wf256 :: "sha_256 \<Rightarrow> bool" where
  "wf256 hs \<longleftrightarrow> length (s256_buffer hs) = 64 \<and> s256_buffer_len hs < 64"

definition pending256 :: "sha_256 \<Rightarrow> bytes" where
  "pending256 hs = take (s256_buffer_len hs) (s256_buffer hs)"

definition counted256 :: "sha_256 \<Rightarrow> nat \<Rightarrow> bool" where
  "counted256 hs k \<longleftrightarrow> s256_bit_len hs = word_of_nat (512 * k)"

interpretation h256: block_hasher 64 compress256 push256 wf256 s256_state pending256 counted256
proof unfold_locales
  fix s :: sha_256 and b
  assume wf: "wf256 s"
  let ?l = "s256_buffer_len s" and ?b = "(s256_buffer s)[s256_buffer_len s := b]"
  show pl: "length (pending256 s) < 64" using wf by (simp add: wf256_def pending256_def)
  have len: "length (pending256 s) = ?l" using wf by (simp add: wf256_def pending256_def)
  have t: "take (Suc ?l) ?b = pending256 s @ [b]"
    using wf by (simp add: wf256_def pending256_def take_write)
  show "wf256 (push256 b s)" using wf by (auto simp: wf256_def push256_def transform256_def Let_def)
  show "s256_state (push256 b s) = s256_state s \<and> pending256 (push256 b s) = pending256 s @ [b] \<and>
      (\<forall>k. counted256 s k \<longrightarrow> counted256 (push256 b s) k)" if "length (pending256 s) + 1 < 64"
  proof -
    have "push256 b s = s\<lparr>s256_buffer := ?b, s256_buffer_len := Suc ?l\<rparr>"
      using that by (simp add: push256_def len)
    then show ?thesis using t by (simp add: pending256_def counted256_def)
  qed
  show "s256_state (push256 b s) = compress256 (s256_state s) (pending256 s @ [b]) \<and>
      pending256 (push256 b s) = [] \<and> (\<forall>k. counted256 s k \<longrightarrow> counted256 (push256 b s) (k + 1))"
    if "length (pending256 s) + 1 = 64"
  proof -
    have l: "Suc ?l = 64" using that len by simp
    have "?b = pending256 s @ [b]" using t l wf by (simp add: wf256_def)
    moreover have "push256 b s = s\<lparr>s256_buffer := ?b, s256_buffer_len := 0,
        s256_state := compress256 (s256_state s) ?b, s256_bit_len := s256_bit_len s + 512\<rparr>"
      using l by (simp add: push256_def transform256_def)
    ultimately show ?thesis by (simp add: pending256_def counted256_def)
  qed
qed simp

section \<open>Finalisation\<close>

lemma length_field256:
  assumes "length buf = 64"
  shows "fold (\<lambda>i b. b[63 - i := ucast (drop_bit (i * 8) (x :: u64))]) [0..<8] buf = take 56 buf @ be_bytes 8 x"
proof -
  have "length (drop 56 buf) = 8" using assms by simp
  then obtain c0 c1 c2 c3 c4 c5 c6 c7 where d: "drop 56 buf = [c0, c1, c2, c3, c4, c5, c6, c7]"
    using list8 by blast
  obtain p where p: "take 56 buf = p" "length p = 56" using assms by simp
  then have "buf = p @ [c0, c1, c2, c3, c4, c5, c6, c7]" using d by (metis append_take_drop_id)
  then show ?thesis using p by (simp add: upt8 be_bytes_def list_update_append)
qed

lemma finalize256_blocks:
  assumes "wf256 hs"
  shows "fst (finalize256 junk hs) = digest256 (foldl compress256 (s256_state hs)
    (final_blocks 64 (be_bytes 8 (s256_bit_len hs + word_of_nat (s256_buffer_len hs) * 8)) (pending256 hs)))"
proof -
  let ?l = "s256_buffer_len hs" and ?tb = "s256_bit_len hs + word_of_nat (s256_buffer_len hs) * 8"
  let ?b = "(s256_buffer hs)[?l := 0x80]" and ?q = "pending256 hs @ [0x80]"
  have l: "?l < 64" "length ?b = 64" using assms by (simp_all add: wf256_def)
  have q: "take (Suc ?l) ?b = ?q" "length ?q = Suc ?l"
    using assms by (simp_all add: wf256_def pending256_def take_write)
  show ?thesis
  proof (cases "56 < Suc ?l")
    case True
    have z: "fill_zero (Suc ?l) 64 ?b = ?q @ replicate (64 - Suc ?l) 0"
      using l q by (simp add: fill_zero_eq)
    have z2: "take 56 (fill_zero 0 56 (?q @ replicate (64 - Suc ?l) 0)) = replicate 56 0"
      using l q by (subst fill_zero_eq) simp_all
    have len: "length (fill_zero 0 56 (?q @ replicate (64 - Suc ?l) 0)) = 64"
      using l q by (subst fill_zero_eq) simp_all
    have "fold (\<lambda>i b. b[63 - i := ucast (drop_bit (i * 8) ?tb)]) [0..<8]
        (fill_zero 0 56 (pending256 hs @ 0x80 # replicate (63 - ?l) 0)) = replicate 56 0 @ be_bytes 8 ?tb"
      using length_field256 [OF len, of ?tb] z2 by simp
    then show ?thesis
      using True q by (simp add: finalize256_def Let_def transform256_def z final_blocks_def)
  next
    case False
    have fz: "fill_zero (Suc ?l) 56 ?b = (?q @ replicate (56 - Suc ?l) 0) @ drop 56 ?b"
      using l q False by (subst fill_zero_eq) simp_all
    moreover have "length (?q @ replicate (56 - Suc ?l) 0) = 56" using q False by simp
    ultimately have z: "take 56 (fill_zero (Suc ?l) 56 ?b) = ?q @ replicate (56 - Suc ?l) 0"
      by (metis append_eq_conv_conj)
    have len: "length (fill_zero (Suc ?l) 56 ?b) = 64"
      using l False by (subst fill_zero_eq) simp_all
    show ?thesis
      using False q
      by (simp add: finalize256_def Let_def transform256_def z length_field256 [OF len] final_blocks_def)
  qed
qed

section \<open>The reference: FIPS 180-4 on the padded message\<close>

definition fips_sha256 :: "bytes \<Rightarrow> bytes" where
  "fips_sha256 data =
     digest256 (foldl compress256 H256
       (full_blocks 64 (md_pad 64 (be_bytes 8 (word_of_nat (8 * length data) :: u64)) data)))"

lemma sha_256_hash_fips:
  assumes "length junk = 64"
  shows "sha_256_hash junk data = fips_sha256 data"
proof -
  let ?hs = "new_sha_256 junk" and ?n = "length data"
  have wf: "wf256 ?hs" "counted256 ?hs 0" "pending256 ?hs = []"
    using assms by (simp_all add: wf256_def new_sha_256_def counted256_def pending256_def)
  note u = h256.update_blocks [OF wf(1,2), of data, unfolded wf(3)]
  let ?u = "fold push256 data ?hs"
  have u1: "wf256 ?u" and u2: "s256_state ?u = foldl compress256 H256 (full_blocks 64 data)"
    and u3: "pending256 ?u = leftover 64 data" and u4: "counted256 ?u (?n div 64)"
    using u by (simp_all add: new_sha_256_def)
  have "s256_buffer_len ?u = length (pending256 ?u)" using u1 by (simp add: wf256_def pending256_def)
  then have bl: "s256_buffer_len ?u = ?n mod 64" using u3 by (simp add: length_leftover)
  have "512 * q + r * 8 = 8 * (64 * q + r)" for q r :: nat by simp
  from this [of "?n div 64" "?n mod 64"] have "512 * (?n div 64) + ?n mod 64 * 8 = 8 * ?n"
    by (simp only: mult_div_mod_eq)
  from arg_cong [OF this, of "word_of_nat :: nat \<Rightarrow> u64"]
  have "s256_bit_len ?u + word_of_nat (s256_buffer_len ?u) * 8 = word_of_nat (8 * ?n)"
    using u4 unfolding bl counted256_def by (simp only: of_nat_add of_nat_mult of_nat_numeral)
  then show ?thesis
    using finalize256_blocks [OF u1, of junk] u2 u3
    by (simp add: sha_256_hash_def update256_def fips_sha256_def full_blocks_pad)
qed

section \<open>Properties\<close>



end
