(* ===== verification/Sha_512.thy ===== *)
theory Sha_512
  imports Hashing
begin

text \<open>
  SHA-512 as \<open>src/impl/crypto/hash/sha_512.cpp\<close> computes it. The structure is that of SHA-512 with
  64-bit words, 128-byte blocks and 80 rounds; the message length is kept in two words, with
  the carry between them detected by comparing the sum.
\<close>

section \<open>Round functions\<close>

definition rotr64 :: "u64 \<Rightarrow> nat \<Rightarrow> u64" where
  "rotr64 x n = drop_bit n x OR push_bit (64 - n) x"

definition choice64 :: "u64 \<Rightarrow> u64 \<Rightarrow> u64 \<Rightarrow> u64" where
  "choice64 x y z = (x AND y) XOR (NOT x AND z)"

definition majority64 :: "u64 \<Rightarrow> u64 \<Rightarrow> u64 \<Rightarrow> u64" where
  "majority64 x y z = (x AND y) XOR (x AND z) XOR (y AND z)"

definition sig0_512 :: "u64 \<Rightarrow> u64" where
  "sig0_512 x = rotr64 x 1 XOR rotr64 x 8 XOR drop_bit 7 x"

definition sig1_512 :: "u64 \<Rightarrow> u64" where
  "sig1_512 x = rotr64 x 19 XOR rotr64 x 61 XOR drop_bit 6 x"

definition SIG0_512 :: "u64 \<Rightarrow> u64" where
  "SIG0_512 x = rotr64 x 28 XOR rotr64 x 34 XOR rotr64 x 39"

definition SIG1_512 :: "u64 \<Rightarrow> u64" where
  "SIG1_512 x = rotr64 x 14 XOR rotr64 x 18 XOR rotr64 x 41"

definition K512 :: "u64 list" where
  "K512 = concat
    [[0x428a2f98d728ae22, 0x7137449123ef65cd, 0xb5c0fbcfec4d3b2f],
     [0xe9b5dba58189dbbc, 0x3956c25bf348b538, 0x59f111f1b605d019],
     [0x923f82a4af194f9b, 0xab1c5ed5da6d8118, 0xd807aa98a3030242],
     [0x12835b0145706fbe, 0x243185be4ee4b28c, 0x550c7dc3d5ffb4e2],
     [0x72be5d74f27b896f, 0x80deb1fe3b1696b1, 0x9bdc06a725c71235],
     [0xc19bf174cf692694, 0xe49b69c19ef14ad2, 0xefbe4786384f25e3],
     [0x0fc19dc68b8cd5b5, 0x240ca1cc77ac9c65, 0x2de92c6f592b0275],
     [0x4a7484aa6ea6e483, 0x5cb0a9dcbd41fbd4, 0x76f988da831153b5],
     [0x983e5152ee66dfab, 0xa831c66d2db43210, 0xb00327c898fb213f],
     [0xbf597fc7beef0ee4, 0xc6e00bf33da88fc2, 0xd5a79147930aa725],
     [0x06ca6351e003826f, 0x142929670a0e6e70, 0x27b70a8546d22ffc],
     [0x2e1b21385c26c926, 0x4d2c6dfc5ac42aed, 0x53380d139d95b3df],
     [0x650a73548baf63de, 0x766a0abb3c77b2a8, 0x81c2c92e47edaee6],
     [0x92722c851482353b, 0xa2bfe8a14cf10364, 0xa81a664bbc423001],
     [0xc24b8b70d0f89791, 0xc76c51a30654be30, 0xd192e819d6ef5218],
     [0xd69906245565a910, 0xf40e35855771202a, 0x106aa07032bbd1b8],
     [0x19a4c116b8d2d0c8, 0x1e376c085141ab53, 0x2748774cdf8eeb99],
     [0x34b0bcb5e19b48a8, 0x391c0cb3c5c95a63, 0x4ed8aa4ae3418acb],
     [0x5b9cca4f7763e373, 0x682e6ff3d6b2b8a3, 0x748f82ee5defb2fc],
     [0x78a5636f43172f60, 0x84c87814a1f0ab72, 0x8cc702081a6439ec],
     [0x90befffa23631e28, 0xa4506cebde82bde9, 0xbef9a3f7b2c67915],
     [0xc67178f2e372532b, 0xca273eceea26619c, 0xd186b8c721c0c207],
     [0xeada7dd6cde0eb1e, 0xf57d4f7fee6ed178, 0x06f067aa72176fba],
     [0x0a637dc5a2c898a6, 0x113f9804bef90dae, 0x1b710b35131c471b],
     [0x28db77f523047d84, 0x32caab7b40c72493, 0x3c9ebe0a15c9bebc],
     [0x431d67c49c100d4c, 0x4cc5d4becb3e42b6, 0x597f299cfc657e2a],
     [0x5fcb6fab3ad6faec, 0x6c44198c4a475817]]"

section \<open>The hash object\<close>

record sha_512 =
  s512_state :: "u64 list"
  s512_buffer :: bytes
  s512_buffer_len :: nat
  s512_bit_len_low :: u64
  s512_bit_len_high :: u64

definition H512 :: "u64 list" where
  "H512 = [0x6a09e667f3bcc908, 0xbb67ae8584caa73b, 0x3c6ef372fe94f82b, 0xa54ff53a5f1d36f1, 0x510e527fade682d1, 0x9b05688c2b3e6c1f, 0x1f83d9abfb41bd6b, 0x5be0cd19137e2179]"

definition new_sha_512 :: "bytes \<Rightarrow> sha_512" where
  "new_sha_512 junk = \<lparr>s512_state = H512, s512_buffer = junk, s512_buffer_len = 0,
     s512_bit_len_low = 0, s512_bit_len_high = 0\<rparr>"

definition schedule512 :: "bytes \<Rightarrow> u64 list" where
  "schedule512 block =
     fold (\<lambda>i w. w @ [sig1_512 (w ! (i - 2)) + w ! (i - 7) + sig0_512 (w ! (i - 15)) + w ! (i - 16)]) [16..<80]
       (map (\<lambda>i. push_bit 56 (ucast (block ! (i * 8))) OR push_bit 48 (ucast (block ! (i * 8 + 1))) OR
                 push_bit 40 (ucast (block ! (i * 8 + 2))) OR push_bit 32 (ucast (block ! (i * 8 + 3))) OR
                 push_bit 24 (ucast (block ! (i * 8 + 4))) OR push_bit 16 (ucast (block ! (i * 8 + 5))) OR
                 push_bit 8 (ucast (block ! (i * 8 + 6))) OR ucast (block ! (i * 8 + 7))) [0..<16])"

definition round512 ::
  "u64 list \<Rightarrow> nat \<Rightarrow> u64 \<times> u64 \<times> u64 \<times> u64 \<times> u64 \<times> u64 \<times> u64 \<times> u64 \<Rightarrow>
   u64 \<times> u64 \<times> u64 \<times> u64 \<times> u64 \<times> u64 \<times> u64 \<times> u64" where
  "round512 w i = (\<lambda>(a, b, c, d, e, f, g, h).
     let t1 = h + SIG1_512 e + choice64 e f g + K512 ! i + w ! i;
         t2 = SIG0_512 a + majority64 a b c
     in (t1 + t2, a, b, c, d + t1, e, f, g))"

definition compress512 :: "u64 list \<Rightarrow> bytes \<Rightarrow> u64 list" where
  "compress512 st block =
     (let w = schedule512 block;
          (a, b, c, d, e, f, g, h) = fold (round512 w) [0..<80]
            (st ! 0, st ! 1, st ! 2, st ! 3, st ! 4, st ! 5, st ! 6, st ! 7)
      in [st ! 0 + a, st ! 1 + b, st ! 2 + c, st ! 3 + d, st ! 4 + e, st ! 5 + f, st ! 6 + g, st ! 7 + h])"

definition transform512 :: "bytes \<Rightarrow> sha_512 \<Rightarrow> sha_512" where
  "transform512 block hs = hs\<lparr>s512_state := compress512 (s512_state hs) block\<rparr>"

text \<open>The body of the loop of \<open>update\<close>, and \<open>update\<close>.\<close>

definition push512 :: "byte \<Rightarrow> sha_512 \<Rightarrow> sha_512" where
  "push512 b hs =
     (let hs = hs\<lparr>s512_buffer := (s512_buffer hs)[s512_buffer_len hs := b],
                s512_buffer_len := s512_buffer_len hs + 1\<rparr>
      in if s512_buffer_len hs = 128
         then let hs = transform512 (s512_buffer hs) hs;
                  hs = hs\<lparr>s512_bit_len_low := s512_bit_len_low hs + 1024\<rparr>;
                  hs = (if s512_bit_len_low hs < 1024
                        then hs\<lparr>s512_bit_len_high := s512_bit_len_high hs + 1\<rparr> else hs)
              in hs\<lparr>s512_buffer_len := 0\<rparr>
         else hs)"

definition update512 :: "bytes \<Rightarrow> sha_512 \<Rightarrow> sha_512" where
  "update512 data hs = fold push512 data hs"

definition digest512 :: "u64 list \<Rightarrow> bytes" where
  "digest512 st = concat (map (\<lambda>i. map (\<lambda>j. ucast (drop_bit (56 - j * 8) (st ! i))) [0..<8]) [0..<8])"

text \<open>\<open>finalize\<close>; \<open>junk\<close> is the uninitialised buffer of the object the receiver is reset to.\<close>

definition finalize512 :: "bytes \<Rightarrow> sha_512 \<Rightarrow> bytes \<times> sha_512" where
  "finalize512 junk hs =
     (let low = s512_bit_len_low hs + word_of_nat (s512_buffer_len hs * 8);
          high = s512_bit_len_high hs + (if low < s512_bit_len_low hs then 1 else 0);
          hs = hs\<lparr>s512_buffer := (s512_buffer hs)[s512_buffer_len hs := 0x80],
                s512_buffer_len := s512_buffer_len hs + 1\<rparr>;
          hs = (if s512_buffer_len hs > 112
               then let hs = hs\<lparr>s512_buffer := fill_zero (s512_buffer_len hs) 128 (s512_buffer hs)\<rparr>;
                        hs = transform512 (s512_buffer hs) hs
                    in hs\<lparr>s512_buffer_len := 0\<rparr>
               else hs);
          buf = fill_zero (s512_buffer_len hs) 112 (s512_buffer hs);
          buf = fold (\<lambda>i b. b[119 - i := ucast (drop_bit (i * 8) high),
                             127 - i := ucast (drop_bit (i * 8) low)]) [0..<8] buf;
          hs = transform512 buf hs
      in (digest512 (s512_state hs), new_sha_512 junk))"

definition sha_512_hash :: "bytes \<Rightarrow> bytes \<Rightarrow> bytes" where
  "sha_512_hash junk data = fst (finalize512 junk (update512 data (new_sha_512 junk)))"

section \<open>The object keeps its invariant\<close>

definition wf512 :: "sha_512 \<Rightarrow> bool" where
  "wf512 hs \<longleftrightarrow> length (s512_buffer hs) = 128 \<and> s512_buffer_len hs < 128"

definition pending512 :: "sha_512 \<Rightarrow> bytes" where
  "pending512 hs = take (s512_buffer_len hs) (s512_buffer hs)"

text \<open>The two length words hold the low 128 bits of the number of bits compressed.\<close>

definition counted512 :: "sha_512 \<Rightarrow> nat \<Rightarrow> bool" where
  "counted512 hs k \<longleftrightarrow> s512_bit_len_low hs = word_of_nat (1024 * k) \<and>
     s512_bit_len_high hs = word_of_nat (1024 * k div 2 ^ 64)"

lemma div_carry:
  fixes a b M :: nat
  assumes "b < M"
  shows "(a + b) div M = a div M + (if (a + b) mod M < a mod M then 1 else 0)"
    and "(a + b) div M = a div M + (if (a + b) mod M < b then 1 else 0)"
proof -
  have r: "a mod M < M" using assms by simp
  have d: "(a + b) div M = a div M + (a mod M + b) div M" "(a + b) mod M = (a mod M + b) mod M"
    using assms by (simp_all add: div_add1_eq [of a b] mod_add_left_eq)
  have "(a + b) div M = a div M + (if (a + b) mod M < a mod M then 1 else 0) \<and>
    (a + b) div M = a div M + (if (a + b) mod M < b then 1 else 0)"
  proof (cases "a mod M + b < M")
    case True
    then show ?thesis unfolding d by simp
  next
    case False
    moreover have "a mod M + b - M < M" using r assms False by linarith
    ultimately have "(a mod M + b) div M = 1" "(a mod M + b) mod M = a mod M + b - M"
      using assms by (simp_all add: le_div_geq le_mod_geq)
    moreover have "a mod M + b - M < a mod M" "a mod M + b - M < b" using r assms False by linarith+
    ultimately show ?thesis unfolding d by simp
  qed
  then show "(a + b) div M = a div M + (if (a + b) mod M < a mod M then 1 else 0)"
    "(a + b) div M = a div M + (if (a + b) mod M < b then 1 else 0)" by auto
qed

lemma two_word_add:
  fixes b :: nat
  assumes "b < 2 ^ 64"
  shows "word_of_nat (a div 2 ^ 64) + (if word_of_nat (a + b) < (word_of_nat a :: u64) then 1 else 0) =
      (word_of_nat ((a + b) div 2 ^ 64) :: u64)"
    and "word_of_nat (a div 2 ^ 64) + (if word_of_nat (a + b) < (word_of_nat b :: u64) then 1 else 0) =
      (word_of_nat ((a + b) div 2 ^ 64) :: u64)"
proof -
  have w: "word_of_nat (a + b) < (word_of_nat a :: u64) \<longleftrightarrow> (a + b) mod 2 ^ 64 < a mod 2 ^ 64"
    "word_of_nat (a + b) < (word_of_nat b :: u64) \<longleftrightarrow> (a + b) mod 2 ^ 64 < b"
    using assms by (simp_all add: word_less_nat_alt unat_of_nat del: of_nat_add)
  show "word_of_nat (a div 2 ^ 64) + (if word_of_nat (a + b) < (word_of_nat a :: u64) then 1 else 0) =
      (word_of_nat ((a + b) div 2 ^ 64) :: u64)"
    unfolding w div_carry(1) [OF assms, of a] by simp
  show "word_of_nat (a div 2 ^ 64) + (if word_of_nat (a + b) < (word_of_nat b :: u64) then 1 else 0) =
      (word_of_nat ((a + b) div 2 ^ 64) :: u64)"
    unfolding w div_carry(2) [OF assms, of a] by simp
qed

interpretation h512: block_hasher 128 compress512 push512 wf512 s512_state pending512 counted512
proof unfold_locales
  fix s :: sha_512 and b
  assume wf: "wf512 s"
  let ?l = "s512_buffer_len s" and ?b = "(s512_buffer s)[s512_buffer_len s := b]"
  show pl: "length (pending512 s) < 128" using wf by (simp add: wf512_def pending512_def)
  have len: "length (pending512 s) = ?l" using wf by (simp add: wf512_def pending512_def)
  have t: "take (Suc ?l) ?b = pending512 s @ [b]"
    using wf by (simp add: wf512_def pending512_def take_write)
  show "wf512 (push512 b s)" using wf by (auto simp: wf512_def push512_def transform512_def Let_def)
  show "s512_state (push512 b s) = s512_state s \<and> pending512 (push512 b s) = pending512 s @ [b] \<and>
      (\<forall>k. counted512 s k \<longrightarrow> counted512 (push512 b s) k)" if "length (pending512 s) + 1 < 128"
  proof -
    have "push512 b s = s\<lparr>s512_buffer := ?b, s512_buffer_len := Suc ?l\<rparr>"
      using that by (simp add: push512_def len)
    then show ?thesis using t by (simp add: pending512_def counted512_def)
  qed
  show "s512_state (push512 b s) = compress512 (s512_state s) (pending512 s @ [b]) \<and>
      pending512 (push512 b s) = [] \<and> (\<forall>k. counted512 s k \<longrightarrow> counted512 (push512 b s) (k + 1))"
    if "length (pending512 s) + 1 = 128"
  proof -
    have l: "Suc ?l = 128" using that len by simp
    have "?b = pending512 s @ [b]" using t l wf by (simp add: wf512_def)
    moreover have p: "push512 b s = s\<lparr>s512_buffer := ?b, s512_buffer_len := 0,
        s512_state := compress512 (s512_state s) ?b, s512_bit_len_low := s512_bit_len_low s + 1024,
        s512_bit_len_high := s512_bit_len_high s + (if s512_bit_len_low s + 1024 < 1024 then 1 else 0)\<rparr>"
      using l by (simp add: push512_def transform512_def)
    moreover have "counted512 (push512 b s) (k + 1)" if "counted512 s k" for k
    proof -
      have k: "1024 * (k + 1) = 1024 * k + 1024" "(word_of_nat (1024 * k + 1024) :: u64) = word_of_nat (1024 * k) + 1024"
        "(word_of_nat 1024 :: u64) = 1024" by simp_all
      have c: "s512_bit_len_low s = word_of_nat (1024 * k)" "s512_bit_len_high s = word_of_nat (1024 * k div 2 ^ 64)"
        using that by (simp_all only: counted512_def)
      have "s512_bit_len_low (push512 b s) = word_of_nat (1024 * k) + 1024"
        "s512_bit_len_high (push512 b s) =
           word_of_nat (1024 * k div 2 ^ 64) + (if word_of_nat (1024 * k) + 1024 < (1024 :: u64) then 1 else 0)"
        unfolding p c [symmetric] by simp_all
      then show ?thesis
        using two_word_add(2) [of 1024 "1024 * k"] unfolding counted512_def k by simp
    qed
    ultimately show ?thesis by (simp add: pending512_def)
  qed
qed simp

section \<open>Finalisation\<close>

lemma length_field512:
  assumes "length buf = 128"
  shows "fold (\<lambda>i b. b[119 - i := ucast (drop_bit (i * 8) (x :: u64)), 127 - i := ucast (drop_bit (i * 8) (y :: u64))])
    [0..<8] buf = take 112 buf @ be_bytes 8 x @ be_bytes 8 y"
proof -
  have "length (take 8 (drop 112 buf)) = 8" "length (drop 120 buf) = 8" using assms by simp_all
  then obtain c0 c1 c2 c3 c4 c5 c6 c7 d0 d1 d2 d3 d4 d5 d6 d7 where
    c: "take 8 (drop 112 buf) = [c0, c1, c2, c3, c4, c5, c6, c7]" and
    d: "drop 120 buf = [d0, d1, d2, d3, d4, d5, d6, d7]"
    using list8 by metis
  obtain p where p: "take 112 buf = p" "length p = 112" using assms by simp
  have "drop 112 buf = take 8 (drop 112 buf) @ drop 120 buf"
    using append_take_drop_id [of 8 "drop 112 buf"] by simp
  then have "buf = p @ [c0, c1, c2, c3, c4, c5, c6, c7, d0, d1, d2, d3, d4, d5, d6, d7]"
    using c d p(1) append_take_drop_id [of 112 buf] by simp
  then show ?thesis using p by (simp add: upt8 be_bytes_def list_update_append)
qed

definition length_words :: "sha_512 \<Rightarrow> bytes" where
  "length_words hs =
     (let low = s512_bit_len_low hs + word_of_nat (s512_buffer_len hs * 8)
      in be_bytes 8 (s512_bit_len_high hs + (if low < s512_bit_len_low hs then 1 else 0)) @ be_bytes 8 low)"

lemma finalize512_blocks:
  assumes "wf512 hs"
  shows "fst (finalize512 junk hs) =
    digest512 (foldl compress512 (s512_state hs) (final_blocks 128 (length_words hs) (pending512 hs)))"
proof -
  let ?l = "s512_buffer_len hs"
  let ?low = "s512_bit_len_low hs + word_of_nat (?l * 8)"
  let ?high = "s512_bit_len_high hs + (if ?low < s512_bit_len_low hs then 1 else 0)"
  let ?b = "(s512_buffer hs)[?l := 0x80]" and ?q = "pending512 hs @ [0x80]"
  let ?w = "\<lambda>buf. fold (\<lambda>i b. b[119 - i := ucast (drop_bit (i * 8) ?high), 127 - i := ucast (drop_bit (i * 8) ?low)])
    [0..<8] buf"
  have l: "?l < 128" "length ?b = 128" using assms by (simp_all add: wf512_def)
  have q: "take (Suc ?l) ?b = ?q" "length ?q = Suc ?l"
    using assms by (simp_all add: wf512_def pending512_def take_write)
  have lw: "length (length_words hs) = 16" by (simp add: length_words_def Let_def)
  have lwe: "be_bytes 8 ?high @ be_bytes 8 ?low = length_words hs" by (simp add: length_words_def Let_def)
  show ?thesis
  proof (cases "112 < Suc ?l")
    case True
    let ?z = "fill_zero (Suc ?l) 128 ?b"
    have z: "?z = ?q @ replicate (128 - Suc ?l) 0" using l q by (simp add: fill_zero_eq)
    have z2: "take 112 (fill_zero 0 112 ?z) = replicate 112 0" "length (fill_zero 0 112 ?z) = 128"
      unfolding z using l q by (subst fill_zero_eq; simp)+
    have "fst (finalize512 junk hs) =
        digest512 (compress512 (compress512 (s512_state hs) ?z) (?w (fill_zero 0 112 ?z)))"
      using True by (simp add: finalize512_def Let_def transform512_def)
    also have "?w (fill_zero 0 112 ?z) = replicate 112 0 @ length_words hs"
      unfolding length_field512 [OF z2(2)] z2(1) lwe ..
    finally show ?thesis using True q z lw by (simp add: final_blocks_def)
  next
    case False
    let ?z = "fill_zero (Suc ?l) 112 ?b"
    have fz: "?z = (?q @ replicate (112 - Suc ?l) 0) @ drop 112 ?b"
      using l q False by (subst fill_zero_eq) simp_all
    moreover have "length (?q @ replicate (112 - Suc ?l) 0) = 112" using q False by simp
    ultimately have z: "take 112 ?z = ?q @ replicate (112 - Suc ?l) 0" by (metis append_eq_conv_conj)
    have len: "length ?z = 128" using l False by (subst fill_zero_eq) simp_all
    have "fst (finalize512 junk hs) = digest512 (compress512 (s512_state hs) (?w ?z))"
      using False by (simp add: finalize512_def Let_def transform512_def)
    also have "?w ?z = (?q @ replicate (112 - Suc ?l) 0) @ length_words hs"
      unfolding length_field512 [OF len] z lwe ..
    finally show ?thesis using False q lw by (simp add: final_blocks_def)
  qed
qed

section \<open>The reference: FIPS 180-4 on the padded message\<close>

text \<open>The length field is the 128-bit number of message bits.\<close>

definition fips_sha512 :: "bytes \<Rightarrow> bytes" where
  "fips_sha512 data =
     digest512 (foldl compress512 H512
       (full_blocks 128 (md_pad 128 (be_bytes 8 (word_of_nat (8 * length data div 2 ^ 64) :: u64) @
          be_bytes 8 (word_of_nat (8 * length data) :: u64)) data)))"

lemma sha_512_hash_fips:
  assumes "length junk = 128"
  shows "sha_512_hash junk data = fips_sha512 data"
proof -
  let ?hs = "new_sha_512 junk" and ?n = "length data"
  have wf: "wf512 ?hs" "counted512 ?hs 0" "pending512 ?hs = []"
    using assms by (simp_all add: wf512_def new_sha_512_def counted512_def pending512_def)
  note u = h512.update_blocks [OF wf(1,2), of data, unfolded wf(3)]
  let ?u = "fold push512 data ?hs"
  have u1: "wf512 ?u" and u2: "s512_state ?u = foldl compress512 H512 (full_blocks 128 data)"
    and u3: "pending512 ?u = leftover 128 data" and u4: "counted512 ?u (?n div 128)"
    using u by (simp_all add: new_sha_512_def)
  have "s512_buffer_len ?u = length (pending512 ?u)" using u1 by (simp add: wf512_def pending512_def)
  then have bl: "s512_buffer_len ?u = ?n mod 128" using u3 by (simp add: length_leftover)
  have "1024 * q + r * 8 = 8 * (128 * q + r)" for q r :: nat by simp
  from this [of "?n div 128" "?n mod 128"] have e: "1024 * (?n div 128) + ?n mod 128 * 8 = 8 * ?n"
    by (simp only: mult_div_mod_eq)
  have "?n mod 128 < 128" by simp
  then have "?n mod 128 * 8 < 2 ^ 64" by (rule order_less_trans [OF mult_strict_right_mono]) simp_all
  note tw = two_word_add(1) [OF this, of "1024 * (?n div 128)", unfolded e]
  have low: "s512_bit_len_low ?u + word_of_nat (s512_buffer_len ?u * 8) = word_of_nat (8 * ?n)"
    using u4 arg_cong [OF e, of "word_of_nat :: nat \<Rightarrow> u64"] unfolding bl counted512_def by (simp only: of_nat_add)
  have "length_words ?u = be_bytes 8 (word_of_nat (8 * ?n div 2 ^ 64) :: u64) @
      be_bytes 8 (word_of_nat (8 * ?n) :: u64)"
    using u4 tw unfolding length_words_def Let_def low counted512_def by (simp only:)
  then show ?thesis
    using finalize512_blocks [OF u1, of junk] u2 u3
    by (simp only: sha_512_hash_def update512_def fips_sha512_def) (simp add: full_blocks_pad)
qed

section \<open>Properties\<close>



end
