(* ===== verification/Constant_Time.thy ===== *)
theory Constant_Time
  imports P2P_Prelude
begin

text \<open>
  The constant-time vocabulary of \<open>src/impl/crypto/util\<close>: the mask type \<open>choice\<close>
  (\<open>choice.hpp\<close>), selection and swapping of arrays (\<open>ct_array.hpp\<close>) and \<open>ct_optional\<close>. The
  concept \<open>ct_selectable\<close> is the locale of that name: \<open>ct_optional\<close> relies on nothing else, and
  every type it is used with provides the two laws. The lemmas show that the branch-free code
  is the branch it replaces.
\<close>

section \<open>choice\<close>

record choice =
  choice_val :: byte

definition choice_raw :: "byte \<Rightarrow> choice" where
  "choice_raw raw = \<lparr>choice_val = raw\<rparr>"

text \<open>The converting constructor: all ones exactly for a zero difference.\<close>

definition choice_of_diff :: "u64 \<Rightarrow> choice" where
  "choice_of_diff diff =
     (let is_non_zero = drop_bit 63 (diff OR (0 - diff))
      in \<lparr>choice_val = ucast (0 - (is_non_zero XOR 1)) AND 0xFF\<rparr>)"

definition unwrap_public :: "choice \<Rightarrow> bool" where
  "unwrap_public c \<longleftrightarrow> choice_val c \<noteq> 0"

definition choice_not :: "choice \<Rightarrow> choice" where
  "choice_not c = choice_raw (choice_val c XOR 0xFF)"

definition choice_and :: "choice \<Rightarrow> choice \<Rightarrow> choice" where
  "choice_and c d = choice_raw (choice_val c AND choice_val d)"

definition choice_or :: "choice \<Rightarrow> choice \<Rightarrow> choice" where
  "choice_or c d = choice_raw (choice_val c OR choice_val d)"

definition choice_xor :: "choice \<Rightarrow> choice \<Rightarrow> choice" where
  "choice_xor c d = choice_raw (choice_val c XOR choice_val d)"

text \<open>\<open>mask\<close> sign-extends the byte to 64 bits.\<close>

definition choice_mask :: "choice \<Rightarrow> u64" where
  "choice_mask c = scast (choice_val c)"

definition from_equal :: "u64 \<Rightarrow> u64 \<Rightarrow> choice" where
  "from_equal a b = choice_of_diff (a - b)"

definition true_choice :: choice where
  "true_choice = choice_raw 0xFF"

definition false_choice :: choice where
  "false_choice = choice_raw 0x00"

definition from_zero :: "u64 \<Rightarrow> choice" where
  "from_zero value = choice_of_diff value"

definition from_nonzero :: "u64 \<Rightarrow> choice" where
  "from_nonzero value = choice_not (choice_of_diff value)"

section \<open>Arrays and optional values\<close>

definition array_ct_select :: "'a::len word list \<Rightarrow> 'a word list \<Rightarrow> choice \<Rightarrow> 'a word list" where
  "array_ct_select a b c =
     (let m = ucast (choice_mask c) in map2 (\<lambda>x y. (x AND m) OR (y AND NOT m)) a b)"

definition array_ct_swap ::
  "'a::len word list \<Rightarrow> 'a word list \<Rightarrow> choice \<Rightarrow> 'a word list \<times> 'a word list" where
  "array_ct_swap a b c =
     (let m = ucast (choice_mask c); diffs = map2 (\<lambda>x y. m AND (x XOR y)) a b
      in (map2 (XOR) a diffs, map2 (XOR) b diffs))"

record 'a ct_optional =
  opt_value :: 'a
  opt_valid :: choice

definition ct_some :: "'a \<Rightarrow> 'a ct_optional" where
  "ct_some v = \<lparr>opt_value = v, opt_valid = true_choice\<rparr>"

text \<open>\<open>dflt\<close> is the default-initialised value \<open>T{}\<close>.\<close>

definition ct_none :: "'a \<Rightarrow> 'a ct_optional" where
  "ct_none dflt = \<lparr>opt_value = dflt, opt_valid = false_choice\<rparr>"

definition from_choice :: "'a \<Rightarrow> choice \<Rightarrow> 'a ct_optional" where
  "from_choice v c = \<lparr>opt_value = v, opt_valid = c\<rparr>"

text \<open>\<open>value_or\<close> calls the \<open>ct_select\<close> of the value's type, here its first argument.\<close>

definition value_or :: "('a \<Rightarrow> 'a \<Rightarrow> choice \<Rightarrow> 'a) \<Rightarrow> 'a ct_optional \<Rightarrow> 'a \<Rightarrow> 'a" where
  "value_or sel x fallback = sel (opt_value x) fallback (opt_valid x)"

definition is_some_public :: "'a ct_optional \<Rightarrow> bool" where
  "is_some_public x = unwrap_public (opt_valid x)"

section \<open>A choice is a truth value\<close>

text \<open>\<open>choice_of b\<close>: the two bytes a choice can hold.\<close>

definition choice_of :: "bool \<Rightarrow> choice" where
  "choice_of b = (if b then true_choice else false_choice)"

lemma unwrap_choice_of [simp]: "unwrap_public (choice_of b) = b"
  by (simp add: unwrap_public_def choice_of_def true_choice_def false_choice_def choice_raw_def)

lemma choice_of_inject [simp]: "choice_of a = choice_of b \<longleftrightarrow> a = b"
  by (simp add: choice_of_def true_choice_def false_choice_def choice_raw_def)

lemma choice_consts: "true_choice = choice_of True" "false_choice = choice_of False"
  by (simp_all add: choice_of_def)

lemma choice_ops [simp]:
  "choice_not (choice_of a) = choice_of (\<not> a)"
  "choice_and (choice_of a) (choice_of b) = choice_of (a \<and> b)"
  "choice_or (choice_of a) (choice_of b) = choice_of (a \<or> b)"
  "choice_xor (choice_of a) (choice_of b) = choice_of (a \<noteq> b)"
  by (simp_all add: choice_not_def choice_and_def choice_or_def choice_xor_def choice_of_def
      true_choice_def false_choice_def choice_raw_def)

text \<open>The sign of \<open>diff | -diff\<close> tells zero from non-zero.\<close>

lemma top_bit_u64: "drop_bit 63 x = (if bit x 63 then 1 else 0)" for x :: u64
  proof (rule bit_word_eqI)
  fix n
  assume "n < LENGTH(64)"
  have "\<not> bit x (63 + n)" if "n \<noteq> 0" using that bit_imp_le_length [of x "63 + n"] by auto
  then show "bit (drop_bit 63 x) n = bit (if bit x 63 then 1 else 0 :: u64) n"
    by (cases "n = 0") (simp_all add: bit_simps)
qed

lemma bit_63_iff: "bit x 63 \<longleftrightarrow> 2 ^ 63 \<le> unat x" for x :: u64
proof -
  have "unat x < 2 ^ LENGTH(64)" by (rule unsigned_less)
  then have lt: "unat x div 2 ^ 63 < 2" by (intro less_mult_imp_div_less) simp
  have "bit x 63 \<longleftrightarrow> odd (unat x div 2 ^ 63)"
    using bit_unsigned_iff [of x 63, where 'a = nat] by (simp add: bit_iff_odd)
  also have "\<dots> \<longleftrightarrow> unat x div 2 ^ 63 \<noteq> 0" using lt by (auto simp: less_2_cases_iff)
  finally show ?thesis by (simp add: div_eq_0_iff linorder_not_less)
qed

lemma unat_uminus_sum:
  fixes x :: u64
  assumes "x \<noteq> 0"
  shows "unat (0 - x) + unat x = 2 ^ 64"
proof -
  let ?s = "unat (0 - x) + unat x"
  have "unat ((0 - x) + x) = ?s mod 2 ^ 64" by (simp only: unat_word_ariths len_num1 len_num0 len_bit0 len_bit1) simp
  then have "?s mod 2 ^ 64 = 0" by simp
  moreover have "0 < ?s" using assms by (simp add: unat_gt_0)
  moreover have "unat (0 - x) < 2 ^ LENGTH(64)" "unat x < 2 ^ LENGTH(64)" by (rule unsigned_less)+
  then have "?s < 2 * 2 ^ 64" by simp
  ultimately show ?thesis by (auto simp: mod_eq_0_iff_dvd elim!: dvdE)
qed

lemma nonzero_bit: "drop_bit 63 (d OR (0 - d)) = (if d = 0 then 0 else 1)" for d :: u64
proof (cases "d = 0")
  case False
  then have "unat (0 - d) + unat d = 2 ^ 64" by (rule unat_uminus_sum)
  then have "2 ^ 63 \<le> unat d \<or> 2 ^ 63 \<le> unat (0 - d)" by simp linarith
  then have "bit (d OR (0 - d)) 63" unfolding bit_63_iff [symmetric] by (simp only: bit_or_iff)
  then show ?thesis using False by (simp only: top_bit_u64 if_True if_False)
qed simp

lemma choice_of_diff_eq [simp]: "choice_of_diff d = choice_of (d = 0)"
proof -
  have "choice_of_diff d = \<lparr>choice_val = ucast (0 - ((if d = 0 then 0 else 1) XOR 1 :: u64)) AND 0xFF\<rparr>"
    by (simp only: choice_of_diff_def Let_def nonzero_bit)
  moreover have "ucast (- 1 :: u64) AND 0xFF = (0xFF :: byte)" by code_simp
  ultimately show ?thesis
    by (simp add: choice_of_def true_choice_def false_choice_def choice_raw_def)
qed

lemma from_choices [simp]:
  "from_equal a b = choice_of (a = b)" "from_zero a = choice_of (a = 0)"
  "from_nonzero a = choice_of (a \<noteq> 0)"
  by (simp_all add: from_equal_def from_zero_def from_nonzero_def)

lemma choice_mask_of [simp]: "choice_mask (choice_of b) = (if b then - 1 else 0)"
  by (simp add: choice_mask_def choice_of_def true_choice_def false_choice_def choice_raw_def)

lemma ucast_minus_1_u64: "LENGTH('a) \<le> 64 \<Longrightarrow> (ucast (- 1 :: u64) :: 'a::len word) = - 1"
  by (rule bit_word_eqI) (simp add: bit_simps)

lemma select_bits: "(x AND - 1) OR (y AND NOT (- 1)) = x" "(x AND 0) OR (y AND NOT 0) = y"
  for x y :: "'a::len word"
  by simp_all

lemma map2_projections:
  "length xs = length ys \<Longrightarrow> map2 (\<lambda>x y. x) xs ys = xs"
  "length xs = length ys \<Longrightarrow> map2 (\<lambda>x y. y) xs ys = ys"
  by (induction xs ys rule: list_induct2) simp_all

lemma array_ct_select_eq:
  fixes a b :: "'a::len word list"
  assumes "LENGTH('a) \<le> 64" and "length a = length b"
  shows "array_ct_select a b (choice_of t) = (if t then a else b)"
  using assms by (simp add: array_ct_select_def ucast_minus_1_u64 map2_projections)

lemma array_ct_swap_eq:
  fixes a b :: "'a::len word list"
  assumes "LENGTH('a) \<le> 64" and "length a = length b"
  shows "array_ct_swap a b (choice_of t) = (if t then (b, a) else (a, b))"
proof -
  define m where "m = (if t then - 1 else 0 :: 'a word)"
  have m: "ucast (choice_mask (choice_of t)) = m"
    using assms(1) by (simp add: m_def ucast_minus_1_u64)
  have x: "x XOR (m AND (x XOR y)) = (if t then y else x)" "y XOR (m AND (x XOR y)) = (if t then x else y)"
    for x y by (simp_all add: m_def xor.assoc [symmetric]) (simp add: xor.commute [of y x] xor.assoc)
  have "map2 (XOR) a (map2 (\<lambda>x y. m AND (x XOR y)) a b) = (if t then b else a)"
    "map2 (XOR) b (map2 (\<lambda>x y. m AND (x XOR y)) a b) = (if t then a else b)"
    using assms(2) by (induction a b rule: list_induct2) (simp_all add: x)
  then show ?thesis unfolding array_ct_swap_def m Let_def by simp
qed

section \<open>The interface ct\_selectable\<close>

locale ct_selectable =
  fixes sel :: "'a \<Rightarrow> 'a \<Rightarrow> choice \<Rightarrow> 'a" and wf :: "'a \<Rightarrow> bool"
  assumes sel_true: "wf a \<Longrightarrow> wf b \<Longrightarrow> sel a b true_choice = a"
    and sel_false: "wf a \<Longrightarrow> wf b \<Longrightarrow> sel a b false_choice = b"
begin

lemma sel_if: "wf a \<Longrightarrow> wf b \<Longrightarrow> sel a b (choice_of t) = (if t then a else b)"
  by (simp add: choice_of_def sel_true sel_false)

lemma value_or_option:
  assumes "wf (opt_value x)" and "wf d" and "opt_valid x = choice_of t"
  shows "value_or sel x d = (case (if t then Some (opt_value x) else None) of Some v \<Rightarrow> v | None \<Rightarrow> d)"
  using assms by (simp add: value_or_def sel_if)

end

text \<open>Byte arrays of a fixed size provide it.\<close>

interpretation byte_array: ct_selectable array_ct_select "\<lambda>a :: bytes. length a = n" for n
  by unfold_locales (simp_all add: choice_consts array_ct_select_eq)

section \<open>Properties\<close>

text \<open>
  C35. A \<open>choice\<close> is a truth value: for every word the converting constructor gives one of the two
  bytes \<open>0x00\<close> and \<open>0xFF\<close>, never a third; \<open>from_equal\<close>, \<open>from_zero\<close> and \<open>from_nonzero\<close> decide their
  names; the bitwise operators are the connectives and stay within the two bytes; and the mask is
  all ones or zero, so that selecting and swapping byte arrays of equal size is the branch.
\<close>

theorem choice_is_a_truth_value:
  fixes x y :: u64 and a b :: bytes
  assumes "length a = length b"
  shows "choice_val (choice_of_diff x) \<in> {0x00, 0xFF} \<and>
    unwrap_public (from_equal x y) = (x = y) \<and> unwrap_public (from_zero x) = (x = 0) \<and>
    unwrap_public (from_nonzero x) = (x \<noteq> 0) \<and>
    choice_and (from_zero x) (choice_not (from_zero y)) = (if x = 0 \<and> y \<noteq> 0 then true_choice else false_choice) \<and>
    choice_or (from_zero x) (from_zero y) = (if x = 0 \<or> y = 0 then true_choice else false_choice) \<and>
    choice_xor (from_zero x) (from_zero y) = (if (x = 0) \<noteq> (y = 0) then true_choice else false_choice) \<and>
    array_ct_select a b (from_equal x y) = (if x = y then a else b) \<and>
    array_ct_swap a b (from_equal x y) = (if x = y then (b, a) else (a, b))"
proof -
  have "choice_val (choice_of_diff x) \<in> {0x00, 0xFF}"
    by (simp add: choice_of_def true_choice_def false_choice_def choice_raw_def)
  then show ?thesis
    using assms by (simp add: array_ct_select_eq array_ct_swap_eq flip: choice_of_def)
qed

theorem choice_is_a_truth_value_witness:
  "array_ct_swap [1, 2] [3, 4 :: byte] (from_equal 7 7) = ([3, 4], [1, 2]) \<and>
   array_ct_select [1, 2] [3, 4 :: byte] (from_equal 7 8) = [3, 4]"
  using choice_is_a_truth_value [of "[1, 2]" "[3, 4]" 7 7] choice_is_a_truth_value [of "[1, 2]" "[3, 4]" 7 8]
  by simp

end
