(* ===== verification/Field_25519.thy ===== *)
theory Field_25519
  imports Limb_Bytes Constant_Time
begin

text \<open>
  The field of \<open>src/impl/crypto/util/math/field/field_25519.hpp\<close> and \<open>field_25519.cpp\<close>: numbers
  modulo $2^{255} - 19$ in five limbs of 51 bits, each in a \<open>uint64_t\<close>; products are accumulated
  in \<open>__uint128_t\<close>. The class has the single member \<open>limbs\<close>, so an element is its list of five
  words. Equality, zero test, negation and square root go through \<open>choice\<close> masks. (The header
  also declares \<open>operator-(uint64_t)\<close>, which is nowhere defined.)
\<close>

type_synonym fe = "u64 list"

type_synonym u128 = "128 word"

definition MASK51 :: u64 where
  "MASK51 = push_bit 51 1 - 1"

definition fe_p :: fe where
  "fe_p = [push_bit 51 1 - 1 - 18, push_bit 51 1 - 1, push_bit 51 1 - 1, push_bit 51 1 - 1, push_bit 51 1 - 1]"

definition fe_one :: fe where
  "fe_one = [1, 0, 0, 0, 0]"

definition fe_zero :: fe where
  "fe_zero = [0, 0, 0, 0, 0]"

text \<open>\<open>operator+\<close> for an element and for a word: no carries.\<close>

definition fe_add :: "fe \<Rightarrow> fe \<Rightarrow> fe" where
  "fe_add a b = map2 (\<lambda>x y. y + x) a b"

definition fe_add_u64 :: "fe \<Rightarrow> u64 \<Rightarrow> fe" where
  "fe_add_u64 a n = a[0 := a ! 0 + n]"

definition fe_select :: "fe \<Rightarrow> fe \<Rightarrow> choice \<Rightarrow> fe" where
  "fe_select a b c = (let m = choice_mask c in map2 (\<lambda>x y. (x AND m) OR (y AND NOT m)) a b)"

definition fe_swap :: "fe \<Rightarrow> fe \<Rightarrow> choice \<Rightarrow> fe \<times> fe" where
  "fe_swap a b c =
     (let m = choice_mask c
      in (map2 (\<lambda>x y. (x AND NOT m) OR (y AND m)) a b, map2 (\<lambda>x y. (x AND m) OR (y AND NOT m)) a b))"

section \<open>Reduction\<close>

definition eq_raw :: "fe \<Rightarrow> fe \<Rightarrow> choice" where
  "eq_raw a b =
     choice_and (choice_and (choice_and (choice_and (from_equal (a ! 0) (b ! 0)) (from_equal (a ! 1) (b ! 1)))
       (from_equal (a ! 2) (b ! 2))) (from_equal (a ! 3) (b ! 3))) (from_equal (a ! 4) (b ! 4))"

text \<open>The comparison with $p, \<dots>, p + 18$: the body of the last loop of \<open>reduce_inplace\<close>.\<close>

definition canonical_step :: "fe \<Rightarrow> nat \<Rightarrow> fe \<times> choice \<Rightarrow> fe \<times> choice" where
  "canonical_step l i = (\<lambda>(canonical, any_hit).
     let hit = eq_raw l (fe_add_u64 fe_p (word_of_nat i))
     in (fe_select (fe_add_u64 fe_zero (word_of_nat i)) canonical hit, choice_or any_hit hit))"

definition fe_reduce :: "fe \<Rightarrow> fe" where
  "fe_reduce l =
     (let l = carry_pass 51 4 l;
          l = l[0 := l ! 0 + drop_bit 51 (l ! 4) * 19];
          l = l[4 := l ! 4 AND MASK51];
          l = carry_pass 51 4 l;
          (canonical, any_hit) = fold (canonical_step l) [0..<19] (fe_zero, false_choice)
      in fe_select canonical l any_hit)"

section \<open>Arithmetic\<close>

definition fe_sub :: "fe \<Rightarrow> fe \<Rightarrow> fe" where
  "fe_sub a b = (let x = fe_reduce b; r = map2 (-) fe_p x in fe_add r a)"

definition fe_neg :: "fe \<Rightarrow> fe" where
  "fe_neg a = fe_sub fe_p a"

text \<open>The lambda \<open>reduce_digits\<close>, written twice in the source.\<close>

definition reduce_digits :: "u128 list \<Rightarrow> fe" where
  "reduce_digits digits =
     (let digits = carry_pass 51 8 digits;
          out = [digits ! 0 + digits ! 5 * 19, digits ! 1 + digits ! 6 * 19,
                 digits ! 2 + digits ! 7 * 19, digits ! 3 + digits ! 8 * 19, digits ! 4];
          out = carry_pass 51 4 out;
          out = out[0 := out ! 0 + drop_bit 51 (out ! 4) * 19];
          out = out[4 := out ! 4 AND ucast MASK51];
          out = carry_pass 51 4 out
      in map ucast out)"

definition fe_mul :: "fe \<Rightarrow> fe \<Rightarrow> fe" where
  "fe_mul a b = reduce_digits (mul_digits (map ucast a) (map ucast b))"

text \<open>\<open>square\<close> adds the squares first, then every mixed product once with a doubled factor.\<close>

definition square_digits :: "u128 list \<Rightarrow> u128 list" where
  "square_digits a =
     (let d = fold (\<lambda>i d. d[2 * i := d ! (2 * i) + a ! i * a ! i]) [0..<5] (replicate 9 0)
      in fold (\<lambda>i d. let ai2 = a ! i * 2
           in fold (\<lambda>j d. d[i + j := d ! (i + j) + ai2 * a ! j]) [i + 1..<5] d) [0..<5] d)"

definition fe_square :: "fe \<Rightarrow> fe" where
  "fe_square a = reduce_digits (square_digits (map ucast a))"

fun sq_n :: "fe \<Rightarrow> nat \<Rightarrow> fe" where
  "sq_n x 0 = x"
| "sq_n x (Suc n) = sq_n (fe_square x) n"

text \<open>
  The addition chain that \<open>invert\<close>, \<open>i\<close> and \<open>sqrt\<close> share: it gives \<open>z\<^sup>2\<close>, \<open>z\<^sup>1\<^sup>1\<close> and
  \<open>z\<close> to the power $2^{250} - 1$.
\<close>

definition chain_250 :: "fe \<Rightarrow> fe \<times> fe \<times> fe" where
  "chain_250 z =
     (let z2 = fe_square z;
          z9 = fe_mul (sq_n z2 2) z;
          z11 = fe_mul z9 z2;
          z2_5 = fe_mul (fe_square z11) z9;
          z2_10 = fe_mul (sq_n z2_5 5) z2_5;
          z2_20 = fe_mul (sq_n z2_10 10) z2_10;
          z2_40 = fe_mul (sq_n z2_20 20) z2_20;
          z2_50 = fe_mul (sq_n z2_40 10) z2_10;
          z2_100 = fe_mul (sq_n z2_50 50) z2_50;
          z2_200 = fe_mul (sq_n z2_100 100) z2_100;
          z2_250 = fe_mul (sq_n z2_200 50) z2_50
      in (z2, z11, z2_250))"

definition fe_invert :: "fe \<Rightarrow> fe" where
  "fe_invert z = (let (z2, z11, z2_250) = chain_250 z in fe_mul (sq_n z2_250 5) z11)"

definition fe_eq :: "fe \<Rightarrow> fe \<Rightarrow> choice" where
  "fe_eq this other =
     (let a = fe_reduce other; b = fe_reduce this
      in fold (\<lambda>i r. choice_and r (from_equal (a ! i) (b ! i))) [0..<5] true_choice)"

definition fe_is_zero :: "fe \<Rightarrow> choice" where
  "fe_is_zero a =
     (let reduced = fe_reduce a
      in from_equal (fold (\<lambda>i diff. diff OR reduced ! i) [0..<5] 0) 0)"

definition fe_i :: fe where
  "fe_i = (let z = fe_add fe_one fe_one; (z2, z11, z2_250) = chain_250 z
           in fe_mul (fe_mul (sq_n z2_250 3) z) z2)"

definition fe_sqrt :: "fe \<Rightarrow> fe ct_optional" where
  "fe_sqrt z =
     (let (z2, z11, z2_250) = chain_250 z;
          a = fe_mul (sq_n z2_250 2) z2;
          a_2 = fe_square a;
          are_equal = fe_eq a_2 z;
          are_equal_neg = fe_eq a_2 (fe_neg z);
          a_rotated = fe_mul a fe_i;
          result = fe_select a a_rotated are_equal;
          is_root = choice_or are_equal are_equal_neg
      in from_choice result is_root)"

section \<open>Bytes\<close>

definition fe_store :: "fe \<Rightarrow> bytes" where
  "fe_store l =
     [byte_of (l ! 0) 0 0xFF, byte_of (l ! 0) 8 0xFF, byte_of (l ! 0) 16 0xFF, byte_of (l ! 0) 24 0xFF,
      byte_of (l ! 0) 32 0xFF, byte_of (l ! 0) 40 0xFF,
      byte_of (l ! 0) 48 0x07 OR byte_of (push_bit 3 (l ! 1)) 0 0xFF,
      byte_of (l ! 1) 5 0xFF, byte_of (l ! 1) 13 0xFF, byte_of (l ! 1) 21 0xFF, byte_of (l ! 1) 29 0xFF,
      byte_of (l ! 1) 37 0xFF,
      byte_of (l ! 1) 45 0x3F OR byte_of (push_bit 6 (l ! 2)) 0 0xFF,
      byte_of (l ! 2) 2 0xFF, byte_of (l ! 2) 10 0xFF, byte_of (l ! 2) 18 0xFF, byte_of (l ! 2) 26 0xFF,
      byte_of (l ! 2) 34 0xFF, byte_of (l ! 2) 42 0xFF,
      byte_of (l ! 2) 50 0x01 OR byte_of (push_bit 1 (l ! 3)) 0 0xFF,
      byte_of (l ! 3) 7 0xFF, byte_of (l ! 3) 15 0xFF, byte_of (l ! 3) 23 0xFF, byte_of (l ! 3) 31 0xFF,
      byte_of (l ! 3) 39 0xFF,
      byte_of (l ! 3) 47 0x0F OR byte_of (push_bit 4 (l ! 4)) 0 0xFF,
      byte_of (l ! 4) 4 0xFF, byte_of (l ! 4) 12 0xFF, byte_of (l ! 4) 20 0xFF, byte_of (l ! 4) 28 0xFF,
      byte_of (l ! 4) 36 0xFF, byte_of (l ! 4) 44 0x7F]"

definition fe_to_bytes :: "fe \<Rightarrow> bytes" where
  "fe_to_bytes f = fe_store (fe_reduce f)"

definition fe_load :: "bytes \<Rightarrow> fe" where
  "fe_load b =
     [ld b 0 7 0 AND MASK51,
      (drop_bit 3 (ucast (b ! 6)) OR ld b 7 6 5) AND MASK51,
      (drop_bit 6 (ucast (b ! 12)) OR ld b 13 7 2) AND MASK51,
      (drop_bit 1 (ucast (b ! 19)) OR ld b 20 6 7) AND MASK51,
      (drop_bit 4 (ucast (b ! 25)) OR ld b 26 6 4) AND MASK51]"

definition fe_from_bytes :: "bytes \<Rightarrow> fe" where
  "fe_from_bytes b = fe_reduce (fe_load (b[31 := b ! 31 AND 0x7F]))"

section \<open>The number an element stands for\<close>

definition p25519 :: nat where
  "p25519 = 2 ^ 255 - 19"

abbreviation feval :: "fe \<Rightarrow> nat" where
  "feval \<equiv> lval 51"

lemma MASK51_mask [simp]: "MASK51 = mask 51"
  by (simp add: MASK51_def mask_eq_exp_minus_1)

lemma MASK51_wide: "(ucast (mask 51 :: u64) :: u128) = mask 51"
  by (simp add: mask_eq_exp_minus_1)

lemma unat_list_inject: "map unat xs = map unat (ys :: 'a::len word list) \<longleftrightarrow> xs = ys"
proof
  assume "map unat xs = map unat ys"
  then show "xs = ys" by (rule map_injective) (simp add: inj_def word_unat_eq_iff)
qed simp

lemma length_fe_consts [simp]: "length fe_p = 5" "length fe_one = 5" "length fe_zero = 5"
  by (simp_all add: fe_p_def fe_one_def fe_zero_def)

lemma length_fe_add [simp]: "length (fe_add a b) = min (length a) (length b)"
  by (simp add: fe_add_def)

lemma length_fe_add_u64 [simp]: "length (fe_add_u64 a n) = length a"
  by (simp add: fe_add_u64_def)

lemma fe_select_if:
  "length a = length b \<Longrightarrow> fe_select a b (choice_of t) = (if t then a else b)"
  by (simp add: fe_select_def map2_projections)

text \<open>Field elements provide the interface \<open>ct_selectable\<close>, and \<open>ct_swap\<close> is the conditional swap.\<close>

interpretation fe_ct: ct_selectable fe_select "\<lambda>a. length a = 5"
  by unfold_locales (simp_all add: choice_consts fe_select_if)

lemma fe_swap_if:
  "length a = length b \<Longrightarrow> fe_swap a b (choice_of t) = (if t then (b, a) else (a, b))"
  by (simp add: fe_swap_def map2_projections)

lemma nth_5_eq:
  assumes "length a = 5" and "length b = 5"
  shows "a = b \<longleftrightarrow> a ! 0 = b ! 0 \<and> a ! 1 = b ! 1 \<and> a ! 2 = b ! 2 \<and> a ! 3 = b ! 3 \<and> a ! 4 = b ! 4"
  using list5 [OF assms(1)] list5 [OF assms(2)] by auto

lemma eq_raw_eq: "length a = 5 \<Longrightarrow> length b = 5 \<Longrightarrow> eq_raw a b = choice_of (a = b)"
  by (simp add: eq_raw_def nth_5_eq conj_assoc)

section \<open>Reduction\<close>

text \<open>The nineteen representations the last loop looks for.\<close>

abbreviation p_plus :: "nat \<Rightarrow> fe" where
  "p_plus i \<equiv> fe_add_u64 fe_p (word_of_nat i)"

lemma map_unat_p_plus:
  assumes "i \<le> 18"
  shows "map unat (p_plus i) = digs 51 4 (p25519 + i)"
proof -
  have p: "fe_p = [0x7FFFFFFFFFFED, 0x7FFFFFFFFFFFF, 0x7FFFFFFFFFFFF, 0x7FFFFFFFFFFFF, 0x7FFFFFFFFFFFF]"
    by (simp add: fe_p_def)
  have u: "unat (0x7FFFFFFFFFFED + word_of_nat i :: u64) = 0x7FFFFFFFFFFED + i"
    using assms by (simp add: unat_word_ariths unat_of_nat)
  have n: "unat (0x7FFFFFFFFFFFF :: u64) = 0x7FFFFFFFFFFFF" by simp
  have m: "map unat (p_plus i) = [0x7FFFFFFFFFFED + i, 0x7FFFFFFFFFFFF, 0x7FFFFFFFFFFFF, 0x7FFFFFFFFFFFF, 0x7FFFFFFFFFFFF]"
    unfolding p fe_add_u64_def by (simp only: nth_Cons_0 list_update.simps nat.case list.map u n)
  have "map unat (p_plus i) = digs 51 4 (nval 51 (map unat (p_plus i)))"
    using assms by (intro digs4_unique) (simp_all add: m)
  also have "nval 51 (map unat (p_plus i)) = p25519 + i" by (simp add: m p25519_def)
  finally show ?thesis .
qed

lemma canonical_scan:
  assumes "length l = 5"
  shows "\<exists>c. fold (canonical_step l) [0..<n] (fe_zero, false_choice) =
      (c, choice_of (\<exists>i<n. l = p_plus i)) \<and> length c = 5 \<and>
      (\<forall>i<n. l = p_plus i \<and> (\<forall>j<n. l = p_plus j \<longrightarrow> j = i) \<longrightarrow> c = fe_add_u64 fe_zero (word_of_nat i))"
proof (induction n)
  case 0
  then show ?case by (simp add: choice_consts)
next
  case (Suc n)
  then obtain c where c: "fold (canonical_step l) [0..<n] (fe_zero, false_choice) =
      (c, choice_of (\<exists>i<n. l = p_plus i))" "length c = 5"
    "\<And>i. i < n \<Longrightarrow> l = p_plus i \<Longrightarrow> \<forall>j<n. l = p_plus j \<longrightarrow> j = i \<Longrightarrow> c = fe_add_u64 fe_zero (word_of_nat i)"
    by blast
  let ?c = "if l = p_plus n then fe_add_u64 fe_zero (word_of_nat n) else c"
  have "(\<exists>i<Suc n. l = p_plus i) \<longleftrightarrow> (\<exists>i<n. l = p_plus i) \<or> l = p_plus n"
    by (auto simp: less_Suc_eq)
  then have f1: "fold (canonical_step l) [0..<Suc n] (fe_zero, false_choice) =
      (?c, choice_of (\<exists>i<Suc n. l = p_plus i))"
    using assms c(2) by (simp add: c(1) canonical_step_def eq_raw_eq fe_select_if)
  have f2: "?c = fe_add_u64 fe_zero (word_of_nat i)"
    if i: "i < Suc n" "l = p_plus i \<and> (\<forall>j<Suc n. l = p_plus j \<longrightarrow> j = i)" for i
  proof (cases "l = p_plus n")
    case True
    then have "n = i" using i(2) lessI by blast
    then show ?thesis using if_P [OF True] by (simp only:)
  next
    case False
    then have "i \<noteq> n" using i(2) by blast
    then have "i < n" using i(1) by simp
    moreover have "\<forall>j<n. l = p_plus j \<longrightarrow> j = i" using i(2) less_SucI by blast
    ultimately show ?thesis using c(3) [of i] i(2) unfolding if_not_P [OF False] by blast
  qed
  have "length ?c = 5" using c(2) by simp
  then show ?case by (intro exI [of _ ?c] conjI allI impI f1) (assumption | erule (1) f2)+
qed

lemma p_plus_inj: "i \<le> 18 \<Longrightarrow> j \<le> 18 \<Longrightarrow> p_plus i = p_plus j \<Longrightarrow> i = j"
  by (metis add_left_imp_eq map_unat_p_plus nval_digs)

text \<open>What \<open>reduce_inplace\<close> does to the number, with no assumption but room for the carries.\<close>

definition last_fold :: "nat \<Rightarrow> nat" where
  "last_fold v = (if p25519 \<le> v \<and> v < 2 ^ 255 then v - p25519 else v)"

lemma fe_scan_digs:
  assumes "map unat l = digs 51 4 v"
  shows "map unat (let (canonical, any_hit) = fold (canonical_step l) [0..<19] (fe_zero, false_choice)
      in fe_select canonical l any_hit) = digs 51 4 (last_fold v)"
proof -
  have len: "length l = 5" using length_of_digs [OF assms] by simp
  obtain c where c: "fold (canonical_step l) [0..<19] (fe_zero, false_choice) =
      (c, choice_of (\<exists>i<19. l = p_plus i))" "length c = 5"
    "\<And>i. i < 19 \<Longrightarrow> l = p_plus i \<and> (\<forall>j<19. l = p_plus j \<longrightarrow> j = i) \<Longrightarrow> c = fe_add_u64 fe_zero (word_of_nat i)"
    using canonical_scan [OF len, of 19] by blast
  have hit: "l = p_plus i \<longleftrightarrow> v = p25519 + i" if "i \<le> 18" for i
    using that assms map_unat_p_plus [of i] by (metis nval_digs unat_list_inject)
  show ?thesis
  proof (cases "p25519 \<le> v \<and> v < 2 ^ 255")
    case True
    define i where "i = v - p25519"
    have v: "v = p25519 + i" and i: "i \<le> 18" using True by (auto simp: i_def p25519_def)
    have l: "l = p_plus i" using hit [OF i] v by blast
    have "\<forall>j<19. l = p_plus j \<longrightarrow> j = i" using p_plus_inj i l by auto
    then have "c = fe_add_u64 fe_zero (word_of_nat i)" using c(3) [of i] i l by auto
    moreover have "unat (word_of_nat i :: u64) = i" using i by (simp add: unat_of_nat)
    ultimately have cm: "map unat c = [i, 0, 0, 0, 0]" by (simp add: fe_add_u64_def fe_zero_def)
    then have "map unat c = digs 51 4 i"
      using digs4_unique [of "map unat c" 51] i by (simp add: c(2))
    moreover have "\<exists>i<19. l = p_plus i" using l i by (intro exI [of _ i]) auto
    ultimately show ?thesis
      using True c(1,2) len by (simp add: fe_select_if last_fold_def i_def)
  next
    case False
    have "\<not> (\<exists>i<19. l = p_plus i)"
    proof
      assume "\<exists>i<19. l = p_plus i"
      then obtain i where "i < 19" "l = p_plus i" by blast
      then have "v = p25519 + i" "i \<le> 18" using hit [of i] by simp_all
      then show False using False by (simp add: p25519_def)
    qed
    moreover have "last_fold v = v" using False unfolding last_fold_def by (rule if_not_P)
    ultimately show ?thesis
      using c(2) len assms unfolding c(1) by (simp add: fe_select_if) blast
  qed
qed

lemma feval_bound:
  assumes "length l = 5" and "list_all (\<lambda>x. unat x < 2 ^ 63) l"
  shows "feval l div 2 ^ 255 \<le> 2 ^ 13"
proof -
  obtain a b c d e where l: "l = [a, b, c, d, e]" using list5 assms(1) by blast
  have "feval l < (2 ^ 13 + 1) * 2 ^ 255"
    using assms(2) by (simp add: l lval5)
  then have "feval l div 2 ^ 255 < 2 ^ 13 + 1" by (rule less_mult_imp_div_less)
  then show ?thesis by simp
qed

lemma fe_reduce_digs:
  assumes "length l = 5" and "list_all (\<lambda>x. unat x < 2 ^ 63) l"
  shows "map unat (fe_reduce l) = digs 51 4 (last_fold (fold_top 255 19 (feval l)))"
proof -
  have room: "2 ^ 51 + 19 * (feval l div 2 ^ 255) \<le> 2 ^ LENGTH(64)"
    using feval_bound [OF assms] by simp
  have "roomy 51 x" if "unat x < 2 ^ 63" for x :: u64 using that by (simp add: roomy_def)
  then have rm: "list_all (roomy 51) (tl l)"
    using assms by (cases l) (auto simp: list_all_iff)
  have wd: "map unat (weak_reduce 51 19 l) = digs 51 4 (fold_top 255 19 (feval l))"
    using r51.weak_reduce_digits [OF assms(1) rm] room by simp
  have "fe_reduce l = (let (canonical, any_hit) =
      fold (canonical_step (weak_reduce 51 19 l)) [0..<19] (fe_zero, false_choice)
      in fe_select canonical (weak_reduce 51 19 l) any_hit)"
    by (simp add: fe_reduce_def weak_reduce_def wrap_top_def Let_def)
  then show ?thesis using fe_scan_digs [OF wd] by simp
qed

lemma last_fold_mod: "last_fold v mod p25519 = v mod p25519"
  by (simp add: last_fold_def le_mod_geq)

lemma fold_mod_p: "fold_top 255 19 v mod p25519 = v mod p25519"
  unfolding p25519_def by (rule fold_top_mod) simp

lemma fe_reduce_mod:
  assumes "length l = 5" and "list_all (\<lambda>x. unat x < 2 ^ 63) l"
  shows "feval (fe_reduce l) mod p25519 = feval l mod p25519"
  using digs_eq_lval [OF fe_reduce_digs [OF assms]] by (simp only: last_fold_mod fold_mod_p)

text \<open>
  The result is canonical when the one fold of the top does not itself overflow into bit 255.
  Products and decoded elements, and all numbers below $2^{255}$, are of that kind.
\<close>

definition foldable :: "fe \<Rightarrow> bool" where
  "foldable l \<longleftrightarrow> length l = 5 \<and> list_all (\<lambda>x. unat x < 2 ^ 63) l \<and> fold_top 255 19 (feval l) < 2 ^ 255"

lemma fe_reduce_canonical:
  assumes "foldable l"
  shows "map unat (fe_reduce l) = digs 51 4 (feval l mod p25519)"
proof -
  let ?v = "fold_top 255 19 (feval l)"
  have "last_fold ?v < p25519" using assms by (auto simp: last_fold_def p25519_def foldable_def)
  then have "last_fold ?v = last_fold ?v mod p25519" by simp
  also have "\<dots> = feval l mod p25519"
    by (simp only: last_fold_mod fold_mod_p)
  finally show ?thesis using assms fe_reduce_digs [of l] by (simp add: foldable_def)
qed

section \<open>Multiplication\<close>

text \<open>\<open>loose\<close>: limbs an operand may have; \<open>tight\<close>: what multiplication gives back.\<close>

definition loose :: "fe \<Rightarrow> bool" where
  "loose l \<longleftrightarrow> length l = 5 \<and> list_all (\<lambda>x. unat x \<le> 2 ^ 54) l"

definition tight :: "fe \<Rightarrow> bool" where
  "tight l \<longleftrightarrow> length l = 5 \<and> list_all (\<lambda>x. unat x \<le> 2 ^ 51) l \<and> feval l < 2 ^ 255 + 2 ^ 90"

lemma tight_loose: "tight l \<Longrightarrow> loose l"
  unfolding tight_def loose_def list_all_iff by (auto intro: order_trans [of _ "2 ^ 51"])

lemma tight_foldable:
  assumes "tight l"
  shows "foldable l"
proof -
  have "fold_top 255 19 (feval l) < 2 ^ 255"
  proof (cases "feval l < 2 ^ 255")
    case True
    then show ?thesis by (simp only: fold_top_small)
  next
    case False
    then have "feval l div 2 ^ 255 = 1" "feval l mod 2 ^ 255 < 2 ^ 90"
      using assms by (auto simp: tight_def div_nat_eqI mod_if)
    then show ?thesis unfolding fold_top_def by simp
  qed
  moreover have "x < 2 ^ 63" if "x \<le> 2 ^ 51" for x :: nat using that by simp
  ultimately show ?thesis using assms by (auto simp: tight_def foldable_def list_all_iff)
qed

lemma digs_tight:
  assumes "map unat l = digs 51 4 v" and "v < 2 ^ 255 + 2 ^ 90"
  shows "tight l"
proof -
  have m: "x mod 2 ^ 51 \<le> 2 ^ 51" for x :: nat by (rule order_less_imp_le) simp
  have "v < (2 ^ 51 + 1) * 2 ^ 204" using assms(2) by simp
  then have "v div 2 ^ 204 < 2 ^ 51 + 1" by (rule less_mult_imp_div_less)
  then have top: "v div 2 ^ (4 * 51) \<le> 2 ^ 51" by simp
  have "list_all (\<lambda>x. x \<le> 2 ^ 51) (map unat l)"
    unfolding assms(1) digs_4 list.pred_inject by (intro conjI m top) simp
  then show ?thesis
    using assms(2) length_of_digs [OF assms(1)] digs_eq_lval [OF assms(1)]
    by (simp add: tight_def list_all_iff)
qed

lemma unat_widen: "unat (ucast (x :: u64) :: u128) = unat x"
proof -
  have "unat x < 2 ^ LENGTH(64)" by (rule unsigned_less)
  then have "unat x < 2 ^ 128" by simp
  then show ?thesis by (simp add: unsigned_ucast_eq take_bit_nat_eq_self)
qed

lemma map_unat_widen: "map unat (map ucast l :: u128 list) = map unat (l :: u64 list)"
  by (simp add: unat_widen)

lemma lval_widen: "lval w (map ucast l :: u128 list) = lval w (l :: u64 list)"
  by (simp only: lval_nval map_unat_widen)

lemma map_unat_narrow:
  assumes "list_all (\<lambda>x. unat x < 2 ^ 64) l"
  shows "map unat (map ucast (l :: u128 list) :: u64 list) = map unat l"
proof -
  have "unat (ucast x :: u64) = unat x" if "unat x < 2 ^ 64" for x :: u128
    using that by (simp add: unsigned_ucast_eq take_bit_nat_eq_self)
  then show ?thesis using assms by (auto simp: list_all_iff)
qed

lemma reduce_digits_mul:
  "reduce_digits (mul_digits a b) = map ucast (mul_reduce 51 19 a b)"
  by (simp add: reduce_digits_def mul_reduce_def weak_reduce_def wrap_top_def fold_digits_def
      Let_def MASK51_wide)

lemma product_folds:
  assumes "V \<le> 2 ^ 518"
  shows "fold_top 255 19 (fold_top 255 19 V) < 2 ^ 255 + 2 ^ 90"
proof -
  let ?V1 = "fold_top 255 19 V"
  have "V div 2 ^ 255 \<le> 2 ^ 263" using div_le_mono [OF assms, of "2 ^ 255"] by simp
  then have "?V1 < 2 ^ 255 + 19 * 2 ^ 263 + 1" by (rule fold_top_le)
  then have "?V1 \<le> 2 ^ 268" by simp
  from div_le_mono [OF this, of "2 ^ 255"] have "?V1 div 2 ^ 255 \<le> 2 ^ 13" by simp
  then have "fold_top 255 19 ?V1 < 2 ^ 255 + 19 * 2 ^ 13 + 1" by (rule fold_top_le)
  then show ?thesis by simp
qed

lemma fe_mul_digs:
  assumes "loose a" and "loose b"
  shows "map unat (fe_mul a b) = digs 51 4 (fold_top 255 19 (fold_top 255 19 (feval a * feval b))) \<and>
    tight (fe_mul a b)"
proof -
  let ?a = "map ucast a :: u128 list" and ?b = "map ucast b :: u128 list"
  let ?W = "fold_top 255 19 (fold_top 255 19 (feval a * feval b))"
  have len: "length ?a = 5" "length ?b = 5" using assms by (simp_all add: loose_def)
  have bnd: "list_all (\<lambda>x. unat x \<le> 2 ^ 54) ?a" "list_all (\<lambda>x. unat x \<le> 2 ^ 54) ?b"
    using assms by (simp_all add: loose_def list_all_iff unat_widen)
  have room: "2 ^ (LENGTH(128) - 51) + (19 + 1) * 2 ^ 51 + 19 * (1 + 4 * 19 * (2 ^ 54 * 2 ^ 54)) +
      5 * (2 ^ 54 * 2 ^ 54) \<le> (2 :: nat) ^ LENGTH(128)" by simp
  have m: "map unat (mul_reduce 51 19 ?a ?b) = digs 51 4 ?W"
    using r51w.mul_reduce_digits [OF len bnd room] by (simp add: lval_widen)
  have "feval a \<le> 2 * 2 ^ 54 * 2 ^ 204" "feval b \<le> 2 * 2 ^ 54 * 2 ^ 204"
    using lval5_le [of a "2 ^ 54" 51] lval5_le [of b "2 ^ 54" 51] assms by (simp_all add: loose_def)
  then have "feval a * feval b \<le> (2 * 2 ^ 54 * 2 ^ 204) * (2 * 2 ^ 54 * 2 ^ 204)" by (rule mult_le_mono)
  then have W: "?W < 2 ^ 255 + 2 ^ 90" by (intro product_folds) simp
  have "list_all (\<lambda>x. x < 2 ^ 64) (digs 51 4 ?W)"
  proof -
    have l: "x mod 2 ^ 51 < 2 ^ 64" for x :: nat by (rule less_trans [of _ "2 ^ 51"]) simp_all
    have "?W div 2 ^ (4 * 51) < 2 ^ 64" using W by (intro less_mult_imp_div_less) simp
    then show ?thesis unfolding digs_4 list.pred_inject by (intro conjI l) simp_all
  qed
  then have "list_all (\<lambda>x. unat x < 2 ^ 64) (mul_reduce 51 19 ?a ?b)"
    unfolding m [symmetric] by (simp add: list_all_iff)
  then have "map unat (fe_mul a b) = digs 51 4 ?W"
    unfolding fe_mul_def reduce_digits_mul by (simp only: map_unat_narrow m)
  then show ?thesis using digs_tight W by blast
qed

text \<open>
  Whatever the operands, the limbs of a product are small: the last two carry passes see limbs that
  were just masked.
\<close>

lemma carry_pass_low:
  fixes l :: "'a::len word list"
  assumes "n < length l" and "i < n"
  shows "unat (carry_pass w n l ! i) < 2 ^ w"
  using assms
proof (induction n arbitrary: l i)
  case (Suc n)
  then obtain x y ys where l: "l = x # y # ys" by (cases l; cases "tl l") auto
  show ?case
  proof (cases i)
    case 0
    then show ?thesis by (simp add: l unat_and_mask)
  next
    case (Suc j)
    then show ?thesis using Suc.IH [of "(y + drop_bit w x) # ys" j] Suc.prems by (simp add: l)
  qed
qed simp

lemma weak_reduce_wide:
  fixes l :: "u128 list"
  assumes "length l = 5"
  shows "\<exists>v < 2 ^ 255 + 2 ^ 90. map unat (weak_reduce 51 19 l) = digs 51 4 v"
proof -
  let ?l = "carry_pass 51 4 l"
  let ?v = "lval 51 ?l"
  have d: "map unat ?l = digs 51 4 ?v"
  proof (rule digs_of_lval)
    show "unat (?l ! i) < 2 ^ 51" if "i < 4" for i using assms that by (intro carry_pass_low) simp_all
  qed (simp add: assms)
  have "unat (?l ! 4) < 2 ^ LENGTH(128)" by (rule unsigned_less)
  then have "?v div 2 ^ (4 * 51) < 2 ^ 128"
    using arg_cong [OF d, of "\<lambda>xs. xs ! 4"] assms by (simp add: digs_4)
  then have "?v div 2 ^ 204 div 2 ^ 51 < 2 ^ 77" by (intro less_mult_imp_div_less) simp
  then have q: "?v div 2 ^ 255 \<le> 2 ^ 77" by (simp add: div_mult2_eq [symmetric])
  then have "2 ^ 51 + 19 * (?v div 2 ^ (5 * 51)) \<le> 2 ^ LENGTH(128)" by simp
  note wt = r51w.wrap_top_val [OF d this]
  have "map unat (weak_reduce 51 19 l) = digs 51 4 (fold_top (5 * 51) 19 ?v)"
    unfolding weak_reduce_def using wt by (subst carry_pass_digits) auto
  moreover have "fold_top 255 19 ?v < 2 ^ 255 + 19 * 2 ^ 77 + 1" using q by (rule fold_top_le)
  ultimately show ?thesis by (intro exI [of _ "fold_top 255 19 ?v"]) simp
qed

lemma fe_mul_tight:
  assumes "length a = 5" and "length b = 5"
  shows "tight (fe_mul a b)"
proof -
  let ?l = "fold_digits 19 (carry_pass 51 8 (mul_digits (map ucast a) (map ucast b :: u128 list)))"
  obtain v where v: "v < 2 ^ 255 + 2 ^ 90" "map unat (weak_reduce 51 19 ?l) = digs 51 4 v"
    using weak_reduce_wide [of ?l] by (auto simp: fold_digits_def)
  have "list_all (\<lambda>x. x < 2 ^ 64) (digs 51 4 v)"
  proof -
    have l: "x mod 2 ^ 51 < 2 ^ 64" for x :: nat by (rule less_trans [of _ "2 ^ 51"]) simp_all
    have "v div 2 ^ (4 * 51) < 2 ^ 64" using v(1) by (intro less_mult_imp_div_less) simp
    then show ?thesis unfolding digs_4 list.pred_inject by (intro conjI l) simp_all
  qed
  then have "list_all (\<lambda>x. unat x < 2 ^ 64) (weak_reduce 51 19 ?l)"
    unfolding v(2) [symmetric] by (simp add: list_all_iff)
  then have "map unat (fe_mul a b) = digs 51 4 v"
    unfolding fe_mul_def reduce_digits_mul mul_reduce_def by (simp only: map_unat_narrow v(2))
  then show ?thesis using v(1) by (rule digs_tight)
qed

lemma fe_mul_loose [simp]: "loose a \<Longrightarrow> loose b \<Longrightarrow> tight (fe_mul a b)"
  by (simp add: fe_mul_tight loose_def)

lemma fe_mul_mod:
  "loose a \<Longrightarrow> loose b \<Longrightarrow> feval (fe_mul a b) mod p25519 = feval a * feval b mod p25519"
  using fe_mul_digs [of a b] by (simp add: digs_eq_lval fold_mod_p)

lemma square_digits_explicit:
  "square_digits [a0, a1, a2, a3, a4] =
     [a0 * a0, a0 * 2 * a1, a1 * a1 + a0 * 2 * a2, a0 * 2 * a3 + a1 * 2 * a2,
      a2 * a2 + a0 * 2 * a4 + a1 * 2 * a3, a1 * 2 * a4 + a2 * 2 * a3, a3 * a3 + a2 * 2 * a4,
      a3 * 2 * a4, a4 * a4]"
  by (simp add: square_digits_def upt_rec eval_nat_numeral Let_def)

lemma square_digits_mul: "length a = 5 \<Longrightarrow> square_digits a = mul_digits a a"
proof -
  assume "length a = 5"
  then obtain a0 a1 a2 a3 a4 where a: "a = [a0, a1, a2, a3, a4]" using list5 by blast
  show ?thesis unfolding a square_digits_explicit mul_digits_explicit by (simp add: algebra_simps)
qed

lemma fe_square_mul: "length a = 5 \<Longrightarrow> fe_square a = fe_mul a a"
  by (simp add: fe_square_def fe_mul_def square_digits_mul)

section \<open>Powers\<close>

text \<open>\<open>pow_of z k x\<close>: \<open>x\<close> can be multiplied and stands for the \<open>k\<close>-th power of \<open>z\<close>.\<close>

definition pow_of :: "fe \<Rightarrow> nat \<Rightarrow> fe \<Rightarrow> bool" where
  "pow_of z k x \<longleftrightarrow> loose x \<and> feval x mod p25519 = feval z ^ k mod p25519"

lemma pow_of_self: "loose z \<Longrightarrow> pow_of z 1 z"
  by (simp add: pow_of_def)

lemma pow_of_mul:
  assumes "pow_of z j x" and "pow_of z k y"
  shows "pow_of z (j + k) (fe_mul x y)"
proof -
  have "feval (fe_mul x y) mod p25519 = feval x * feval y mod p25519"
    using assms by (simp add: pow_of_def fe_mul_mod)
  also have "\<dots> = feval z ^ j * feval z ^ k mod p25519"
    using assms by (intro mod_mult_cong) (simp_all add: pow_of_def)
  finally show ?thesis
    using assms by (simp add: pow_of_def tight_loose power_add)
qed

lemma pow_of_square: "pow_of z k x \<Longrightarrow> pow_of z (2 * k) (fe_square x)"
  using pow_of_mul [of z k x k x] by (simp add: pow_of_def loose_def fe_square_mul mult_2)

lemma pow_of_sq_n: "pow_of z k x \<Longrightarrow> pow_of z (2 ^ n * k) (sq_n x n)"
proof (induction n arbitrary: k x)
  case (Suc n)
  from Suc.IH [OF pow_of_square [OF Suc.prems]] show ?case by (simp add: ac_simps)
qed simp

lemma chain_250_powers:
  assumes "loose z"
  obtains z2 z11 z250 where "chain_250 z = (z2, z11, z250)" and "pow_of z 2 z2"
    and "pow_of z 11 z11" and "pow_of z (2 ^ 250 - 1) z250"
proof -
  define z2 where "z2 = fe_square z"
  define z9 where "z9 = fe_mul (sq_n z2 2) z"
  define z11 where "z11 = fe_mul z9 z2"
  define a5 where "a5 = fe_mul (fe_square z11) z9"
  define a10 where "a10 = fe_mul (sq_n a5 5) a5"
  define a20 where "a20 = fe_mul (sq_n a10 10) a10"
  define a40 where "a40 = fe_mul (sq_n a20 20) a20"
  define a50 where "a50 = fe_mul (sq_n a40 10) a10"
  define a100 where "a100 = fe_mul (sq_n a50 50) a50"
  define a200 where "a200 = fe_mul (sq_n a100 100) a100"
  define a250 where "a250 = fe_mul (sq_n a200 50) a50"
  note m = pow_of_mul [OF pow_of_sq_n]
  have p1: "pow_of z 1 z" using assms by (rule pow_of_self)
  have p2: "pow_of z 2 z2" using pow_of_square [OF p1] by (simp add: z2_def)
  have p9: "pow_of z 9 z9" using m [OF p2 p1, of 2] by (simp add: z9_def)
  have p11: "pow_of z 11 z11" using pow_of_mul [OF p9 p2] by (simp add: z11_def)
  have p5: "pow_of z (2 ^ 5 - 1) a5" using pow_of_mul [OF pow_of_square [OF p11] p9] by (simp add: a5_def)
  have p10: "pow_of z (2 ^ 10 - 1) a10" using m [OF p5 p5, of 5] by (simp add: a10_def)
  have p20: "pow_of z (2 ^ 20 - 1) a20" using m [OF p10 p10, of 10] by (simp add: a20_def)
  have p40: "pow_of z (2 ^ 40 - 1) a40" using m [OF p20 p20, of 20] by (simp add: a40_def)
  have p50: "pow_of z (2 ^ 50 - 1) a50" using m [OF p40 p10, of 10] by (simp add: a50_def)
  have p100: "pow_of z (2 ^ 100 - 1) a100" using m [OF p50 p50, of 50] by (simp add: a100_def)
  have p200: "pow_of z (2 ^ 200 - 1) a200" using m [OF p100 p100, of 100] by (simp add: a200_def)
  have p250: "pow_of z (2 ^ 250 - 1) a250" using m [OF p200 p50, of 50] by (simp add: a250_def)
  have "chain_250 z = (z2, z11, a250)"
    unfolding chain_250_def Let_def z2_def z9_def z11_def a5_def a10_def a20_def a40_def a50_def
      a100_def a200_def a250_def by (rule refl)
  then show thesis using p2 p11 p250 by (rule that)
qed

lemma fe_invert_power:
  assumes "loose z"
  shows "tight (fe_invert z) \<and> feval (fe_invert z) mod p25519 = feval z ^ (p25519 - 2) mod p25519"
proof -
  obtain z2 z11 z250 where c: "chain_250 z = (z2, z11, z250)" "pow_of z 11 z11" "pow_of z (2 ^ 250 - 1) z250"
    using assms by (rule chain_250_powers)
  have e: "2 ^ 5 * (2 ^ 250 - 1) + 11 = p25519 - 2" by (simp add: p25519_def)
  have "pow_of z (p25519 - 2) (fe_mul (sq_n z250 5) z11)"
    using pow_of_mul [OF pow_of_sq_n [OF c(3), of 5] c(2)] unfolding e .
  moreover have "tight (fe_mul (sq_n z250 5) z11)"
    using pow_of_sq_n [OF c(3), of 5] c(2) by (intro fe_mul_tight) (simp_all add: pow_of_def loose_def)
  ultimately show ?thesis by (simp add: fe_invert_def c(1) pow_of_def)
qed

section \<open>Comparisons\<close>

lemma fe_canon_eq:
  assumes "foldable a" and "foldable b"
  shows "fe_reduce a = fe_reduce b \<longleftrightarrow> feval a mod p25519 = feval b mod p25519"
  using fe_reduce_canonical [OF assms(1)] fe_reduce_canonical [OF assms(2)]
  by (metis nval_digs unat_list_inject)

lemma length_fe_reduce: "foldable a \<Longrightarrow> length (fe_reduce a) = 5"
  using length_of_digs [OF fe_reduce_canonical] by simp

lemma fe_eq_iff:
  assumes "foldable a" and "foldable b"
  shows "fe_eq a b = choice_of (feval a mod p25519 = feval b mod p25519)"
proof -
  have u5: "[0..<5] = [0, 1, 2, 3, 4 :: nat]" by (simp add: upt_rec)
  have "fe_eq a b = choice_of (fe_reduce b = fe_reduce a)"
    unfolding fe_eq_def Let_def u5 choice_consts
    using nth_5_eq [OF length_fe_reduce [OF assms(2)] length_fe_reduce [OF assms(1)]]
    by (simp add: conj_assoc)
  then show ?thesis using fe_canon_eq [OF assms] by (simp add: eq_commute)
qed

lemma feval_zero_iff: "length l = 5 \<Longrightarrow> feval l = 0 \<longleftrightarrow> l = fe_zero"
  using list5 [of l] by (auto simp: fe_zero_def lval5 unat_eq_0)

lemma or_eq_0: "x OR y = 0 \<longleftrightarrow> x = 0 \<and> y = 0" for x y :: u64
  by (auto simp: bit_eq_iff bit_or_iff)

lemma fe_is_zero_iff:
  assumes "foldable a"
  shows "fe_is_zero a = choice_of (feval a mod p25519 = 0)"
proof -
  have u5: "[0..<5] = [0, 1, 2, 3, 4 :: nat]" by (simp add: upt_rec)
  note len = length_fe_reduce [OF assms]
  have "fe_is_zero a = choice_of (fe_reduce a = fe_zero)"
    unfolding fe_is_zero_def Let_def u5 using list5 [OF len]
    by (auto simp: fe_zero_def or_eq_0)
  also have "fe_reduce a = fe_zero \<longleftrightarrow> feval (fe_reduce a) = 0" using len by (simp add: feval_zero_iff)
  also have "feval (fe_reduce a) = feval a mod p25519" by (rule digs_eq_lval [OF fe_reduce_canonical [OF assms]])
  finally show ?thesis .
qed

section \<open>Sums and differences\<close>

lemma unat_add_sub:
  fixes a p x :: u64
  assumes "unat x \<le> unat a + unat p" and "unat a + unat p < 2 ^ 64"
  shows "unat (a + (p - x)) = unat a + unat p - unat x"
proof -
  have s: "unat (a + p) = unat a + unat p" using assms(2) by (simp add: unat_word_ariths)
  have "a + (p - x) = (a + p) - x" by simp
  also have "unat \<dots> = unat (a + p) - unat x" using assms(1) s by (simp add: unat_sub_if')
  finally show ?thesis using s by simp
qed

text \<open>
  \<open>operator-\<close> subtracts from the limbs of \<open>p\<close>. Limb 0 of \<open>p\<close> is $2^{51} - 19$, so the
  subtraction borrows from nowhere when limb 0 of the reduced subtrahend is above it by more than
  limb 0 of the minuend.
\<close>

definition no_borrow :: "fe \<Rightarrow> fe \<Rightarrow> bool" where
  "no_borrow a b \<longleftrightarrow> unat (fe_reduce b ! 0) \<le> unat (a ! 0) + (2 ^ 51 - 19)"

lemma canonical_limbs:
  assumes "foldable b" and "i < 5"
  shows "unat (fe_reduce b ! i) < 2 ^ 51"
proof -
  let ?B = "feval b mod p25519"
  have "?B < 2 ^ 255" by (rule less_trans [of _ p25519]) (simp_all add: p25519_def)
  then have "?B div 2 ^ (4 * 51) < 2 ^ 51" by (intro less_mult_imp_div_less) simp
  then have "list_all (\<lambda>d. d < 2 ^ 51) (digs 51 4 ?B)" unfolding digs_4 by simp
  then have "list_all (\<lambda>d. d < 2 ^ 51) (map unat (fe_reduce b))"
    by (simp only: fe_reduce_canonical [OF assms(1)])
  then show ?thesis using assms(2) length_fe_reduce [OF assms(1)] by (simp add: list_all_length)
qed

lemma fe_p_limbs:
  assumes "i < 5"
  shows "unat (fe_p ! i) = 2 ^ 51 - (if i = 0 then 19 else 1)"
proof -
  have "i \<in> {0, 1, 2, 3, 4}" using assms by auto
  then show ?thesis by (auto simp: fe_p_def)
qed

lemma fe_sub_limb:
  assumes "length a = 5" and "list_all (\<lambda>x. unat x \<le> 2 ^ 53) a" and "foldable b" and "no_borrow a b" and "i < 5"
  shows "unat (fe_sub a b ! i) + unat (fe_reduce b ! i) = unat (a ! i) + unat (fe_p ! i)"
proof -
  have "fe_sub a b ! i = a ! i + (fe_p ! i - fe_reduce b ! i)"
    using assms length_fe_reduce [OF assms(3)] by (simp add: fe_sub_def fe_add_def Let_def)
  moreover have le: "unat (fe_reduce b ! i) \<le> unat (a ! i) + unat (fe_p ! i)"
    using assms(4) canonical_limbs [OF assms(3,5)] fe_p_limbs [OF assms(5)]
    by (cases "i = 0") (simp_all add: no_borrow_def)
  moreover have "unat (a ! i) \<le> 2 ^ 53" using assms(1,2,5) by (simp add: list_all_length)
  moreover have "unat (fe_p ! i) < 2 ^ 51" using fe_p_limbs [OF assms(5)] by simp
  ultimately show ?thesis using unat_add_sub [OF le] by simp
qed

lemma fe_sub_val:
  assumes "length a = 5" and "list_all (\<lambda>x. unat x \<le> 2 ^ 53) a" and "foldable b" and "no_borrow a b"
  shows "feval (fe_sub a b) = feval a + p25519 - feval b mod p25519 \<and> loose (fe_sub a b)"
proof -
  let ?r = "fe_sub a b" and ?x = "fe_reduce b"
  note limb = fe_sub_limb [OF assms]
  have len: "length ?r = 5" "length ?x = 5"
    using assms(1) length_fe_reduce [OF assms(3)] by (simp_all add: fe_sub_def Let_def)
  have "map2 (+) (map unat ?r) (map unat ?x) = map2 (+) (map unat a) (map unat fe_p)"
    using len assms(1) by (intro nth_equalityI) (simp_all add: limb)
  from arg_cong [OF this, of "nval 51"] have "feval ?r + feval ?x = feval a + feval fe_p"
    using len assms(1) by (simp add: nval_add lval_nval)
  moreover have "feval ?x = feval b mod p25519" by (rule digs_eq_lval [OF fe_reduce_canonical [OF assms(3)]])
  moreover have "feval fe_p = p25519" by (simp add: fe_p_def p25519_def)
  moreover have "unat (?r ! i) \<le> 2 ^ 54" if "i < 5" for i
    using limb [OF that] fe_p_limbs [OF that] assms(1,2) that
    by (fastforce simp: list_all_length split: if_splits)
  then have "loose ?r" using len by (simp add: loose_def list_all_length)
  ultimately show ?thesis by simp
qed

lemma fe_sub_mod:
  assumes "length a = 5" and "list_all (\<lambda>x. unat x \<le> 2 ^ 53) a" and "foldable b" and "no_borrow a b"
  shows "(feval (fe_sub a b) + feval b) mod p25519 = feval a mod p25519"
proof -
  let ?B = "feval b mod p25519"
  have "?B \<le> feval a + p25519" by (rule trans_le_add2) (simp add: p25519_def order_less_imp_le)
  then have "feval (fe_sub a b) + ?B = feval a + p25519" using fe_sub_val [OF assms] by simp
  then have "(feval (fe_sub a b) + ?B) mod p25519 = (feval a + p25519) mod p25519" by (rule arg_cong)
  then show ?thesis by (simp only: mod_add_right_eq mod_add_self2)
qed

lemma fe_p_bounds: "list_all (\<lambda>x. unat x \<le> 2 ^ 53) fe_p"
  by (simp add: fe_p_def)

lemma fe_p_no_borrow: "foldable b \<Longrightarrow> no_borrow fe_p b"
  using canonical_limbs [of b 0] fe_p_limbs [of 0] by (simp add: no_borrow_def)

lemma fe_neg_val:
  assumes "foldable a"
  shows "feval (fe_neg a) = 2 * p25519 - feval a mod p25519 \<and> loose (fe_neg a)"
proof -
  have "feval fe_p = p25519" by (simp add: fe_p_def p25519_def)
  then show ?thesis
    using fe_sub_val [OF _ fe_p_bounds assms fe_p_no_borrow [OF assms]] by (simp add: fe_neg_def)
qed

section \<open>Bytes\<close>

lemma fe_load_digs:
  assumes "length b = 32"
  shows "map unat (fe_load b) = digs 51 4 (lval 8 b mod 2 ^ 255)"
proof -
  let ?v = "lval 8 b"
  have l0: "unat (ld b 0 7 0 AND mask 51) = ?v mod 2 ^ 51"
    using unat_load_aligned [of 0 7 b 51] assms by simp
  have l1: "unat ((drop_bit 3 (ucast (b ! 6)) OR ld b 7 6 5) AND mask 51) = ?v div 2 ^ 51 mod 2 ^ 51"
    using unat_load_straddle [of 6 6 b 3 51] assms by simp
  have l2: "unat ((drop_bit 6 (ucast (b ! 12)) OR ld b 13 7 2) AND mask 51) = ?v div 2 ^ (2 * 51) mod 2 ^ 51"
    using unat_load_straddle [of 12 7 b 6 51] assms by simp
  have l3: "unat ((drop_bit 1 (ucast (b ! 19)) OR ld b 20 6 7) AND mask 51) = ?v div 2 ^ (3 * 51) mod 2 ^ 51"
    using unat_load_straddle [of 19 6 b 1 51] assms by simp
  have l4: "unat ((drop_bit 4 (ucast (b ! 25)) OR ld b 26 6 4) AND mask 51) = ?v div 2 ^ (4 * 51) mod 2 ^ 51"
    using unat_load_straddle [of 25 6 b 4 51] assms by simp
  have "map unat (fe_load b) = digs 51 4 (lval 8 b mod 2 ^ (5 * 51))"
    unfolding fe_load_def MASK51_mask list.map l0 l1 l2 l3 l4 digs_4_mod by (rule refl)
  then show ?thesis by simp
qed

text \<open>Bit 255 of an encoding is ignored.\<close>

lemma lval_mask_31:
  assumes "length b = 32"
  shows "lval 8 (b[31 := b ! 31 AND 0x7F]) = lval 8 (b :: bytes) mod 2 ^ 255"
proof -
  have u: "b[31 := b ! 31 AND 0x7F] = take 31 b @ [b ! 31 AND mask 7]"
    using assms by (simp add: upd_conv_take_nth_drop mask_eq_exp_minus_1)
  have b: "b = take 31 b @ [b ! 31]"
    using assms take_Suc_conv_app_nth [of 31 b] by simp
  have l: "length (take 31 b) = 31" using assms by simp
  have "lval 8 (take 31 b) < 2 ^ 248" using bytes_less [of "take 31 b"] l by simp
  moreover have "lval 8 b = lval 8 (take 31 b) + 2 ^ 248 * unat (b ! 31)"
    by (subst b) (simp add: lval_append l del: length_take)
  moreover have "lval 8 (b[31 := b ! 31 AND 0x7F]) =
      lval 8 (take 31 b) + 2 ^ 248 * (unat (b ! 31) mod 2 ^ 7)"
    unfolding u by (simp add: lval_append l unat_and_mask del: length_take)
  moreover have "(2 :: nat) ^ 255 = 2 ^ 248 * 2 ^ 7" by simp
  ultimately show ?thesis by (simp only: mod_mult2_eq) simp
qed

lemma digs_foldable: "map unat l = digs 51 4 v \<Longrightarrow> v < 2 ^ 255 \<Longrightarrow> foldable l"
  by (rule tight_foldable, erule digs_tight) simp

lemma fe_from_bytes_digs:
  assumes "length b = 32"
  shows "map unat (fe_from_bytes b) = digs 51 4 (lval 8 b mod 2 ^ 255 mod p25519)"
proof -
  let ?b = "b[31 := b ! 31 AND 0x7F]"
  have m: "map unat (fe_load ?b) = digs 51 4 (lval 8 b mod 2 ^ 255)"
    using fe_load_digs [of ?b] assms by (simp add: lval_mask_31)
  have "lval 8 b mod 2 ^ 255 < 2 ^ 255" by simp
  from fe_reduce_canonical [OF digs_foldable [OF m this]] show ?thesis
    by (simp add: fe_from_bytes_def digs_eq_lval [OF m])
qed

lemma fe_from_bytes_tight:
  assumes "length b = 32"
  shows "tight (fe_from_bytes b)"
proof (rule digs_tight [OF fe_from_bytes_digs [OF assms]])
  have "lval 8 b mod 2 ^ 255 mod p25519 < p25519" by (simp add: p25519_def)
  also have "p25519 < 2 ^ 255 + 2 ^ 90" by (simp add: p25519_def)
  finally show "lval 8 b mod 2 ^ 255 mod p25519 < 2 ^ 255 + 2 ^ 90" .
qed

lemma fe_store_bytes:
  assumes "map unat l = digs 51 4 (v mod 2 ^ 255)"
  shows "fe_store l = le_bytes 32 (v mod 2 ^ 255)"
proof -
  have "length l = 5" using length_of_digs [OF assms] by simp
  then obtain l0 l1 l2 l3 l4 where l: "l = [l0, l1, l2, l3, l4]" using list5 by blast
  have five: "(255 :: nat) = 5 * 51" by simp
  have "map unat l = [v mod 2 ^ 51, v div 2 ^ 51 mod 2 ^ 51, v div 2 ^ (2 * 51) mod 2 ^ 51,
     v div 2 ^ (3 * 51) mod 2 ^ 51, v div 2 ^ (4 * 51) mod 2 ^ 51]"
    using assms unfolding five digs_4_mod .
  then have d: "unat l0 = v div 2 ^ 0 mod 2 ^ 51" "unat l1 = v div 2 ^ 51 mod 2 ^ 51"
    "unat l2 = v div 2 ^ 102 mod 2 ^ 51" "unat l3 = v div 2 ^ 153 mod 2 ^ 51"
    "unat l4 = v div 2 ^ 204 mod 2 ^ 51"
    unfolding l by simp_all
  have d1: "unat l1 = v div 2 ^ (0 + 51) mod 2 ^ 51" "unat l2 = v div 2 ^ (51 + 51) mod 2 ^ 51"
    "unat l3 = v div 2 ^ (102 + 51) mod 2 ^ 51" "unat l4 = v div 2 ^ (153 + 51) mod 2 ^ 51"
    using d(2-5) by simp_all
  let ?w = "\<lambda>i. word_of_nat (v div 2 ^ (8 * i)) :: byte"
  let ?top = "word_of_nat (v mod 2 ^ 255 div 2 ^ (8 * 31)) :: byte"
  note bi = byte_inside and bs = byte_straddle
  have i0: "byte_of l0 0 (mask 8) = ?w 0" "byte_of l0 8 (mask 8) = ?w 1" "byte_of l0 16 (mask 8) = ?w 2" "byte_of l0 24 (mask 8) = ?w 3" "byte_of l0 32 (mask 8) = ?w 4" "byte_of l0 40 (mask 8) = ?w 5"
    using bi [OF d(1), of 0] bi [OF d(1), of 8] bi [OF d(1), of 16] bi [OF d(1), of 24] bi [OF d(1), of 32] bi [OF d(1), of 40] by simp_all
  have i1: "byte_of l1 5 (mask 8) = ?w 7" "byte_of l1 13 (mask 8) = ?w 8" "byte_of l1 21 (mask 8) = ?w 9" "byte_of l1 29 (mask 8) = ?w 10" "byte_of l1 37 (mask 8) = ?w 11"
    using bi [OF d(2), of 5] bi [OF d(2), of 13] bi [OF d(2), of 21] bi [OF d(2), of 29] bi [OF d(2), of 37] by simp_all
  have i2: "byte_of l2 2 (mask 8) = ?w 13" "byte_of l2 10 (mask 8) = ?w 14" "byte_of l2 18 (mask 8) = ?w 15" "byte_of l2 26 (mask 8) = ?w 16" "byte_of l2 34 (mask 8) = ?w 17" "byte_of l2 42 (mask 8) = ?w 18"
    using bi [OF d(3), of 2] bi [OF d(3), of 10] bi [OF d(3), of 18] bi [OF d(3), of 26] bi [OF d(3), of 34] bi [OF d(3), of 42] by simp_all
  have i3: "byte_of l3 7 (mask 8) = ?w 20" "byte_of l3 15 (mask 8) = ?w 21" "byte_of l3 23 (mask 8) = ?w 22" "byte_of l3 31 (mask 8) = ?w 23" "byte_of l3 39 (mask 8) = ?w 24"
    using bi [OF d(4), of 7] bi [OF d(4), of 15] bi [OF d(4), of 23] bi [OF d(4), of 31] bi [OF d(4), of 39] by simp_all
  have i4: "byte_of l4 4 (mask 8) = ?w 26" "byte_of l4 12 (mask 8) = ?w 27" "byte_of l4 20 (mask 8) = ?w 28" "byte_of l4 28 (mask 8) = ?w 29" "byte_of l4 36 (mask 8) = ?w 30"
    using bi [OF d(5), of 4] bi [OF d(5), of 12] bi [OF d(5), of 20] bi [OF d(5), of 28] bi [OF d(5), of 36] by simp_all
  have s0: "byte_of l0 48 (mask 3) OR byte_of (push_bit 3 l1) 0 (mask 8) = ?w 6"
    using bs [OF d(1) d1(1), of 3] by simp
  have s1: "byte_of l1 45 (mask 6) OR byte_of (push_bit 6 l2) 0 (mask 8) = ?w 12"
    using bs [OF d(2) d1(2), of 6] by simp
  have s2: "byte_of l2 50 (mask 1) OR byte_of (push_bit 1 l3) 0 (mask 8) = ?w 19"
    using bs [OF d(3) d1(3), of 1] by simp
  have s3: "byte_of l3 47 (mask 4) OR byte_of (push_bit 4 l4) 0 (mask 8) = ?w 25"
    using bs [OF d(4) d1(4), of 4] by simp
  have "unat (byte_of l4 44 (mask 7)) = v div 2 ^ 248 mod 2 ^ 7"
    using div_mod_digit [of 44 7 51 v 204] by (simp add: unat_byte_of d)
  also have "\<dots> = v mod 2 ^ 255 div 2 ^ 248"
    using mod_mult2_eq [of v "2 ^ 248" "2 ^ 7"] by simp
  finally have top: "byte_of l4 44 (mask 7) = ?top"
    by (simp add: word_unat_eq_iff unat_of_nat)
  have low: "word_of_nat (v mod 2 ^ 255 div 2 ^ (8 * i)) = ?w i" if "i < 31" for i
    using div_mod_digit [of "8 * i" 8 255 v 0] that by (simp add: word_unat_eq_iff unat_of_nat)
  have n: "[l0, l1, l2, l3, l4] ! 0 = l0" "[l0, l1, l2, l3, l4] ! 1 = l1" "[l0, l1, l2, l3, l4] ! 2 = l2"
    "[l0, l1, l2, l3, l4] ! 3 = l3" "[l0, l1, l2, l3, l4] ! 4 = l4" by simp_all
  have "[0..<32] = [0,1,2,3,4,5,6,7,8,9,10,11,12,13,14,15,16,17,18,19,20,21,22,23,24,25,26,27,28,29,30,31 :: nat]" by (simp add: upt_rec)
  then have "le_bytes 32 (v mod 2 ^ 255) = [?w 0, ?w 1, ?w 2, ?w 3, ?w 4, ?w 5, ?w 6, ?w 7, ?w 8, ?w 9, ?w 10, ?w 11, ?w 12, ?w 13, ?w 14, ?w 15, ?w 16, ?w 17, ?w 18, ?w 19, ?w 20, ?w 21, ?w 22, ?w 23, ?w 24, ?w 25, ?w 26, ?w 27, ?w 28, ?w 29, ?w 30, ?top]"
    unfolding le_bytes_map by (simp only: list.map low)
  moreover have "fe_store l = [?w 0, ?w 1, ?w 2, ?w 3, ?w 4, ?w 5, ?w 6, ?w 7, ?w 8, ?w 9, ?w 10, ?w 11, ?w 12, ?w 13, ?w 14, ?w 15, ?w 16, ?w 17, ?w 18, ?w 19, ?w 20, ?w 21, ?w 22, ?w 23, ?w 24, ?w 25, ?w 26, ?w 27, ?w 28, ?w 29, ?w 30, ?top]"
    unfolding fe_store_def l n masks i0 i1 i2 i3 i4 s0 s1 s2 s3 top by (rule refl)
  ultimately show ?thesis by simp
qed

lemma fe_to_bytes_eq:
  assumes "foldable f"
  shows "fe_to_bytes f = le_bytes 32 (feval f mod p25519)"
proof -
  have "feval f mod p25519 < p25519" by (simp add: p25519_def)
  then have "feval f mod p25519 mod 2 ^ 255 = feval f mod p25519" by (simp add: p25519_def)
  then show ?thesis
    using fe_store_bytes [of "fe_reduce f" "feval f mod p25519"] fe_reduce_canonical [OF assms]
    by (simp add: fe_to_bytes_def)
qed

section \<open>Square roots\<close>

lemma neg_foldable:
  assumes "foldable a"
  shows "foldable (fe_neg a)"
proof -
  let ?v = "feval (fe_neg a)"
  have v: "?v \<le> 2 * p25519" using fe_neg_val [OF assms] by simp
  have "fold_top 255 19 ?v < 2 ^ 255"
  proof (cases "?v < 2 ^ 255")
    case True
    then show ?thesis by (simp only: fold_top_small)
  next
    case False
    then have "?v div 2 ^ 255 = 1" "?v mod 2 ^ 255 = ?v - 2 ^ 255"
      using v by (auto simp: p25519_def div_nat_eqI mod_if)
    then show ?thesis using v unfolding fold_top_def by (simp add: p25519_def)
  qed
  moreover have "x < 2 ^ 63" if "x \<le> 2 ^ 54" for x :: nat using that by simp
  ultimately show ?thesis
    using fe_neg_val [OF assms] by (auto simp: foldable_def loose_def list_all_iff)
qed

lemma fe_i_power: "tight fe_i \<and> feval fe_i mod p25519 = 2 ^ ((p25519 - 1) div 4) mod p25519"
proof -
  let ?z = "fe_add fe_one fe_one"
  have z: "?z = [2, 0, 0, 0, 0]" by (simp add: fe_add_def fe_one_def)
  then have lo: "loose ?z" and two: "feval ?z = 2" by (simp_all add: loose_def)
  obtain z2 z11 z250 where c: "chain_250 ?z = (z2, z11, z250)" "pow_of ?z 2 z2" "pow_of ?z (2 ^ 250 - 1) z250"
    using lo by (rule chain_250_powers)
  have e: "2 ^ 3 * (2 ^ 250 - 1) + 1 + 2 = (p25519 - 1) div 4" by (simp add: p25519_def)
  note m = pow_of_mul [OF pow_of_sq_n [OF c(3), of 3] pow_of_self [OF lo]]
  have "pow_of ?z ((p25519 - 1) div 4) fe_i"
    using pow_of_mul [OF m c(2)] unfolding e by (simp add: fe_i_def c(1))
  moreover have "tight fe_i"
    using m c(2) by (simp add: fe_i_def c(1) pow_of_def)
  ultimately show ?thesis unfolding pow_of_def two by blast
qed

lemma mod_add_right_cancel: "(x + z) mod p = (n + z) mod p \<longleftrightarrow> x mod p = n mod (p :: nat)"
proof -
  have "(x + z) mod p = (n + z) mod p \<longleftrightarrow> int p dvd int (x + z) - int (n + z)"
    by (metis mod_eq_dvd_iff of_nat_eq_iff zmod_int)
  also have "\<dots> \<longleftrightarrow> int p dvd int x - int n" by simp
  also have "\<dots> \<longleftrightarrow> x mod p = n mod p" by (metis mod_eq_dvd_iff of_nat_eq_iff zmod_int)
  finally show ?thesis .
qed

text \<open>The candidate of RFC 8032: \<open>a = z ^ ((p + 3) / 8)\<close>, or \<open>a * i\<close>.\<close>

lemma fe_sqrt_candidates:
  assumes "loose z" and "foldable z"
  obtains a where "tight a" and "feval a mod p25519 = feval z ^ ((p25519 + 3) div 8) mod p25519"
    and "fe_sqrt z = from_choice (if feval a * feval a mod p25519 = feval z mod p25519 then a else fe_mul a fe_i)
      (choice_of (feval a * feval a mod p25519 = feval z mod p25519 \<or>
         (feval a * feval a + feval z) mod p25519 = 0))"
proof -
  obtain z2 z11 z250 where c: "chain_250 z = (z2, z11, z250)" "pow_of z 2 z2" "pow_of z (2 ^ 250 - 1) z250"
    using assms(1) by (rule chain_250_powers)
  define a where "a = fe_mul (sq_n z250 2) z2"
  note s = pow_of_sq_n [OF c(3), of 2]
  have e: "2 ^ 2 * (2 ^ 250 - 1) + 2 = (p25519 + 3) div 8" by (simp add: p25519_def)
  have ap: "feval a mod p25519 = feval z ^ ((p25519 + 3) div 8) mod p25519"
    using pow_of_mul [OF s c(2)] unfolding e a_def [symmetric] pow_of_def by blast
  have at: "tight a" using s c(2) by (simp add: a_def pow_of_def)
  have sq: "fe_square a = fe_mul a a" using at by (intro fe_square_mul) (simp add: tight_def)
  have a2: "foldable (fe_mul a a)" "feval (fe_mul a a) mod p25519 = feval a * feval a mod p25519"
    using at by (simp_all add: tight_loose tight_foldable fe_mul_mod)
  have neg: "feval (fe_mul a a) mod p25519 = feval (fe_neg z) mod p25519 \<longleftrightarrow>
      (feval a * feval a + feval z) mod p25519 = 0"
  proof -
    have "feval (fe_neg z) + feval z mod p25519 = 2 * p25519"
      using fe_neg_val [OF assms(2)] by (simp add: p25519_def order_less_imp_le trans_le_add1)
    then have "(feval (fe_neg z) + feval z) mod p25519 = 0"
      by (metis mod_add_right_eq mod_mult_self2_is_0)
    then show ?thesis
      unfolding a2(2) using mod_add_right_cancel [of "feval a * feval a" "feval z" p25519 "feval (fe_neg z)"]
      by (simp only:)
  qed
  have "fe_sqrt z = from_choice (fe_select a (fe_mul a fe_i) (fe_eq (fe_mul a a) z))
      (choice_or (fe_eq (fe_mul a a) z) (fe_eq (fe_mul a a) (fe_neg z)))"
    by (simp add: fe_sqrt_def c(1) Let_def a_def [symmetric] sq)
  moreover have "length (fe_mul a fe_i) = length a"
    using at fe_mul_loose [OF tight_loose [OF at] tight_loose [OF conjunct1 [OF fe_i_power]]] by (simp add: tight_def)
  ultimately have "fe_sqrt z = from_choice (if feval a * feval a mod p25519 = feval z mod p25519 then a else fe_mul a fe_i)
      (choice_of (feval a * feval a mod p25519 = feval z mod p25519 \<or> (feval a * feval a + feval z) mod p25519 = 0))"
    using a2 assms(2) neg by (simp add: fe_eq_iff neg_foldable fe_select_if)
  with at ap show thesis by (rule that)
qed

section \<open>Properties\<close>

text \<open>
  \<open>operator*\<close> and \<open>square\<close> multiply modulo $2^{255} - 19$ for operands whose limbs are at most
  $2^{54}$, so for sums and differences of products: no 128-bit sum overflows, the limbs of the
  result are at most $2^{51}$ and can be narrowed to 64 bits, and \<open>square\<close>, which forms each mixed
  product once and doubles it, agrees limb by limb with the product of the element by itself.
\<close>

theorem operator_times_25519:
  assumes "loose a" and "loose b"
  shows "feval (fe_mul a b) mod p25519 = feval a * feval b mod p25519 \<and> tight (fe_mul a b) \<and>
    fe_square a = fe_mul a a"
  using assms fe_mul_loose [OF assms] by (simp add: fe_mul_mod fe_square_mul loose_def [of a])

theorem operator_times_25519_witness:
  "feval (fe_mul (replicate 5 (2 ^ 54)) (replicate 5 3)) mod p25519 =
     feval (replicate 5 (2 ^ 54)) * feval (replicate 5 3) mod p25519"
proof -
  have "loose (replicate 5 (2 ^ 54))" "loose (replicate 5 3)"
    by (simp_all add: loose_def list_all_iff)
  from operator_times_25519 [OF this] show ?thesis by blast
qed

text \<open>
  C33. \<open>invert\<close> computes the power \<open>p - 2\<close>: its chain of squarings and products is Fermat's inverse, the
  zero element included (its inverse is zero).
\<close>

theorem invert_is_power_p_minus_2:
  assumes "loose z"
  shows "feval (fe_invert z) mod p25519 = feval z ^ (p25519 - 2) mod p25519 \<and> tight (fe_invert z)"
  using fe_invert_power [OF assms] by blast

theorem invert_is_power_p_minus_2_witness: "feval (fe_invert fe_zero) mod p25519 = 0"
proof -
  have z: "loose fe_zero" "feval fe_zero = 0" by (simp_all add: loose_def fe_zero_def)
  have "0 < p25519 - 2" by (simp add: p25519_def)
  then have e: "(0 :: nat) ^ (p25519 - 2) = 0" by (rule zero_power)
  show ?thesis using invert_is_power_p_minus_2 [OF z(1)] unfolding z(2) e by simp
qed

text \<open>
  C34. The encoding is canonical: \<open>to_bytes\<close> writes the 32 little-endian bytes of the reduced value,
  \<open>from_bytes\<close> ignores bit 255 and reduces every other input, also the values from \<open>p\<close> to
  $2^{255} - 1$ that have two encodings, and decoding what was encoded gives the reduced limbs.
\<close>

theorem encoding_25519_canonical:
  assumes "tight f" and "length b = 32"
  shows "fe_to_bytes f = le_bytes 32 (feval f mod p25519) \<and>
    feval (fe_from_bytes b) = lval 8 b mod 2 ^ 255 mod p25519 \<and>
    fe_from_bytes (fe_to_bytes f) = fe_reduce f"
proof -
  let ?v = "feval f mod p25519"
  have f: "foldable f" using assms(1) by (rule tight_foldable)
  have "?v < p25519" by (simp add: p25519_def)
  then have "?v mod 2 ^ 256 mod 2 ^ 255 mod p25519 = ?v" by (simp add: p25519_def)
  then have "map unat (fe_from_bytes (le_bytes 32 ?v)) = map unat (fe_reduce f)"
    using fe_from_bytes_digs [of "le_bytes 32 ?v"] fe_reduce_canonical [OF f] by simp
  then show ?thesis
    using digs_eq_lval [OF fe_from_bytes_digs [OF assms(2)]]
    by (simp add: fe_to_bytes_eq [OF f] unat_list_inject)
qed

theorem encoding_25519_canonical_witness:
  "fe_to_bytes [9, 0, 0, 0, 0] = le_bytes 32 (9 mod p25519) \<and>
   feval (fe_from_bytes (replicate 32 0xFF)) = lval 8 (replicate 32 (0xFF :: byte)) mod 2 ^ 255 mod p25519"
proof -
  have "tight [9, 0, 0, 0, 0]" by (simp add: tight_def)
  from encoding_25519_canonical [OF this, of "replicate 32 0xFF"] show ?thesis by simp
qed

text \<open>
  \<open>operator-\<close> gives the difference modulo \<open>p\<close> whenever limb 0 does not borrow, so always for the
  unary minus, and its result can be multiplied again.
\<close>

theorem operator_minus_25519:
  assumes "length a = 5" and "list_all (\<lambda>x. unat x \<le> 2 ^ 53) a" and "tight b"
    and "unat (fe_reduce b ! 0) \<le> unat (a ! 0) + (2 ^ 51 - 19)"
  shows "(feval (fe_sub a b) + feval b) mod p25519 = feval a mod p25519 \<and> loose (fe_sub a b) \<and>
    (feval (fe_neg b) + feval b) mod p25519 = 0 \<and> loose (fe_neg b)"
proof -
  have b: "foldable b" using assms(3) by (rule tight_foldable)
  have "no_borrow a b" using assms(4) by (simp add: no_borrow_def)
  note s = fe_sub_mod [OF assms(1,2) b this] fe_sub_val [OF assms(1,2) b this]
  have "feval fe_p mod p25519 = 0" by (simp add: fe_p_def p25519_def)
  then show ?thesis
    using s fe_sub_mod [OF _ fe_p_bounds b fe_p_no_borrow [OF b]] fe_neg_val [OF b]
    by (simp add: fe_neg_def)
qed

lemma small_reduce: "x < 2 ^ 51 \<Longrightarrow> fe_reduce [word_of_nat x, 0, 0, 0, 0] = [word_of_nat x, 0, 0, 0, 0]"
proof -
  let ?l = "[word_of_nat x, 0, 0, 0, 0] :: fe"
  assume x: "x < 2 ^ 51"
  then have u: "map unat ?l = [x, 0, 0, 0, 0]" by (simp add: unat_of_nat)
  have d: "map unat ?l = digs 51 4 x" using digs4_unique [of "map unat ?l" 51] x unfolding u by simp
  have "x < 2 ^ 255" using x by (rule less_trans) simp
  with d have f: "foldable ?l" by (rule digs_foldable)
  have "x mod p25519 = x" using x by (simp add: p25519_def)
  then show ?thesis
    using fe_reduce_canonical [OF f] d digs_eq_lval [OF d] by (metis unat_list_inject)
qed

theorem operator_minus_25519_witness:
  "(feval (fe_sub [5, 0, 0, 0, 0] [7, 0, 0, 0, 0]) + 7) mod p25519 = 5 mod p25519"
proof -
  have "tight [7, 0, 0, 0, 0]" by (simp add: tight_def)
  moreover have "fe_reduce [7, 0, 0, 0, 0] = [7, 0, 0, 0, 0]" using small_reduce [of 7] by simp
  ultimately show ?thesis
    using operator_minus_25519 [of "[5, 0, 0, 0, 0]" "[7, 0, 0, 0, 0]"] by simp
qed

text \<open>
  \<open>sqrt\<close> tries the candidate \<open>a = z ^ ((p + 3) / 8)\<close> of RFC 8032: it reports a root exactly when the
  square of \<open>a\<close> is \<open>z\<close> or \<open>-z\<close> modulo \<open>p\<close>; in the first case it returns \<open>a\<close>, whose square is \<open>z\<close>, and in the
  second \<open>a\<close> times the constant \<open>i = 2 ^ ((p - 1) / 4)\<close>.
\<close>

theorem sqrt_follows_rfc8032:
  assumes "tight z"
  shows "\<exists>a. feval a mod p25519 = feval z ^ ((p25519 + 3) div 8) mod p25519 \<and>
    is_some_public (fe_sqrt z) = (feval a * feval a mod p25519 = feval z mod p25519 \<or>
      (feval a * feval a + feval z) mod p25519 = 0) \<and>
    opt_value (fe_sqrt z) =
      (if feval a * feval a mod p25519 = feval z mod p25519 then a else fe_mul a fe_i) \<and>
    feval fe_i mod p25519 = 2 ^ ((p25519 - 1) div 4) mod p25519"
proof -
  show ?thesis
  proof (rule fe_sqrt_candidates [OF tight_loose [OF assms] tight_foldable [OF assms]])
    fix a
    assume "feval a mod p25519 = feval z ^ ((p25519 + 3) div 8) mod p25519"
      "fe_sqrt z = from_choice (if feval a * feval a mod p25519 = feval z mod p25519 then a else fe_mul a fe_i)
        (choice_of (feval a * feval a mod p25519 = feval z mod p25519 \<or>
           (feval a * feval a + feval z) mod p25519 = 0))"
    then show ?thesis
      using conjunct2 [OF fe_i_power]
      by (intro exI [of _ a]) (simp only: is_some_public_def from_choice_def ct_optional.simps unwrap_choice_of simp_thms)
  qed
qed

theorem sqrt_follows_rfc8032_witness: "is_some_public (fe_sqrt fe_one)"
proof -
  have one: "tight fe_one" "feval fe_one = 1" by (simp_all add: tight_def fe_one_def)
  have p: "1 mod p25519 = 1" by (simp add: p25519_def)
  obtain a where "feval a mod p25519 = feval fe_one ^ ((p25519 + 3) div 8) mod p25519"
    and b: "is_some_public (fe_sqrt fe_one) = (feval a * feval a mod p25519 = feval fe_one mod p25519 \<or>
      (feval a * feval a + feval fe_one) mod p25519 = 0)"
    using sqrt_follows_rfc8032 [OF one(1)] by (elim exE conjE) (rule that)
  then have a: "feval a mod p25519 = 1" by (simp only: one(2) power_one p)
  have "feval a * feval a mod p25519 = (feval a mod p25519) * (feval a mod p25519) mod p25519"
    by (rule mod_mult_eq [symmetric])
  also have "\<dots> = 1" by (simp only: a mult_1 p)
  finally show ?thesis unfolding b one(2) p by blast
qed

text \<open>
  Where the borrow happens the result is wrong: zero minus $2^{51} - 1$ is off by $2^{64}$, because
  limb 0 of \<open>p\<close> is smaller than limb 0 of the subtrahend.
\<close>

lemma operator_minus_borrows:
  "(feval (fe_sub fe_zero [0x7FFFFFFFFFFFF, 0, 0, 0, 0]) + 0x7FFFFFFFFFFFF) mod p25519 = 2 ^ 64"
proof -
  have r: "fe_reduce [0x7FFFFFFFFFFFF, 0, 0, 0, 0] = [0x7FFFFFFFFFFFF, 0, 0, 0, 0]"
    using small_reduce [of "0x7FFFFFFFFFFFF"] by simp
  have "fe_sub fe_zero [0x7FFFFFFFFFFFF, 0, 0, 0, 0] =
      [0xFFFFFFFFFFFFFFEE, 0x7FFFFFFFFFFFF, 0x7FFFFFFFFFFFF, 0x7FFFFFFFFFFFF, 0x7FFFFFFFFFFFF]"
    unfolding fe_sub_def r by (simp add: fe_zero_def fe_p_def fe_add_def)
  then show ?thesis by (simp add: p25519_def)
qed

text \<open>
  \<open>reduce_inplace\<close> folds the top only once: an element whose folded value reaches $2^{255}$ keeps a
  top limb of 52 bits, and \<open>operator==\<close>, which compares reduced limbs, tells it from an equal number.
\<close>

lemma reduce_inplace_not_canonical:
  "map unat (fe_reduce [0x7FFFFFFFFFFFF, 0x7FFFFFFFFFFFF, 0x7FFFFFFFFFFFF, 0x7FFFFFFFFFFFF, 0xFFFFFFFFFFFFF]) =
     digs 51 4 (2 ^ 255 + 18)"
proof -
  let ?l = "[0x7FFFFFFFFFFFF, 0x7FFFFFFFFFFFF, 0x7FFFFFFFFFFFF, 0x7FFFFFFFFFFFF, 0xFFFFFFFFFFFFF] :: fe"
  have "feval ?l = 2 ^ 256 - 1" by simp
  then have "last_fold (fold_top 255 19 (feval ?l)) = 2 ^ 255 + 18"
    by (simp add: fold_top_def last_fold_def)
  then show ?thesis using fe_reduce_digs [of ?l] by (simp only: list.pred_inject) simp
qed

end
