(* ===== verification/Field_Q.thy ===== *)
theory Field_Q
  imports Limb_Bytes Constant_Time
begin

text \<open>
  The scalar field of \<open>src/impl/crypto/util/math/field/field_q.hpp\<close> and \<open>field_q.cpp\<close>: numbers
  modulo the order $L = 2^{252} + 27742317777372353535851937790883648493$ of the base point, in
  limbs of 52 bits (the top one of 45). \<open>reduce_inplace\<close> subtracts \<open>L\<close> sixteen times if it can,
  products are formed by doubling and adding, and a 64-byte hash is reduced bit by bit; the
  lemmas relate each to the number it stands for.
\<close>

type_synonym fq = "u64 list"

definition fq_p :: fq where
  "fq_p = [0x2631a5cf5d3ed, 0xdea2f79cd6581, 0x14def9, 0x0, 0x100000000000]"

definition fq_one :: fq where
  "fq_one = [1, 0, 0, 0, 0]"

definition fq_zero :: fq where
  "fq_zero = [0, 0, 0, 0, 0]"

definition limb_bases :: "u64 list" where
  "limb_bases = [push_bit 52 1, push_bit 52 1, push_bit 52 1, push_bit 52 1, push_bit 45 1]"

definition limb_masks :: "u64 list" where
  "limb_masks = [limb_bases ! 0 - 1, limb_bases ! 1 - 1, limb_bases ! 2 - 1, limb_bases ! 3 - 1, limb_bases ! 4 - 1]"

text \<open>
  The loop that subtracts with borrow, in \<open>reduce_inplace\<close> and in \<open>operator-\<close>: \<open>d\<close> is an
  \<open>__int128_t\<close> and cannot overflow, so it is an integer here.
\<close>

fun sub_borrow :: "u64 list \<Rightarrow> u64 list \<Rightarrow> u64 list \<Rightarrow> u64 \<Rightarrow> u64 list \<times> u64" where
  "sub_borrow (base # bases) (x # xs) (y # ys) borrow =
     (let d = uint x - uint y - uint borrow;
          next_borrow = (if d < 0 then 1 else 0);
          borrow_mask = 0 - next_borrow;
          (r, out) = sub_borrow bases xs ys next_borrow
      in ((word_of_int d + (base AND borrow_mask)) # r, out))"
| "sub_borrow _ _ _ borrow = ([], borrow)"

definition fq_sub_step :: "fq \<Rightarrow> fq" where
  "fq_sub_step l =
     (let l = carry_pass 52 4 l;
          (sub, borrow) = sub_borrow limb_bases l fq_p 0;
          m = choice_mask (choice_not (from_nonzero borrow))
      in map2 (\<lambda>s x. (s AND m) OR (x AND NOT m)) sub l)"

definition fq_reduce :: "fq \<Rightarrow> fq" where
  "fq_reduce l =
     (let l = carry_pass 52 4 l;
          l = (fq_sub_step ^^ 16) l;
          l = carry_pass 52 4 l
      in map2 (AND) l limb_masks)"

definition fq_select :: "fq \<Rightarrow> fq \<Rightarrow> choice \<Rightarrow> fq" where
  "fq_select a b c = (let m = choice_mask c in map2 (\<lambda>x y. (x AND m) OR (y AND NOT m)) a b)"

definition fq_swap :: "fq \<Rightarrow> fq \<Rightarrow> choice \<Rightarrow> fq \<times> fq" where
  "fq_swap a b c =
     (let m = choice_mask c
      in (map2 (\<lambda>x y. (x AND NOT m) OR (y AND m)) a b, map2 (\<lambda>x y. (x AND m) OR (y AND NOT m)) a b))"

section \<open>Arithmetic\<close>

definition fq_add :: "fq \<Rightarrow> fq \<Rightarrow> fq" where
  "fq_add a b = fq_reduce (map2 (\<lambda>x y. y + x) a b)"

definition fq_sub :: "fq \<Rightarrow> fq \<Rightarrow> fq" where
  "fq_sub a b =
     (let x = fq_reduce b; (r, borrow) = sub_borrow limb_bases fq_p x 0
      in fq_reduce (fq_add a r))"

definition fq_neg :: "fq \<Rightarrow> fq" where
  "fq_neg a = fq_sub fq_p a"

definition fq_get_bit :: "fq \<Rightarrow> nat \<Rightarrow> choice" where
  "fq_get_bit l bit_no =
     (let (limb_idx, bit_in_limb) =
        (if bit_no < 52 then (0, bit_no) else if bit_no < 104 then (1, bit_no - 52) else if bit_no < 156 then (2, bit_no - 104)
         else if bit_no < 208 then (3, bit_no - 156) else (4, bit_no - 208));
        m = push_bit bit_in_limb 1
      in fold (\<lambda>i c. choice_or c (choice_and (from_equal (word_of_nat limb_idx) (word_of_nat i))
           (from_nonzero (l ! i AND m)))) [0..<5] false_choice)"

definition fq_mul_step :: "fq \<Rightarrow> fq \<Rightarrow> nat \<Rightarrow> fq \<Rightarrow> fq" where
  "fq_mul_step this other i result =
     (let result = fq_add result result;
          c = fq_get_bit other i;
          sum = fq_add result this
      in fq_select sum result c)"

definition fq_mul :: "fq \<Rightarrow> fq \<Rightarrow> fq" where
  "fq_mul this other = fold (fq_mul_step this other) (rev [0..<253]) fq_zero"

definition fq_clamp :: "fq \<Rightarrow> fq" where
  "fq_clamp l =
     (let l = l[0 := l ! 0 AND NOT 7];
          l = l[4 := l ! 4 AND NOT (push_bit 47 1)]
      in l[4 := l ! 4 OR push_bit 46 1])"

definition fq_eq :: "fq \<Rightarrow> fq \<Rightarrow> choice" where
  "fq_eq this other =
     (let a = fq_reduce this; b = fq_reduce other
      in fold (\<lambda>i eq. choice_and eq (from_equal (a ! i) (b ! i))) [0..<5] true_choice)"

section \<open>Bytes\<close>

definition load_bits_le :: "bytes \<Rightarrow> nat \<Rightarrow> nat \<Rightarrow> u64" where
  "load_bits_le bs start_bit bit_count =
     fold (\<lambda>i out. out OR push_bit i (ucast (drop_bit ((start_bit + i) mod 8) (bs ! ((start_bit + i) div 8)) AND 1)))
       [0..<bit_count] 0"

definition store_bit :: "u64 \<Rightarrow> nat \<Rightarrow> nat \<Rightarrow> bytes \<Rightarrow> bytes" where
  "store_bit v start_bit i bs =
     (let b = ucast (drop_bit i v AND 1);
          byte_index = (start_bit + i) div 8;
          bit_index = (start_bit + i) mod 8
      in bs[byte_index := (bs ! byte_index AND NOT (push_bit bit_index 1)) OR push_bit bit_index b])"

definition store_bits_le :: "bytes \<Rightarrow> u64 \<Rightarrow> nat \<Rightarrow> nat \<Rightarrow> bytes" where
  "store_bits_le bs v start_bit bit_count = fold (store_bit v start_bit) [0..<bit_count] bs"

definition fq_from_bytes :: "bytes \<Rightarrow> fq" where
  "fq_from_bytes b =
     [load_bits_le b 0 52, load_bits_le b 52 52, load_bits_le b 104 52, load_bits_le b 156 52, load_bits_le b 208 48]"

definition fq_to_bytes :: "fq \<Rightarrow> bytes" where
  "fq_to_bytes l =
     (let f = fq_reduce l;
          ret = replicate 32 0;
          ret = store_bits_le ret (f ! 0) 0 52;
          ret = store_bits_le ret (f ! 1) 52 52;
          ret = store_bits_le ret (f ! 2) 104 52;
          ret = store_bits_le ret (f ! 3) 156 52
      in store_bits_le ret (f ! 4) 208 45)"

definition fq_feed_bit :: "bytes \<Rightarrow> nat \<Rightarrow> fq \<Rightarrow> fq" where
  "fq_feed_bit v i A =
     (let A = fq_add A A;
          c = from_nonzero (ucast (drop_bit (i mod 8) (v ! (i div 8)) AND 1));
          with_bit = fq_add A fq_one;
          A = fq_select with_bit A c
      in fq_reduce A)"

definition fq_reduce_512 :: "bytes \<Rightarrow> fq" where
  "fq_reduce_512 v = fold (fq_feed_bit v) (rev [0..<512]) fq_zero"

definition fq_from_bytes_mod_l :: "bytes \<Rightarrow> fq" where
  "fq_from_bytes_mod_l b = fq_reduce_512 (b @ replicate 32 0)"

section \<open>Subtraction with borrow\<close>

definition order_L :: nat where
  "order_L = 2 ^ 252 + 27742317777372353535851937790883648493"

abbreviation qval :: "fq \<Rightarrow> nat" where
  "qval \<equiv> lval 52"

lemma qval_fq_p: "qval fq_p = order_L"
  by (simp add: fq_p_def order_L_def)

lemma limb_masks_eq: "limb_masks = [mask 52, mask 52, mask 52, mask 52, mask 45]"
  by (simp add: limb_masks_def limb_bases_def mask_eq_exp_minus_1)

text \<open>One limb of the subtraction: the digit and the borrow it leaves.\<close>

lemma borrow_digit:
  fixes x y b :: u64
  assumes "unat x < 2 ^ 52" and "unat y < 2 ^ 52" and "unat b \<le> 1"
    and "d = uint x - uint y - uint b" and "nb = (if d < 0 then 1 else 0 :: u64)"
  shows "int (unat (word_of_int d + (push_bit 52 1 AND (0 - nb)) :: u64)) = d + 2 ^ 52 * int (unat nb)"
    and "unat nb \<le> 1" and "0 \<le> d + 2 ^ 52 * int (unat nb)" and "d + 2 ^ 52 * int (unat nb) < 2 ^ 52"
proof -
  have d: "d = int (unat x) - int (unat y) - int (unat b)" unfolding assms(4) uint_nat by (rule refl)
  note lt = assms(1,2) [THEN of_nat_less_iff [where 'a = int, THEN iffD2]] assms(3) [THEN of_nat_mono [where 'a = int]]
  have b: "int (unat x) < 2 ^ 52" "int (unat y) < 2 ^ 52" "int (unat b) \<le> 1"
    using lt by (simp_all only: of_nat_power of_nat_numeral of_nat_1)
  show r: "0 \<le> d + 2 ^ 52 * int (unat nb)" "d + 2 ^ 52 * int (unat nb) < 2 ^ 52"
    using assms(5) b of_nat_0_le_iff [of "unat x"] of_nat_0_le_iff [of "unat y"] of_nat_0_le_iff [of "unat b"]
    unfolding d by (cases "int (unat x) - int (unat y) - int (unat b) < 0"; simp only: if_True if_False unat_0 unat_1; linarith)+
  show "unat nb \<le> 1" using assms(5) by simp
  have "word_of_int d + (push_bit 52 1 AND (0 - nb)) = (word_of_int (d + 2 ^ 52 * int (unat nb)) :: u64)"
    using assms(5) by (cases "d < 0") simp_all
  moreover have "uint (word_of_int e :: u64) = e" if "0 \<le> e" "e < 2 ^ 52" for e
    using that by (simp add: uint_word_of_int)
  ultimately show "int (unat (word_of_int d + (push_bit 52 1 AND (0 - nb)) :: u64)) = d + 2 ^ 52 * int (unat nb)"
    using r by (simp only: uint_nat [symmetric])
qed

lemma sub_borrow_val:
  assumes "length xs = Suc n" and "length ys = Suc n"
    and "\<And>i. i < n \<Longrightarrow> unat (xs ! i) < 2 ^ 52" and "\<And>i. i < n \<Longrightarrow> unat (ys ! i) < 2 ^ 52"
    and "unat b \<le> 1"
    and "sub_borrow (replicate n (push_bit 52 1) @ [base]) xs ys b = (r, out)"
  shows "length r = Suc n \<and> (out = 0 \<longleftrightarrow> qval ys + unat b \<le> qval xs) \<and>
    (out = 0 \<longrightarrow> qval r + qval ys + unat b = qval xs \<and> (\<forall>i<n. unat (r ! i) < 2 ^ 52))"
  using assms
proof (induction n arbitrary: xs ys b r)
  case 0
  then obtain x y where xy: "xs = [x]" "ys = [y]" by (auto simp: length_Suc_conv)
  let ?d = "uint x - uint y - uint b"
  have le: "0 \<le> ?d \<longleftrightarrow> unat y + unat b \<le> unat x"
    unfolding uint_nat by linarith
  have "uint (word_of_int ?d :: u64) = ?d" if "0 \<le> ?d"
  proof -
    have "?d < 2 ^ LENGTH(64)" using uint_lt2p [of x] uint_ge_0 [of y] uint_ge_0 [of b] by linarith
    with that show ?thesis by (simp only: uint_word_of_int mod_pos_pos_trivial)
  qed
  then have "unat (word_of_int ?d :: u64) + unat y + unat b = unat x" if "0 \<le> ?d"
    using that unfolding uint_nat by linarith
  then show ?case using 0(6) le unfolding xy by (auto simp: Let_def split: if_splits)
next
  case (Suc n)
  obtain x xs' y ys' where xy: "xs = x # xs'" "ys = y # ys'" "length xs' = Suc n" "length ys' = Suc n"
    using Suc.prems(1,2) by (auto simp: length_Suc_conv)
  define d where "d = uint x - uint y - uint b"
  define nb where "nb = (if d < 0 then 1 else 0 :: u64)"
  let ?s = "word_of_int d + (push_bit 52 1 AND (0 - nb)) :: u64"
  obtain r' where r: "sub_borrow (replicate n (push_bit 52 1) @ [base]) xs' ys' nb = (r', out)" "r = ?s # r'"
    using Suc.prems(6) by (auto simp: xy Let_def d_def nb_def split: prod.splits)
  have lim: "unat (xs' ! i) < 2 ^ 52" "unat (ys' ! i) < 2 ^ 52" if "i < n" for i
    using that Suc.prems(3,4) [of "Suc i"] by (simp_all add: xy)
  have "unat x < 2 ^ 52" "unat y < 2 ^ 52" using Suc.prems(3,4) [of 0] by (simp_all add: xy)
  note bd = borrow_digit [OF this Suc.prems(5) d_def nb_def]
  note ih = Suc.IH [OF xy(3,4) lim bd(2) r(1)]
  let ?X = "int (qval xs')" and ?Y = "int (qval ys')" and ?N = "int (unat nb)"
  have e: "int (unat ?s) = d + 2 ^ 52 * ?N" and sl: "unat ?s < 2 ^ 52"
    using bd by (simp_all flip: of_nat_less_iff [where 'a = int])
  have xd: "int (unat x) - int (unat y) - int (unat b) = d" by (simp only: d_def uint_nat)
  have X: "int (qval xs) = int (unat x) + 2 ^ 52 * ?X" and Y: "int (qval ys) = int (unat y) + 2 ^ 52 * ?Y"
    by (simp_all add: xy)
  have key: "int (qval xs) - int (qval ys) - int (unat b) = int (unat ?s) + 2 ^ 52 * (?X - ?Y - ?N)"
    unfolding X Y e using xd by (simp add: algebra_simps)
  have sgn: "qval ys + unat b \<le> qval xs \<longleftrightarrow> qval ys' + unat nb \<le> qval xs'"
  proof -
    have "0 \<le> int s + 2 ^ 52 * k \<longleftrightarrow> 0 \<le> k" if "s < 2 ^ 52" for s :: nat and k :: int
    proof -
      have "int s < 2 ^ 52" using that by simp
      then show ?thesis by (cases "0 \<le> k") simp_all
    qed
    from this [OF sl, of "?X - ?Y - ?N"] show ?thesis using key by linarith
  qed
  have "qval r + qval ys + unat b = qval xs" if "out = 0"
  proof -
    have "qval r' + qval ys' + unat nb = qval xs'" using ih that by blast
    then have k: "?X - ?Y - ?N = int (qval r')" by linarith
    have "qval r = unat ?s + 2 ^ 52 * qval r'" by (simp only: r(2) lval.simps)
    then have "int (qval r) = int (unat ?s) + 2 ^ 52 * int (qval r')"
      by (simp only: of_nat_add of_nat_mult of_nat_power of_nat_numeral)
    then have "int (qval xs) - int (qval ys) - int (unat b) = int (qval r)" using key unfolding k by (simp only:)
    then show ?thesis by linarith
  qed
  moreover have "\<forall>i<Suc n. unat (r ! i) < 2 ^ 52" if "out = 0"
    using ih that sl by (auto simp: r(2) less_Suc_eq_0_disj)
  ultimately show ?case using ih sgn r(2) by simp
qed

section \<open>Reduction\<close>

lemma bases_split: "limb_bases = replicate 4 (push_bit 52 1) @ [push_bit 45 1]"
  by (simp add: limb_bases_def numeral_eq_Suc)

lemma fq_p_low:
  assumes "i < 4"
  shows "unat (fq_p ! i) < 2 ^ 52"
proof -
  have "i \<in> {0, 1, 2, 3}" using assms by auto
  then show ?thesis by (auto simp: fq_p_def)
qed

lemma carry_pass_digs:
  fixes l :: fq
  assumes "map unat l = digs 52 4 v" and "v < 2 ^ 271"
  shows "map unat (carry_pass 52 4 l) = digs 52 4 v"
proof -
  have len: "length l = Suc 4" using length_of_digs [OF assms(1)] .
  have "v div 2 ^ (4 * 52) < 2 ^ 63" using assms(2) by (intro less_mult_imp_div_less) simp
  moreover have "x mod 2 ^ 52 < 2 ^ 63" for x :: nat by (rule less_trans [of _ "2 ^ 52"]) simp_all
  ultimately have "list_all (\<lambda>x. x < 2 ^ 63) (map unat l)"
    unfolding assms(1) digs_4 by simp
  moreover have "roomy 52 x" if "unat x < 2 ^ 63" for x :: u64 using that by (simp add: roomy_def)
  ultimately have "list_all (roomy 52) (tl l)" using len by (cases l) (auto simp: list_all_iff)
  from carry_pass_digits [OF len this] show ?thesis by (simp add: digs_eq_lval [OF assms(1)])
qed

lemma select_of: "map2 (\<lambda>s x. (s AND m) OR (x AND NOT m)) sub l = (if t then sub else l)"
  if "length sub = length l" and "m = choice_mask (choice_of t)" for sub l :: "u64 list"
  using that by (simp add: map2_projections)

lemma fq_sub_step_digs:
  assumes "map unat l = digs 52 4 v" and "v < 2 ^ 271"
  shows "map unat (fq_sub_step l) = digs 52 4 (if order_L \<le> v then v - order_L else v)"
proof -
  let ?l = "carry_pass 52 4 l"
  have d: "map unat ?l = digs 52 4 v" using assms by (rule carry_pass_digs)
  have len: "length ?l = Suc 4" using length_of_digs [OF d] .
  have lp: "length fq_p = Suc 4" by (simp add: fq_p_def)
  obtain sub out where s: "sub_borrow limb_bases ?l fq_p 0 = (sub, out)" by fastforce
  note sb = sub_borrow_val [OF len lp digits_low [OF d] fq_p_low _ s [unfolded bases_split]]
  have r: "length sub = 5" "out = 0 \<longleftrightarrow> order_L \<le> v"
    "out = 0 \<Longrightarrow> qval sub + order_L = v \<and> (\<forall>i<4. unat (sub ! i) < 2 ^ 52)"
    using sb digs_eq_lval [OF d] by (simp_all add: qval_fq_p)
  have "fq_sub_step l = (if out = 0 then sub else ?l)"
    using r(1) len by (simp add: fq_sub_step_def s select_of Let_def del: choice_mask_of)
  moreover have "map unat sub = digs 52 4 (v - order_L)" if "out = 0"
    using digs_of_lval [OF r(1), of 52] r(3) [OF that] by (metis add_diff_cancel_right')
  ultimately show ?thesis using r(2) d by simp
qed

lemma fq_sub_steps:
  assumes "map unat l = digs 52 4 v" and "v < 2 ^ 271"
  shows "map unat ((fq_sub_step ^^ n) l) = digs 52 4 (if v < n * order_L then v mod order_L else v - n * order_L)"
proof (induction n)
  case 0
  then show ?case using assms by simp
next
  case (Suc n)
  let ?w = "if v < n * order_L then v mod order_L else v - n * order_L"
  have pos: "0 < order_L" by (simp add: order_L_def)
  have "?w \<le> v" by simp
  then have "?w < 2 ^ 271" using assms(2) by (rule order_le_less_trans)
  note st = fq_sub_step_digs [OF Suc this]
  have "(if order_L \<le> ?w then ?w - order_L else ?w) =
      (if v < Suc n * order_L then v mod order_L else v - Suc n * order_L)"
  proof (cases "v < n * order_L")
    case True
    then have "v < Suc n * order_L" by simp
    then show ?thesis using True pos by (simp add: linorder_not_le)
  next
    case False
    define u where "u = v - n * order_L"
    have v: "v = u + n * order_L" using False by (simp add: u_def)
    have "v mod order_L = u mod order_L" by (simp add: v)
    moreover have "v < Suc n * order_L \<longleftrightarrow> u < order_L" by (simp add: v)
    moreover have "v - Suc n * order_L = u - order_L" by (simp add: v)
    ultimately show ?thesis using False by (simp add: u_def [symmetric] linorder_not_less)
  qed
  then show ?case using st by simp
qed

definition canonq :: "fq \<Rightarrow> bool" where
  "canonq l \<longleftrightarrow> map unat l = digs 52 4 (qval l) \<and> qval l < order_L"

lemma canonqI: "map unat l = digs 52 4 v \<Longrightarrow> v < order_L \<Longrightarrow> canonq l \<and> qval l = v"
  by (simp add: canonq_def digs_eq_lval)

lemma canonq_length: "canonq l \<Longrightarrow> length l = 5"
  using length_of_digs by (fastforce simp: canonq_def)

lemma fq_masks_digs:
  assumes "map unat l = digs 52 4 v" and "v < 2 ^ 253"
  shows "map2 (AND) l limb_masks = l"
proof -
  have "length l = 5" using length_of_digs [OF assms(1)] by simp
  then obtain a b c d e where l: "l = [a, b, c, d, e]" using list5 by blast
  have "v div 2 ^ (4 * 52) < 2 ^ 45" using assms(2) by (intro less_mult_imp_div_less) simp
  then have u: "unat a < 2 ^ 52" "unat b < 2 ^ 52" "unat c < 2 ^ 52" "unat d < 2 ^ 52" "unat e < 2 ^ 45"
    using assms(1) by (simp_all add: l digs_4)
  have "x AND mask n = x" if "unat x < 2 ^ n" for x :: u64 and n
    using that by (metis mod_less unat_and_mask word_unat_eq_iff)
  then show ?thesis using u by (simp add: l limb_masks_eq)
qed

lemma fq_reduce_digs:
  assumes "length l = 5" and "list_all (\<lambda>x. unat x < 2 ^ 63) l" and "qval l < 17 * order_L"
  shows "map unat (fq_reduce l) = digs 52 4 (qval l mod order_L)"
proof -
  let ?v = "qval l"
  have v: "?v < 2 ^ 271" using assms(3) by (rule less_trans) (simp add: order_L_def)
  have "roomy 52 x" if "unat x < 2 ^ 63" for x :: u64 using that by (simp add: roomy_def)
  then have "list_all (roomy 52) (tl l)" using assms(1,2) by (cases l) (auto simp: list_all_iff)
  then have d: "map unat (carry_pass 52 4 l) = digs 52 4 ?v"
    using assms(1) by (intro carry_pass_digits) simp_all
  have "(if ?v < 16 * order_L then ?v mod order_L else ?v - 16 * order_L) = ?v mod order_L"
  proof (cases "?v < 16 * order_L")
    case False
    define u where "u = ?v - 16 * order_L"
    have e: "?v = u + 16 * order_L" using False by (simp add: u_def)
    then have "u < order_L" using assms(3) by simp
    then have "?v mod order_L = u" unfolding e by (simp only: mod_mult_self1 mod_less)
    then show ?thesis using False by (simp add: u_def)
  qed simp
  then have s: "map unat ((fq_sub_step ^^ 16) (carry_pass 52 4 l)) = digs 52 4 (?v mod order_L)"
    using fq_sub_steps [OF d v, of 16] by simp
  have m: "?v mod order_L < order_L" by (simp add: order_L_def)
  then have lt: "?v mod order_L < 2 ^ 271" "?v mod order_L < 2 ^ 253"
    by (rule less_trans, simp add: order_L_def)+
  note c = carry_pass_digs [OF s lt(1)]
  show ?thesis using fq_masks_digs [OF c lt(2)] c by (simp add: fq_reduce_def Let_def)
qed

lemma order_pos: "0 < order_L"
  by (simp add: order_L_def)

lemma fq_reduce_canon:
  assumes "length l = 5" and "list_all (\<lambda>x. unat x < 2 ^ 63) l" and "qval l < 17 * order_L"
  shows "canonq (fq_reduce l) \<and> qval (fq_reduce l) = qval l mod order_L"
  using fq_reduce_digs [OF assms] order_pos by (intro canonqI) simp_all

lemma canonq_limbs: "canonq l \<Longrightarrow> i < 5 \<Longrightarrow> unat (l ! i) < 2 ^ 52"
proof -
  assume l: "canonq l" and i: "i < 5"
  have "qval l < 2 ^ 253" using l by (auto simp: canonq_def order_L_def)
  then have "qval l div 2 ^ (4 * 52) < 2 ^ 52" by (intro less_mult_imp_div_less) simp
  then have "list_all (\<lambda>d. d < 2 ^ 52) (digs 52 4 (qval l))" unfolding digs_4 by simp
  then have "list_all (\<lambda>d. d < 2 ^ 52) (map unat l)" using l by (simp only: canonq_def)
  then show ?thesis using i canonq_length [OF l] by (simp add: list_all_length)
qed

lemma canonq_inject: "canonq a \<Longrightarrow> canonq b \<Longrightarrow> a = b \<longleftrightarrow> qval a = qval b"
proof
  assume "canonq a" "canonq b" "qval a = qval b"
  then have "map unat a = map unat b" by (simp add: canonq_def)
  then show "a = b" by (rule map_injective) (simp add: inj_def word_unat_eq_iff)
qed simp

lemma lval_add_limbs:
  fixes a b :: "u64 list"
  assumes "length a = length b" and "\<And>i. i < length a \<Longrightarrow> unat (a ! i) + unat (b ! i) < 2 ^ 64"
  shows "lval w (map2 (\<lambda>x y. y + x) a b) = lval w a + lval w b"
proof -
  have u: "unat (y + x) = unat x + unat y" if "unat x + unat y < 2 ^ 64" for x y :: u64
    using that by (simp add: unat_word_ariths)
  have "map unat (map2 (\<lambda>x y. y + x) a b) = map2 (+) (map unat a) (map unat b)"
    using assms by (intro nth_equalityI) (simp_all add: u)
  then show ?thesis using assms(1) by (simp add: lval_nval nval_add)
qed

lemma fq_add_gen:
  assumes "length a = 5" and "length b = 5" and "\<And>i. i < 5 \<Longrightarrow> unat (a ! i) \<le> 2 ^ 61"
    and "\<And>i. i < 5 \<Longrightarrow> unat (b ! i) \<le> 2 ^ 61" and "qval a + qval b < 17 * order_L"
  shows "canonq (fq_add a b) \<and> qval (fq_add a b) = (qval a + qval b) mod order_L"
proof -
  let ?s = "map2 (\<lambda>x y. y + x) a b"
  have lim: "unat (a ! i) + unat (b ! i) < 2 ^ 63" if "i < 5" for i
    using assms(3,4) [OF that] by simp
  have "unat (a ! i) + unat (b ! i) < 2 ^ 64" if "i < 5" for i using lim [OF that] by simp
  then have v: "qval ?s = qval a + qval b" using assms(1,2) by (intro lval_add_limbs) simp_all
  have "unat (?s ! i) < 2 ^ 63" if "i < 5" for i
  proof -
    have "unat (b ! i + a ! i) = unat (a ! i) + unat (b ! i)" using lim [OF that] by (simp add: unat_word_ariths)
    then show ?thesis using lim [OF that] assms(1,2) that by simp
  qed
  then have "list_all (\<lambda>x. unat x < 2 ^ 63) ?s" using assms(1,2) by (simp add: list_all_length)
  then show ?thesis
    using fq_reduce_canon [of ?s] assms by (simp add: fq_add_def v)
qed

lemma fq_add_val:
  assumes "canonq a" and "canonq b"
  shows "canonq (fq_add a b) \<and> qval (fq_add a b) = (qval a + qval b) mod order_L"
proof (rule fq_add_gen)
  show "unat (a ! i) \<le> 2 ^ 61" "unat (b ! i) \<le> 2 ^ 61" if "i < 5" for i
    using canonq_limbs [OF assms(1) that] canonq_limbs [OF assms(2) that] by simp_all
qed (use assms in \<open>simp_all add: canonq_length canonq_def\<close>)

lemma fq_select_if: "length a = length b \<Longrightarrow> fq_select a b (choice_of t) = (if t then a else b)"
  by (simp add: fq_select_def map2_projections)

text \<open>Scalars, too, provide the interface \<open>ct_selectable\<close>.\<close>

interpretation fq_ct: ct_selectable fq_select "\<lambda>a. length a = 5"
  by unfold_locales (simp_all add: choice_consts fq_select_if)

lemma fq_consts: "canonq fq_zero \<and> qval fq_zero = 0" "canonq fq_one \<and> qval fq_one = 1"
proof -
  have "map unat fq_zero = digs 52 4 (qval fq_zero)" "map unat fq_one = digs 52 4 (qval fq_one)"
    by (intro digs_of_lval; simp add: fq_zero_def fq_one_def nth_Cons split: nat.split)+
  then show "canonq fq_zero \<and> qval fq_zero = 0" "canonq fq_one \<and> qval fq_one = 1"
    by (simp_all add: canonq_def fq_zero_def fq_one_def order_L_def)
qed

section \<open>Bits\<close>

lemma bit_odd_unat: "x AND 2 ^ k = 0 \<longleftrightarrow> even (unat x div 2 ^ k)" for x :: u64
proof -
  have "x AND 2 ^ k = 0 \<longleftrightarrow> \<not> bit x k" by (rule and_exp_eq_0_iff_not_bit)
  also have "bit x k \<longleftrightarrow> bit (unat x) k"
    using bit_unsigned_iff [of x k, where 'a = nat] bit_imp_le_length [of x k] by auto
  finally show ?thesis by (simp add: bit_iff_odd)
qed

lemma upt5: "[0..<5] = [0, 1, 2, 3, 4 :: nat]"
  by (simp add: upt_rec)

lemma fq_get_bit_eq:
  assumes "map unat l = digs 52 4 v" and "i < 256"
  shows "fq_get_bit l i = choice_of (odd (v div 2 ^ i))"
proof -
  have "length l = 5" using length_of_digs [OF assms(1)] by simp
  then obtain l0 l1 l2 l3 l4 where l: "l = [l0, l1, l2, l3, l4]" using list5 by blast
  have u: "unat l0 = v div 2 ^ 0 mod 2 ^ 52" "unat l1 = v div 2 ^ 52 mod 2 ^ 52" "unat l2 = v div 2 ^ 104 mod 2 ^ 52"
    "unat l3 = v div 2 ^ 156 mod 2 ^ 52" "unat l4 = v div 2 ^ 208"
    using assms(1) by (simp_all add: l digs_4)
  have low: "odd (v div 2 ^ a mod 2 ^ 52 div 2 ^ k) \<longleftrightarrow> odd (v div 2 ^ (a + k))" if "k < 52" for a k
    using div_mod_digit [of k 1 52 v a] that by (simp add: odd_iff_mod_2_eq_one)
  have top: "v div 2 ^ 208 div 2 ^ k = v div 2 ^ (208 + k)" for k
    by (simp add: div_mult2_eq power_add)
  consider "i < 52" | "52 \<le> i" "i < 104" | "104 \<le> i" "i < 156" | "156 \<le> i" "i < 208" | "208 \<le> i" by linarith
  then show ?thesis
  proof cases
    case 1
    then show ?thesis
      using low [of i 0] by (simp add: fq_get_bit_def Let_def upt5 choice_consts l bit_odd_unat u)
  next
    case 2
    then show ?thesis
      using low [of "i - 52" 52] by (simp add: fq_get_bit_def Let_def upt5 choice_consts l bit_odd_unat u)
  next
    case 3
    then show ?thesis
      using low [of "i - 104" 104] by (simp add: fq_get_bit_def Let_def upt5 choice_consts l bit_odd_unat u)
  next
    case 4
    then show ?thesis
      using low [of "i - 156" 156] by (simp add: fq_get_bit_def Let_def upt5 choice_consts l bit_odd_unat u)
  next
    case 5
    then show ?thesis
      using top [of "i - 208"] by (simp add: fq_get_bit_def Let_def upt5 choice_consts l bit_odd_unat u)
  qed
qed

text \<open>Double-and-add from the top bit: Horner's scheme.\<close>

lemma horner:
  fixes v a m :: nat
  assumes "\<And>i A. i < n \<Longrightarrow> P A \<Longrightarrow> P (f i A) \<and> g (f i A) mod m = (2 * g A + (v div 2 ^ i mod 2) * a) mod m"
    and "P A"
  shows "P (fold f (rev [0..<n]) A) \<and> g (fold f (rev [0..<n]) A) mod m = (2 ^ n * g A + (v mod 2 ^ n) * a) mod m"
  using assms
proof (induction n arbitrary: A)
  case 0
  then show ?case by simp
next
  case (Suc n)
  let ?b = "v div 2 ^ n mod 2"
  have s: "P (f n A)" "g (f n A) mod m = (2 * g A + ?b * a) mod m" using Suc.prems by auto
  have ih: "P (fold f (rev [0..<n]) (f n A)) \<and>
      g (fold f (rev [0..<n]) (f n A)) mod m = (2 ^ n * g (f n A) + (v mod 2 ^ n) * a) mod m"
    using Suc.prems(1) s(1) by (intro Suc.IH) auto
  have "(2 ^ n * g (f n A) + (v mod 2 ^ n) * a) mod m = (2 ^ n * (2 * g A + ?b * a) + (v mod 2 ^ n) * a) mod m"
    using s(2) by (intro mod_add_cong mod_mult_cong) simp_all
  also have "2 ^ n * (2 * g A + ?b * a) + (v mod 2 ^ n) * a = 2 ^ Suc n * g A + (v mod 2 ^ n + 2 ^ n * ?b) * a"
    by (simp add: algebra_simps)
  also have "v mod 2 ^ n + 2 ^ n * ?b = v mod 2 ^ Suc n"
    using mod_mult2_eq [of v "2 ^ n" 2] by (simp add: mult.commute)
  finally show ?case using ih by simp
qed

lemma fq_mul_step_val:
  assumes "canonq a" and "map unat b = digs 52 4 v" and "i < 253" and "canonq A"
  shows "canonq (fq_mul_step a b i A) \<and>
    qval (fq_mul_step a b i A) mod order_L = (2 * qval A + (v div 2 ^ i mod 2) * qval a) mod order_L"
proof -
  note d = fq_add_val [OF assms(4,4)]
  note s = fq_add_val [OF conjunct1 [OF d] assms(1)]
  have "fq_get_bit b i = choice_of (odd (v div 2 ^ i))" using assms(2,3) by (intro fq_get_bit_eq) simp_all
  then have "fq_mul_step a b i A =
      (if odd (v div 2 ^ i) then fq_add (fq_add A A) a else fq_add A A)"
    using d s by (simp add: fq_mul_step_def Let_def fq_select_if canonq_length)
  then show ?thesis
    using d s by (simp add: mult_2 mod_add_left_eq odd_iff_mod_2_eq_one)
qed

lemma fq_mul_val:
  assumes "canonq a" and "canonq b"
  shows "canonq (fq_mul a b) \<and> qval (fq_mul a b) = qval a * qval b mod order_L"
proof -
  have d: "map unat b = digs 52 4 (qval b)" and lt: "qval b < 2 ^ 253"
    using assms(2) by (auto simp: canonq_def order_L_def)
  have h: "canonq (fold (fq_mul_step a b) (rev [0..<253]) fq_zero) \<and>
      qval (fold (fq_mul_step a b) (rev [0..<253]) fq_zero) mod order_L =
        (2 ^ 253 * qval fq_zero + (qval b mod 2 ^ 253) * qval a) mod order_L"
    using fq_mul_step_val [OF assms(1) d] fq_consts(1) by (intro horner) auto
  have "qval b mod 2 ^ 253 = qval b" using lt by (rule mod_less)
  then have "qval (fq_mul a b) mod order_L = qval a * qval b mod order_L"
    using h fq_consts(1) by (simp add: fq_mul_def mult.commute)
  moreover have "canonq (fq_mul a b)" using h by (simp only: fq_mul_def)
  ultimately show ?thesis by (simp add: canonq_def)
qed


section \<open>Bytes\<close>

lemma unat_and_1: "unat (x AND 1) = unat x mod 2" for x :: "'a::len word"
  using unat_and_mask [of x 1] by (simp add: mask_eq_exp_minus_1)

lemma byte_at:
  assumes "i < length b"
  shows "unat (b ! i) = lval 8 (b :: bytes) div 2 ^ (8 * i) mod 2 ^ 8"
proof -
  have "unat (b ! i) < 2 ^ LENGTH(8)" by (rule unsigned_less)
  moreover have "lval 8 (span_at i 1 b) = unat (b ! i)"
    using assms by (simp add: span_at_def take_Suc flip: Cons_nth_drop_Suc)
  ultimately show ?thesis using lval_span [of i 1 b 8] assms by simp
qed

text \<open>\<open>(bytes[k / 8] >> (k % 8)) & 1\<close> is bit \<open>k\<close> of the number.\<close>

lemma bit_of_bytes:
  assumes "k < 8 * length b"
  shows "unat (drop_bit (k mod 8) (b ! (k div 8)) AND 1 :: byte) = lval 8 b div 2 ^ k mod 2"
proof -
  have i: "k div 8 < length b" using assms by (intro less_mult_imp_div_less) simp
  have "unat (drop_bit (k mod 8) (b ! (k div 8)) AND 1 :: byte) = unat (b ! (k div 8)) div 2 ^ (k mod 8) mod 2"
    by (simp only: unat_and_1 unat_drop_bit)
  also have "\<dots> = lval 8 b div 2 ^ (8 * (k div 8)) mod 2 ^ 8 div 2 ^ (k mod 8) mod 2 ^ 1"
    by (simp only: byte_at [OF i] power_one_right)
  also have "\<dots> = lval 8 b div 2 ^ (8 * (k div 8) + k mod 8) mod 2 ^ 1"
    by (rule div_mod_digit) simp
  finally show ?thesis by simp
qed

lemma unat_load_bits_le:
  assumes "s + n \<le> 8 * length b" and "n \<le> 64"
  shows "unat (load_bits_le b s n) = lval 8 b div 2 ^ s mod 2 ^ n"
  using assms
proof (induction n)
  case 0
  then show ?case by (simp add: load_bits_le_def)
next
  case (Suc n)
  let ?c = "drop_bit ((s + n) mod 8) (b ! ((s + n) div 8)) AND 1 :: byte"
  let ?v = "lval 8 b div 2 ^ (s + n) mod 2"
  have c: "unat ?c = ?v" using Suc.prems by (intro bit_of_bytes) simp
  have "?v * 2 ^ n < 2 * 2 ^ n" by simp
  also have "2 * 2 ^ n \<le> (2 :: nat) ^ 64" using Suc.prems power_increasing [of "Suc n" 64 "2 :: nat"] by simp
  finally have "unat (push_bit n (ucast ?c) :: u64) = ?v * 2 ^ n"
    using c by (subst unat_push_bit) (simp_all add: unat_ucast_byte)
  moreover have "unat (load_bits_le b s n) = lval 8 b div 2 ^ s mod 2 ^ n" using Suc by simp
  ultimately have "unat (load_bits_le b s n OR push_bit n (ucast ?c)) = lval 8 b div 2 ^ s mod 2 ^ n + ?v * 2 ^ n"
    by (subst unat_or_disjoint [of _ n]) simp_all
  also have "\<dots> = lval 8 b div 2 ^ s mod 2 ^ (n + 1)"
    using digit_join [of "lval 8 b" s n 1] by (simp only: mult.commute power_one_right)
  finally show ?case by (simp add: load_bits_le_def flip: power_Suc)
qed

lemma fq_from_bytes_digs:
  assumes "length b = 32"
  shows "map unat (fq_from_bytes b) = digs 52 4 (lval 8 b)"
proof -
  note l = unat_load_bits_le [of _ _ b, unfolded assms]
  have "lval 8 b < 2 ^ 256" using bytes_less [of b] assms by simp
  then have "lval 8 b div 2 ^ (4 * 52) < 2 ^ 48" by (intro less_mult_imp_div_less) simp
  then show ?thesis
    using l [of 0 52] l [of 52 52] l [of 104 52] l [of 156 52] l [of 208 48]
    by (simp add: fq_from_bytes_def digs_4)
qed

lemma lval_upd: "i < length l \<Longrightarrow> lval w (l[i := x]) + 2 ^ (w * i) * unat (l ! i) = lval w l + 2 ^ (w * i) * unat x"
proof (induction l arbitrary: i)
  case (Cons y l)
  show ?case
  proof (cases i)
    case (Suc j)
    have "lval w (l[j := x]) + 2 ^ (w * j) * unat (l ! j) = lval w l + 2 ^ (w * j) * unat x"
      using Cons Suc by simp
    from arg_cong [OF this, of "(*) (2 ^ w)"] show ?thesis by (simp add: Suc algebra_simps power_add)
  qed simp
qed simp

text \<open>Writing a bit above everything written so far.\<close>

lemma lval_store_bit:
  assumes "lval 8 b < 2 ^ (s + i)" and "s + i < 8 * length b"
  shows "lval 8 (store_bit v s i b) = lval 8 b + 2 ^ (s + i) * (unat v div 2 ^ i mod 2)"
proof -
  let ?j = "(s + i) div 8" and ?k = "(s + i) mod 8" and ?c = "unat v div 2 ^ i mod 2"
  let ?x = "(b ! ?j AND NOT (push_bit ?k 1)) OR push_bit ?k (ucast (drop_bit i v AND 1)) :: byte"
  have j: "?j < length b" using assms(2) by (intro less_mult_imp_div_less) simp
  have split: "8 * ?j + ?k = s + i" by simp
  have pow: "(2 :: nat) ^ (s + i) = 2 ^ (8 * ?j) * 2 ^ ?k" by (simp only: split flip: power_add)
  have "lval 8 b < 2 ^ ?k * 2 ^ (8 * ?j)" using assms(1) by (simp only: pow mult.commute)
  then have "lval 8 b div 2 ^ (8 * ?j) < 2 ^ ?k" by (rule less_mult_imp_div_less)
  then have low: "unat (b ! ?j) < 2 ^ ?k"
    unfolding byte_at [OF j] by (meson mod_less_eq_dividend order_le_less_trans)
  then have "even (unat (b ! ?j) div 2 ^ ?k)" by simp
  then have "\<not> bit (b ! ?j) ?k"
    using bit_unsigned_iff [of "b ! ?j" ?k, where 'a = nat] by (simp add: bit_iff_odd)
  then have clear: "b ! ?j AND NOT (push_bit ?k 1) = b ! ?j"
    by (intro bit_word_eqI) (auto simp: bit_simps)
  have "unat (ucast (drop_bit i v AND 1) :: byte) = ?c"
  proof -
    have "unat (drop_bit i v AND 1) = ?c" by (simp only: unat_and_1 unat_drop_bit)
    moreover have "?c < 2 ^ 8" by (rule less_trans [of _ 2]) simp_all
    ultimately show ?thesis by (simp add: unsigned_ucast_eq take_bit_nat_eq_self)
  qed
  moreover have "?c * 2 ^ ?k < 2 ^ 8"
  proof -
    have "?c * 2 ^ ?k \<le> 1 * 2 ^ 7" by (intro mult_le_mono power_increasing) auto
    then show ?thesis by simp
  qed
  ultimately have "unat (push_bit ?k (ucast (drop_bit i v AND 1)) :: byte) = ?c * 2 ^ ?k"
    by (subst unat_push_bit) simp_all
  then have x: "unat ?x = unat (b ! ?j) + ?c * 2 ^ ?k"
    unfolding clear using low by (subst unat_or_disjoint [of _ ?k]) simp_all
  have "lval 8 (b[?j := ?x]) + 2 ^ (8 * ?j) * unat (b ! ?j) = lval 8 b + 2 ^ (8 * ?j) * unat ?x"
    using j by (rule lval_upd)
  then show ?thesis unfolding x pow store_bit_def Let_def by (simp add: algebra_simps)
qed


lemma length_store_bits_le [simp]: "length (store_bits_le b v s n) = length b"
proof -
  have "length (fold (store_bit v s) is b) = length b" for "is"
    by (induction "is" arbitrary: b) (simp_all add: store_bit_def Let_def)
  then show ?thesis by (simp add: store_bits_le_def)
qed

lemma lval_store_bits_le:
  assumes "lval 8 b < 2 ^ s" and "s + n \<le> 8 * length b"
  shows "lval 8 (store_bits_le b v s n) = lval 8 b + 2 ^ s * (unat v mod 2 ^ n)"
  using assms
proof (induction n)
  case 0
  then show ?case by (simp add: store_bits_le_def)
next
  case (Suc n)
  let ?b = "store_bits_le b v s n"
  have ih: "lval 8 ?b = lval 8 b + 2 ^ s * (unat v mod 2 ^ n)" using Suc by simp
  have "unat v mod 2 ^ n + 1 \<le> 2 ^ n" by (simp add: Suc_leI)
  then have "2 ^ s * (unat v mod 2 ^ n + 1) \<le> 2 ^ s * 2 ^ n" by (rule mult_left_mono) simp
  then have "lval 8 ?b < 2 ^ (s + n)" using Suc.prems(1) unfolding ih by (simp add: power_add)
  then have "lval 8 (store_bit v s n ?b) = lval 8 ?b + 2 ^ (s + n) * (unat v div 2 ^ n mod 2)"
    using Suc.prems(2) by (intro lval_store_bit) simp_all
  also have "\<dots> = lval 8 b + 2 ^ s * (unat v mod 2 ^ n + 2 ^ n * (unat v div 2 ^ n mod 2))"
    by (simp add: ih power_add algebra_simps)
  also have "unat v mod 2 ^ n + 2 ^ n * (unat v div 2 ^ n mod 2) = unat v mod 2 ^ Suc n"
    using digit_join [of "unat v" 0 n 1] by simp
  finally show ?case by (simp add: store_bits_le_def)
qed

lemma lval_replicate_0 [simp]: "lval w (replicate n 0) = 0"
  by (induction n) simp_all

lemma fq_to_bytes_eq:
  assumes "length l = 5" and "list_all (\<lambda>x. unat x < 2 ^ 63) l" and "qval l < 17 * order_L"
  shows "fq_to_bytes l = le_bytes 32 (qval l mod order_L)"
proof -
  let ?v = "qval l mod order_L" and ?f = "fq_reduce l"
  have d: "map unat ?f = digs 52 4 ?v" using assms by (rule fq_reduce_digs)
  then have "length ?f = 5" using length_of_digs by fastforce
  then obtain l0 l1 l2 l3 l4 where f: "?f = [l0, l1, l2, l3, l4]" using list5 by blast
  have "?v < 2 ^ 253" by (rule less_trans [of _ order_L]) (simp_all add: order_L_def)
  then have "?v div 2 ^ (4 * 52) < 2 ^ 45" by (intro less_mult_imp_div_less) simp
  then have u: "unat l0 < 2 ^ 52" "unat l1 < 2 ^ 52" "unat l2 < 2 ^ 52" "unat l3 < 2 ^ 52" "unat l4 < 2 ^ 45"
    using d by (simp_all add: f digs_4)
  define b0 where "b0 = store_bits_le (replicate 32 0) l0 0 52"
  define b1 where "b1 = store_bits_le b0 l1 52 52"
  define b2 where "b2 = store_bits_le b1 l2 104 52"
  define b3 where "b3 = store_bits_le b2 l3 156 52"
  define b4 where "b4 = store_bits_le b3 l4 208 45"
  have len: "length b0 = 32" "length b1 = 32" "length b2 = 32" "length b3 = 32" "length b4 = 32"
    by (simp_all add: b0_def b1_def b2_def b3_def b4_def)
  have v0: "lval 8 b0 = unat l0" unfolding b0_def using u by (subst lval_store_bits_le) simp_all
  have v1: "lval 8 b1 = unat l0 + 2 ^ 52 * unat l1"
    unfolding b1_def using u v0 len by (subst lval_store_bits_le) simp_all
  have v2: "lval 8 b2 = unat l0 + 2 ^ 52 * unat l1 + 2 ^ 104 * unat l2"
    unfolding b2_def using u v1 len by (subst lval_store_bits_le) simp_all
  have v3: "lval 8 b3 = unat l0 + 2 ^ 52 * unat l1 + 2 ^ 104 * unat l2 + 2 ^ 156 * unat l3"
    unfolding b3_def using u v2 len by (subst lval_store_bits_le) simp_all
  have v4: "lval 8 b4 = unat l0 + 2 ^ 52 * unat l1 + 2 ^ 104 * unat l2 + 2 ^ 156 * unat l3 + 2 ^ 208 * unat l4"
    unfolding b4_def using u v3 len by (subst lval_store_bits_le) simp_all
  have "lval 8 b4 = qval ?f" unfolding v4 f lval5 by simp
  then have "lval 8 b4 = ?v" by (simp add: digs_eq_lval [OF d])
  moreover have "fq_to_bytes l = b4"
    by (simp add: fq_to_bytes_def Let_def f b0_def b1_def b2_def b3_def b4_def)
  ultimately show ?thesis using le_bytes_lval [OF len(5)] by simp
qed

section \<open>Reducing a hash\<close>

lemma canonq_bounds:
  assumes "canonq A"
  shows "length A = 5 \<and> list_all (\<lambda>x. unat x < 2 ^ 63) A \<and> qval A < 17 * order_L"
proof -
  have "unat (A ! i) < 2 ^ 63" if "i < 5" for i using canonq_limbs [OF assms that] by simp
  then show ?thesis using assms canonq_length [OF assms] by (simp add: list_all_length canonq_def)
qed

lemma fq_reduce_id: "canonq A \<Longrightarrow> fq_reduce A = A"
  using canonq_bounds [of A] fq_reduce_canon [of A] canonq_inject [of "fq_reduce A" A]
  by (simp add: canonq_def)

lemma fq_feed_bit_val:
  assumes "length v = 64" and "i < 512" and "canonq A"
  shows "canonq (fq_feed_bit v i A) \<and>
    qval (fq_feed_bit v i A) mod order_L = (2 * qval A + (lval 8 v div 2 ^ i mod 2) * 1) mod order_L"
proof -
  note d = fq_add_val [OF assms(3,3)]
  note s = fq_add_val [OF conjunct1 [OF d] conjunct1 [OF fq_consts(2)]]
  let ?c = "drop_bit (i mod 8) (v ! (i div 8)) AND 1 :: byte"
  have c: "unat ?c = lval 8 v div 2 ^ i mod 2" using assms by (intro bit_of_bytes) simp
  define z where "z = (ucast ?c :: u64)"
  have "unat z = lval 8 v div 2 ^ i mod 2" unfolding z_def c [symmetric] by (rule unat_ucast_byte) simp
  then have "z \<noteq> 0 \<longleftrightarrow> lval 8 v div 2 ^ i mod 2 \<noteq> 0" by (metis unat_0 word_unat_eq_iff)
  then have "from_nonzero (ucast ?c) = choice_of (lval 8 v div 2 ^ i mod 2 \<noteq> 0)"
    unfolding z_def [symmetric] by (simp only: from_choices(3))
  then have "fq_feed_bit v i A = (if lval 8 v div 2 ^ i mod 2 \<noteq> 0 then fq_add (fq_add A A) fq_one else fq_add A A)"
    using d s by (simp add: fq_feed_bit_def Let_def fq_select_if canonq_length fq_reduce_id del: from_choices)
  then show ?thesis
    using d s fq_consts(2) by (simp add: mult_2 mod_simps)
qed

lemma fq_reduce_512_val:
  assumes "length v = 64"
  shows "canonq (fq_reduce_512 v) \<and> qval (fq_reduce_512 v) = lval 8 v mod order_L"
proof -
  have h: "canonq (fold (fq_feed_bit v) (rev [0..<512]) fq_zero) \<and>
      qval (fold (fq_feed_bit v) (rev [0..<512]) fq_zero) mod order_L =
        (2 ^ 512 * qval fq_zero + (lval 8 v mod 2 ^ 512) * 1) mod order_L"
    using fq_feed_bit_val [OF assms] fq_consts(1) by (intro horner) auto
  have "lval 8 v < 2 ^ 512" using bytes_less [of v] assms by simp
  then have "lval 8 v mod 2 ^ 512 = lval 8 v" by (rule mod_less)
  then have "qval (fq_reduce_512 v) mod order_L = lval 8 v mod order_L"
    using h fq_consts(1) by (simp only: fq_reduce_512_def mult_0_right add_0 mult_1_right)
  moreover have "canonq (fq_reduce_512 v)" using h by (simp only: fq_reduce_512_def)
  ultimately show ?thesis by (simp add: canonq_def)
qed

lemma fq_from_bytes_mod_l_val:
  assumes "length b = 32"
  shows "canonq (fq_from_bytes_mod_l b) \<and> qval (fq_from_bytes_mod_l b) = lval 8 b mod order_L"
  using fq_reduce_512_val [of "b @ replicate 32 0"] assms
  by (simp add: fq_from_bytes_mod_l_def lval_append)


section \<open>Clamping\<close>

lemma unat_clear_low: "unat (x AND NOT (mask k)) = 2 ^ k * (unat x div 2 ^ k)" for x :: u64
proof -
  have "x AND NOT (mask k) = push_bit k (drop_bit k x)"
    by (rule bit_word_eqI) (auto simp: bit_simps)
  moreover have "unat (drop_bit k x) * 2 ^ k < 2 ^ LENGTH(64)"
  proof -
    have "unat x div 2 ^ k * 2 ^ k \<le> unat x" by (rule div_times_less_eq_dividend)
    also have "unat x < 2 ^ LENGTH(64)" by (rule unsigned_less)
    finally show ?thesis by (simp only: unat_drop_bit)
  qed
  ultimately show ?thesis by (simp only: unat_push_bit unat_drop_bit mult.commute)
qed

lemma unat_set_top:
  fixes x :: u64
  assumes "unat x < 2 ^ Suc (Suc k)" and "k < 60"
  shows "unat ((x AND NOT (push_bit (Suc k) 1)) OR push_bit k 1) = unat x mod 2 ^ k + 2 ^ k"
proof -
  have hi: "\<not> bit x n" if "Suc k < n" for n
  proof
    assume "bit x n"
    then have "bit (unat x) n" using bit_unsigned_iff [of x n, where 'a = nat] by (simp add: bit_imp_le_length)
    then have "2 ^ n \<le> unat x" by (metis bit_iff_odd div_less even_zero linorder_not_less)
    moreover have "(2 :: nat) ^ Suc (Suc k) \<le> 2 ^ n" using that by (intro power_increasing) auto
    ultimately show False using assms(1) by linarith
  qed
  have "(x AND NOT (push_bit (Suc k) 1)) OR push_bit k 1 = (x AND mask k) OR push_bit k 1"
  proof (rule bit_word_eqI)
    fix n
    assume "n < LENGTH(64)"
    then show "bit ((x AND NOT (push_bit (Suc k) 1)) OR push_bit k 1) n = bit ((x AND mask k) OR push_bit k 1) n"
      using hi [of n] by (cases "n < k"; cases "n = k"; cases "n = Suc k") (auto simp: bit_simps)
  qed
  moreover have "unat (push_bit k 1 :: u64) = 2 ^ k"
    using assms(2) power_strict_increasing [of k 64 "2 :: nat"] by (subst unat_push_bit) simp_all
  ultimately show ?thesis by (simp add: unat_or_disjoint [of _ k] unat_and_mask)
qed

lemma clamp_arith:
  fixes V :: nat
  shows "8 * (V mod 2 ^ 52 div 8) + 2 ^ 52 * (V div 2 ^ 52 mod 2 ^ 52) + 2 ^ 104 * (V div 2 ^ 104 mod 2 ^ 52) +
    2 ^ 156 * (V div 2 ^ 156 mod 2 ^ 52) + 2 ^ 208 * (V div 2 ^ 208 mod 2 ^ 46 + 2 ^ 46) =
    2 ^ 254 + 8 * (V mod 2 ^ 254 div 8)"
proof -
  note j = digit_join [of V]
  have "V mod 2 ^ 104 = V mod 2 ^ 52 + 2 ^ 52 * (V div 2 ^ 52 mod 2 ^ 52)" using j [of 0 52 52] by simp
  moreover have "V mod 2 ^ 156 = V mod 2 ^ 104 + 2 ^ 104 * (V div 2 ^ 104 mod 2 ^ 52)" using j [of 0 104 52] by simp
  moreover have "V mod 2 ^ 208 = V mod 2 ^ 156 + 2 ^ 156 * (V div 2 ^ 156 mod 2 ^ 52)" using j [of 0 156 52] by simp
  moreover have "V mod 2 ^ 254 = V mod 2 ^ 208 + 2 ^ 208 * (V div 2 ^ 208 mod 2 ^ 46)" using j [of 0 208 46] by simp
  ultimately have "V mod 2 ^ 254 = V mod 2 ^ 52 + 8 * (2 ^ 49 * (V div 2 ^ 52 mod 2 ^ 52) + 2 ^ 101 * (V div 2 ^ 104 mod 2 ^ 52) +
      2 ^ 153 * (V div 2 ^ 156 mod 2 ^ 52) + 2 ^ 205 * (V div 2 ^ 208 mod 2 ^ 46))" by simp
  then have "V mod 2 ^ 254 div 8 = V mod 2 ^ 52 div 8 + (2 ^ 49 * (V div 2 ^ 52 mod 2 ^ 52) +
      2 ^ 101 * (V div 2 ^ 104 mod 2 ^ 52) + 2 ^ 153 * (V div 2 ^ 156 mod 2 ^ 52) + 2 ^ 205 * (V div 2 ^ 208 mod 2 ^ 46))"
    by (simp only: div_mult_self2)
  then show ?thesis by (simp only:) simp
qed

text \<open>A clamped scalar: the three low bits and bit 255 cleared, bit 254 set.\<close>

lemma fq_clamp_val:
  assumes "length b = 32"
  shows "qval (fq_clamp (fq_from_bytes b)) = 2 ^ 254 + 8 * (lval 8 b mod 2 ^ 254 div 8) \<and>
    map unat (fq_clamp (fq_from_bytes b)) = digs 52 4 (2 ^ 254 + 8 * (lval 8 b mod 2 ^ 254 div 8))"
proof -
  let ?V = "lval 8 b"
  note d = fq_from_bytes_digs [OF assms]
  have "length (fq_from_bytes b) = 5" by (simp add: fq_from_bytes_def)
  then obtain l0 l1 l2 l3 l4 where l: "fq_from_bytes b = [l0, l1, l2, l3, l4]" using list5 by blast
  have u: "unat l0 = ?V mod 2 ^ 52" "unat l1 = ?V div 2 ^ 52 mod 2 ^ 52" "unat l2 = ?V div 2 ^ 104 mod 2 ^ 52"
    "unat l3 = ?V div 2 ^ 156 mod 2 ^ 52" "unat l4 = ?V div 2 ^ 208"
    using d by (simp_all add: l digs_4)
  let ?l0 = "l0 AND NOT (mask 3)" and ?l4 = "(l4 AND NOT (push_bit (Suc 46) 1)) OR push_bit 46 1"
  have c: "fq_clamp (fq_from_bytes b) = [?l0, l1, l2, l3, ?l4]"
    by (simp add: fq_clamp_def l mask_eq_exp_minus_1)
  have "?V < 2 ^ 256" using bytes_less [of b] assms by simp
  then have "unat l4 < 2 ^ Suc (Suc 46)" unfolding u by (intro less_mult_imp_div_less) simp
  then have "unat ?l4 = unat l4 mod 2 ^ 46 + 2 ^ 46" by (rule unat_set_top) simp
  moreover have "unat ?l0 = 2 ^ 3 * (unat l0 div 2 ^ 3)" by (rule unat_clear_low)
  ultimately have n: "unat ?l0 = 8 * (?V mod 2 ^ 52 div 8)" "unat ?l4 = ?V div 2 ^ 208 mod 2 ^ 46 + 2 ^ 46"
    by (simp_all add: u)
  have val: "qval [?l0, l1, l2, l3, ?l4] = 2 ^ 254 + 8 * (?V mod 2 ^ 254 div 8)"
    unfolding clamp_arith [symmetric] lval5 n u(2-4) by simp
  have "8 * (?V mod 2 ^ 52 div 8) \<le> ?V mod 2 ^ 52" by (rule times_div_less_eq_dividend)
  also have "\<dots> < 2 ^ 52" by simp
  finally have "unat ([?l0, l1, l2, l3, ?l4] ! i) < 2 ^ 52" if "i < 4" for i
    using that n(1) u by (auto simp: less_Suc_eq nth_Cons' numeral_2_eq_2 numeral_3_eq_3)
  then have "map unat [?l0, l1, l2, l3, ?l4] = digs 52 4 (qval [?l0, l1, l2, l3, ?l4])"
    by (intro digs_of_lval) simp_all
  then show ?thesis unfolding c val by simp
qed

section \<open>Differences and equality\<close>

lemma fq_sub_val:
  assumes "canonq a" and "canonq b"
  shows "canonq (fq_sub a b) \<and> (qval (fq_sub a b) + qval b) mod order_L = qval a"
proof -
  have lp: "length fq_p = Suc 4" by (simp add: fq_p_def)
  have lb: "length b = Suc 4" using canonq_length [OF assms(2)] by simp
  obtain r out where s: "sub_borrow limb_bases fq_p b 0 = (r, out)" by fastforce
  have bl: "unat (b ! i) < 2 ^ 52" if "i < 4" for i using canonq_limbs [OF assms(2)] that by simp
  note sb = sub_borrow_val [OF lp lb fq_p_low bl _ s [unfolded bases_split]]
  have lt: "qval b < order_L" using assms(2) by (simp add: canonq_def)
  then have r: "length r = 5" "qval r + qval b = order_L" "\<And>i. i < 4 \<Longrightarrow> unat (r ! i) < 2 ^ 52"
    using sb by (simp_all add: qval_fq_p)
  have "qval r \<le> order_L" using r(2) by simp
  then have "qval r div 2 ^ (4 * 52) < 2 ^ 61"
    by (intro less_mult_imp_div_less) (simp add: order_L_def)
  then have "unat (r ! 4) < 2 ^ 61"
    using arg_cong [OF digs_of_lval [OF r(1,3)], of "\<lambda>l. l ! 4"] r(1) by (simp add: digs_4)
  then have rl: "unat (r ! i) \<le> 2 ^ 61" if "i < 5" for i
    using that r(3) [of i] by (cases "i = 4") auto
  have al: "unat (a ! i) \<le> 2 ^ 61" if "i < 5" for i using canonq_limbs [OF assms(1) that] by simp
  have "qval a + qval r < 17 * order_L" using assms(1) \<open>qval r \<le> order_L\<close> by (simp add: canonq_def)
  then have ad: "canonq (fq_add a r) \<and> qval (fq_add a r) = (qval a + qval r) mod order_L"
    using canonq_length [OF assms(1)] r(1) al rl by (intro fq_add_gen) auto
  have "fq_sub a b = fq_add a r"
    using ad by (simp add: fq_sub_def Let_def fq_reduce_id [OF assms(2)] s fq_reduce_id)
  moreover have "((qval a + qval r) mod order_L + qval b) mod order_L = (qval a + order_L) mod order_L"
    by (simp add: mod_add_left_eq add.assoc r(2))
  ultimately show ?thesis using ad assms(1) by (simp add: canonq_def)
qed

lemma fq_eq_iff:
  assumes "canonq a" and "canonq b"
  shows "fq_eq a b = choice_of (a = b)"
proof -
  have n: "a = b \<longleftrightarrow> a ! 0 = b ! 0 \<and> a ! 1 = b ! 1 \<and> a ! 2 = b ! 2 \<and> a ! 3 = b ! 3 \<and> a ! 4 = b ! 4"
    using list5 [OF canonq_length [OF assms(1)]] list5 [OF canonq_length [OF assms(2)]] by auto
  show ?thesis
    using assms unfolding fq_eq_def Let_def upt5 choice_consts n
    by (simp add: fq_reduce_id conj_assoc)
qed

section \<open>Properties\<close>

text \<open>
  C17. The scalar field computes modulo \<open>L\<close>: on reduced scalars \<open>operator+\<close>, \<open>operator-\<close> and \<open>operator*\<close> give
  the reduced sum, difference and product, and \<open>operator==\<close> decides equality; the double-and-add
  product needs no number wider than a scalar.
\<close>

theorem scalar_arithmetic_mod_L:
  assumes "canonq a" and "canonq b"
  shows "qval (fq_add a b) = (qval a + qval b) mod order_L \<and>
    (qval (fq_sub a b) + qval b) mod order_L = qval a \<and>
    qval (fq_mul a b) = qval a * qval b mod order_L \<and>
    canonq (fq_add a b) \<and> canonq (fq_sub a b) \<and> canonq (fq_mul a b) \<and>
    fq_eq a b = choice_of (qval a = qval b)"
  using fq_add_val [OF assms] fq_sub_val [OF assms] fq_mul_val [OF assms] fq_eq_iff [OF assms]
    canonq_inject [OF assms] by simp

theorem scalar_arithmetic_mod_L_witness:
  "qval (fq_mul fq_one fq_zero) = 0 \<and> fq_eq fq_one fq_zero = false_choice"
  using scalar_arithmetic_mod_L [of fq_one fq_zero] fq_consts by (simp add: choice_consts)

text \<open>
  Scalars and bytes: reducing a 64-byte hash bit by bit gives its little-endian value modulo \<open>L\<close>,
  \<open>from_bytes_mod_l\<close> gives that of 32 bytes, \<open>to_bytes\<close> of a reduced scalar gives the bytes back that
  stand for it, and a loaded and clamped secret is the scalar RFC 7748 prescribes: a multiple of 8
  with bit 254 set and bit 255 clear.
\<close>

theorem scalar_bytes:
  assumes "length h = 64" and "length b = 32" and "canonq s"
  shows "qval (fq_reduce_512 h) = lval 8 h mod order_L \<and> canonq (fq_reduce_512 h) \<and>
    qval (fq_from_bytes_mod_l b) = lval 8 b mod order_L \<and>
    fq_from_bytes_mod_l (fq_to_bytes s) = s \<and>
    qval (fq_clamp (fq_from_bytes b)) = 2 ^ 254 + 8 * (lval 8 b mod 2 ^ 254 div 8)"
proof -
  have lt: "qval s < order_L" using assms(3) by (simp add: canonq_def)
  then have "qval s mod 2 ^ 256 mod order_L = qval s" by (simp add: order_L_def)
  moreover have t: "fq_to_bytes s = le_bytes 32 (qval s)"
    using fq_to_bytes_eq [of s] canonq_bounds [OF assms(3)] lt by simp
  ultimately have "fq_from_bytes_mod_l (fq_to_bytes s) = s"
    using fq_from_bytes_mod_l_val [of "fq_to_bytes s"] canonq_inject [OF _ assms(3)] by simp
  then show ?thesis
    using fq_reduce_512_val [OF assms(1)] fq_from_bytes_mod_l_val [OF assms(2)] fq_clamp_val [OF assms(2)] by simp
qed

theorem scalar_bytes_witness:
  "qval (fq_reduce_512 (replicate 64 1)) = lval 8 (replicate 64 (1 :: byte)) mod order_L \<and>
   qval (fq_clamp (fq_from_bytes (replicate 32 0))) = 2 ^ 254 \<and>
   fq_from_bytes_mod_l (fq_to_bytes fq_one) = fq_one"
  using scalar_bytes [of "replicate 64 1" "replicate 32 0" fq_one] fq_consts(2) by simp

end
