(* ===== verification/X25519.thy ===== *)
theory X25519
  imports Field_25519 Field_Q
begin

text \<open>
  The Montgomery ladder of \<open>src/impl/crypto/util/math/group/montgomery_point.hpp\<close> and
  \<open>montgomery_point.cpp\<close>, and the key exchange of \<open>src/impl/crypto/key_exchange/x25519.cpp\<close>. Random
  secrets come from libsodium and are arguments here. The lemmas show that coordinates stay in
  the range multiplication needs whatever the inputs are, that a ladder step is the formulas of
  RFC 7748 wherever no subtraction borrows, and what an exchange depends on and rejects.
\<close>

record montgomery_point =
  mp_x :: fe
  mp_z :: fe

definition mp_from_affine :: "fe \<Rightarrow> montgomery_point" where
  "mp_from_affine x_coord = \<lparr>mp_x = x_coord, mp_z = fe_one\<rparr>"

definition mp_to_affine :: "montgomery_point \<Rightarrow> fe" where
  "mp_to_affine p = fe_mul (mp_x p) (fe_invert (mp_z p))"

definition mp_base_point :: montgomery_point where
  "mp_base_point = mp_from_affine (fe_add_u64 fe_one 8)"

definition mp_swap ::
  "montgomery_point \<Rightarrow> montgomery_point \<Rightarrow> choice \<Rightarrow> montgomery_point \<times> montgomery_point" where
  "mp_swap a b c =
     (let (ax, bx) = fe_swap (mp_x a) (mp_x b) c;
          (az, bz) = fe_swap (mp_z a) (mp_z b) c
      in (\<lparr>mp_x = ax, mp_z = az\<rparr>, \<lparr>mp_x = bx, mp_z = bz\<rparr>))"

text \<open>The lambda \<open>step\<close>; \<open>this_x\<close> is the affine coordinate of the point that is multiplied.\<close>

definition ladder_step ::
  "fe \<Rightarrow> montgomery_point \<Rightarrow> montgomery_point \<Rightarrow> montgomery_point \<times> montgomery_point" where
  "ladder_step this_x x0 x1 =
     (let A = fe_add (mp_x x0) (mp_z x0);
          AA = fe_square A;
          B = fe_sub (mp_x x0) (mp_z x0);
          BB = fe_square B;
          E = fe_sub AA BB;
          C = fe_add (mp_x x1) (mp_z x1);
          D = fe_sub (mp_x x1) (mp_z x1);
          DA = fe_mul D A;
          CB = fe_mul C B;
          x1x = fe_square (fe_add DA CB);
          x1z = fe_mul this_x (fe_square (fe_sub DA CB));
          x0x = fe_mul AA BB;
          a24_E = fe_mul (fe_add_u64 fe_zero 121665) E;
          x0z = fe_mul E (fe_add AA a24_E)
      in (\<lparr>mp_x = x0x, mp_z = x0z\<rparr>, \<lparr>mp_x = x1x, mp_z = x1z\<rparr>))"

definition ladder_iteration ::
  "fe \<Rightarrow> fq \<Rightarrow> nat \<Rightarrow> montgomery_point \<times> montgomery_point \<times> choice \<Rightarrow>
   montgomery_point \<times> montgomery_point \<times> choice" where
  "ladder_iteration this_x s i = (\<lambda>(x0, x1, previous_bit).
     let current_bit = fq_get_bit s i;
         bit_xor = choice_xor current_bit previous_bit;
         (x0, x1) = mp_swap x0 x1 bit_xor;
         (x0, x1) = ladder_step this_x x0 x1
     in (x0, x1, current_bit))"

definition mp_mul :: "montgomery_point \<Rightarrow> fq \<Rightarrow> montgomery_point" where
  "mp_mul this other =
     (let x0 = \<lparr>mp_x = fe_one, mp_z = fe_zero\<rparr>;
          (x0, x1, previous_bit) =
            fold (ladder_iteration (mp_x this) other) (rev [0..<256]) (x0, this, false_choice)
      in fst (mp_swap x0 x1 previous_bit))"

definition x25519_derive_public :: "bytes \<Rightarrow> bytes" where
  "x25519_derive_public sk =
     (let s = fq_clamp (fq_from_bytes sk)
      in fe_to_bytes (mp_to_affine (mp_mul mp_base_point s)))"

definition x25519_exchange :: "bytes \<Rightarrow> bytes \<Rightarrow> bytes ct_optional" where
  "x25519_exchange sk pk =
     (let point = mp_from_affine (fe_from_bytes pk);
          s = fq_clamp (fq_from_bytes sk);
          result = mp_to_affine (mp_mul point s)
      in from_choice (fe_to_bytes result) (choice_not (fe_is_zero result)))"

section \<open>Coordinates stay in range\<close>

definition mp_tight :: "montgomery_point \<Rightarrow> bool" where
  "mp_tight p \<longleftrightarrow> tight (mp_x p) \<and> tight (mp_z p)"

lemma tight_length: "tight l \<Longrightarrow> length l = 5"
  by (simp add: tight_def)

lemma tight_consts: "tight fe_one" "tight fe_zero"
  by (simp_all add: tight_def fe_one_def fe_zero_def)

lemma length_fe_sub: "length a = 5 \<Longrightarrow> tight b \<Longrightarrow> length (fe_sub a b) = 5"
  by (simp add: fe_sub_def Let_def length_fe_reduce tight_foldable)

lemma fe_square_tight: "length a = 5 \<Longrightarrow> tight (fe_square a)"
  by (simp add: fe_square_mul fe_mul_tight)

text \<open>A step gives coordinates in range even where a subtraction borrowed.\<close>

lemma ladder_step_tight:
  assumes "length u = 5" and "mp_tight x0" and "mp_tight x1"
  shows "mp_tight (fst (ladder_step u x0 x1)) \<and> mp_tight (snd (ladder_step u x0 x1))"
  using assms
  by (simp add: ladder_step_def Let_def mp_tight_def tight_length length_fe_sub fe_square_tight fe_mul_tight)

lemma mp_swap_if:
  assumes "mp_tight a" and "mp_tight b"
  shows "mp_swap a b (choice_of t) = (if t then (b, a) else (a, b))"
  using assms by (simp add: mp_swap_def mp_tight_def tight_length fe_swap_if)

lemma ladder_iteration_tight:
  assumes "length u = 5" and "map unat s = digs 52 4 v" and "i < 256" and "mp_tight x0" and "mp_tight x1"
  shows "\<exists>y0 y1. ladder_iteration u s i (x0, x1, choice_of t) = (y0, y1, choice_of (odd (v div 2 ^ i))) \<and>
    mp_tight y0 \<and> mp_tight y1"
  using assms ladder_step_tight [OF assms(1,4,5)] ladder_step_tight [OF assms(1,5,4)]
  by (simp add: ladder_iteration_def fq_get_bit_eq mp_swap_if split: prod.split) auto

lemma ladder_tight:
  assumes "length u = 5" and "map unat s = digs 52 4 v" and "n \<le> 256" and "mp_tight x0" and "mp_tight x1"
  shows "\<exists>y0 y1 t'. fold (ladder_iteration u s) (rev [0..<n]) (x0, x1, choice_of t) = (y0, y1, choice_of t') \<and>
    mp_tight y0 \<and> mp_tight y1"
  using assms(3-5)
proof (induction n arbitrary: x0 x1 t)
  case 0
  then show ?case by auto
next
  case (Suc n)
  obtain y0 y1 where "ladder_iteration u s n (x0, x1, choice_of t) = (y0, y1, choice_of (odd (v div 2 ^ n)))"
    "mp_tight y0" "mp_tight y1"
    using ladder_iteration_tight [OF assms(1,2), of n x0 x1 t] Suc.prems by auto
  then show ?case using Suc.IH [of y0 y1 "odd (v div 2 ^ n)"] Suc.prems(1) by simp
qed

lemma mp_mul_tight:
  assumes "mp_tight p" and "map unat s = digs 52 4 v"
  shows "mp_tight (mp_mul p s)"
proof -
  let ?x0 = "\<lparr>mp_x = fe_one, mp_z = fe_zero\<rparr>"
  have "mp_tight ?x0" by (simp add: mp_tight_def tight_consts)
  moreover have "length (mp_x p) = 5" using assms(1) by (simp add: mp_tight_def tight_length)
  ultimately obtain y0 y1 t where
    "fold (ladder_iteration (mp_x p) s) (rev [0..<256]) (?x0, p, choice_of False) = (y0, y1, choice_of t)"
    "mp_tight y0" "mp_tight y1"
    using ladder_tight [OF _ assms(2), of "mp_x p" 256 ?x0 p False] assms(1) by auto
  then show ?thesis by (simp add: mp_mul_def choice_consts mp_swap_if)
qed

lemma mp_to_affine_tight: "mp_tight p \<Longrightarrow> tight (mp_to_affine p)"
  by (simp add: mp_to_affine_def mp_tight_def fe_invert_power tight_loose)

section \<open>A ladder step is RFC 7748's\<close>

text \<open>The residue an element stands for, and what the operations do to it.\<close>

definition fev :: "fe \<Rightarrow> int" where
  "fev l = int (feval l) mod int p25519"

lemma fev_mul: "loose a \<Longrightarrow> loose b \<Longrightarrow> fev (fe_mul a b) = fev a * fev b mod int p25519"
  using fe_mul_mod [of a b] by (simp add: fev_def mod_simps flip: zmod_int of_nat_mult)

lemma fev_square: "loose a \<Longrightarrow> fev (fe_square a) = fev a * fev a mod int p25519"
  using fev_mul [of a a] by (simp add: fe_square_mul loose_def)

lemma fev_invert:
  assumes "loose z"
  shows "fev (fe_invert z) = fev z ^ (p25519 - 2) mod int p25519"
proof -
  have "fev (fe_invert z) = int (feval z) ^ (p25519 - 2) mod int p25519"
    using fe_invert_power [OF assms] by (simp add: fev_def flip: zmod_int of_nat_power)
  then show ?thesis by (simp add: fev_def power_mod)
qed

lemma fe_add_tight_val:
  assumes "tight a" and "tight b"
  shows "feval (fe_add a b) = feval a + feval b \<and> loose (fe_add a b)"
proof -
  have len: "length a = 5" "length b = 5" using assms by (simp_all add: tight_length)
  have lim: "unat (a ! i) \<le> 2 ^ 51" "unat (b ! i) \<le> 2 ^ 51" if "i < 5" for i
    using assms that by (auto simp: tight_def list_all_length)
  have "unat (a ! i) + unat (b ! i) < 2 ^ 64" if "i < 5" for i using lim [OF that] by simp
  then have "feval (fe_add a b) = feval a + feval b"
    unfolding fe_add_def using len by (intro lval_add_limbs) simp_all
  moreover have "unat (b ! i + a ! i) \<le> 2 ^ 54" if "i < 5" for i
    using lim [OF that] by (simp add: unat_word_ariths)
  then have "loose (fe_add a b)" using len by (simp add: loose_def fe_add_def list_all_length)
  ultimately show ?thesis by blast
qed

lemma fev_add: "tight a \<Longrightarrow> tight b \<Longrightarrow> fev (fe_add a b) = (fev a + fev b) mod int p25519"
  by (simp add: fev_def fe_add_tight_val mod_simps)

lemma fe_sub_tight_val:
  assumes "tight a" and "tight b" and "no_borrow a b"
  shows "fev (fe_sub a b) = (fev a - fev b) mod int p25519 \<and> loose (fe_sub a b)"
proof -
  have l: "unat x \<le> 2 ^ 53" if "unat x \<le> 2 ^ 51" for x :: u64 using that by simp
  have a: "length a = 5" "list_all (\<lambda>x. unat x \<le> 2 ^ 53) a"
    using assms(1) l by (auto simp: tight_def list_all_iff)
  have f: "foldable b" using assms(2) by (rule tight_foldable)
  have "(int (feval (fe_sub a b)) + int (feval b)) mod int p25519 = int (feval a) mod int p25519"
    using fe_sub_mod [OF a f assms(3)] by (simp flip: of_nat_add zmod_int)
  then have "(int (feval (fe_sub a b)) + int (feval b) - int (feval b)) mod int p25519 =
      (int (feval a) - int (feval b)) mod int p25519" by (rule mod_diff_cong) simp
  then show ?thesis using fe_sub_val [OF a f assms(3)] by (simp add: fev_def mod_simps)
qed

text \<open>The step of RFC 7748, section 5, on residues.\<close>

definition rfc7748_step :: "int \<Rightarrow> int \<times> int \<Rightarrow> int \<times> int \<Rightarrow> (int \<times> int) \<times> (int \<times> int)" where
  "rfc7748_step x_1 = (\<lambda>(x_2, z_2) (x_3, z_3).
     let p = int p25519; A = x_2 + z_2; B = x_2 - z_2; E = A\<^sup>2 - B\<^sup>2; C = x_3 + z_3; D = x_3 - z_3
     in ((A\<^sup>2 * B\<^sup>2 mod p, E * (A\<^sup>2 + 121665 * E) mod p),
         ((D * A + C * B)\<^sup>2 mod p, x_1 * (D * A - C * B)\<^sup>2 mod p)))"

definition residues :: "montgomery_point \<Rightarrow> int \<times> int" where
  "residues p = (fev (mp_x p), fev (mp_z p))"

text \<open>No subtraction of the step borrows.\<close>

definition step_no_borrow :: "montgomery_point \<Rightarrow> montgomery_point \<Rightarrow> bool" where
  "step_no_borrow x0 x1 \<longleftrightarrow>
     (let A = fe_add (mp_x x0) (mp_z x0); B = fe_sub (mp_x x0) (mp_z x0);
          C = fe_add (mp_x x1) (mp_z x1); D = fe_sub (mp_x x1) (mp_z x1)
      in no_borrow (mp_x x0) (mp_z x0) \<and> no_borrow (mp_x x1) (mp_z x1) \<and>
         no_borrow (fe_square A) (fe_square B) \<and> no_borrow (fe_mul D A) (fe_mul C B))"

lemma ladder_step_residues:
  assumes "tight u" and "mp_tight x0" and "mp_tight x1" and "step_no_borrow x0 x1"
  shows "(residues (fst (ladder_step u x0 x1)), residues (snd (ladder_step u x0 x1))) =
    rfc7748_step (fev u) (residues x0) (residues x1)"
proof -
  let ?P = "int p25519"
  define A B C D where "A = fe_add (mp_x x0) (mp_z x0)" and "B = fe_sub (mp_x x0) (mp_z x0)"
    and "C = fe_add (mp_x x1) (mp_z x1)" and "D = fe_sub (mp_x x1) (mp_z x1)"
  define AA BB DA CB where "AA = fe_square A" and "BB = fe_square B" and "DA = fe_mul D A" and "CB = fe_mul C B"
  define E F where "E = fe_sub AA BB" and "F = fe_mul (fe_add_u64 fe_zero 121665) E"
  have nb: "no_borrow (mp_x x0) (mp_z x0)" "no_borrow (mp_x x1) (mp_z x1)" "no_borrow AA BB" "no_borrow DA CB"
    using assms(4) by (simp_all add: step_no_borrow_def Let_def A_def B_def C_def D_def AA_def BB_def DA_def CB_def)
  have t: "tight (mp_x x0)" "tight (mp_z x0)" "tight (mp_x x1)" "tight (mp_z x1)"
    using assms(2,3) by (simp_all add: mp_tight_def)
  have sums: "fev A = (fev (mp_x x0) + fev (mp_z x0)) mod ?P" "loose A"
    "fev C = (fev (mp_x x1) + fev (mp_z x1)) mod ?P" "loose C"
    using t by (simp_all add: A_def C_def fev_add fe_add_tight_val)
  have diffs: "fev B = (fev (mp_x x0) - fev (mp_z x0)) mod ?P" "loose B"
    "fev D = (fev (mp_x x1) - fev (mp_z x1)) mod ?P" "loose D"
    using t nb(1,2) by (simp_all add: B_def D_def fe_sub_tight_val)
  have prods: "fev AA = fev A * fev A mod ?P" "fev BB = fev B * fev B mod ?P" "fev DA = fev D * fev A mod ?P"
    "fev CB = fev C * fev B mod ?P" and pt: "tight AA" "tight BB" "tight DA" "tight CB"
    using sums diffs by (simp_all add: AA_def BB_def DA_def CB_def fev_square fev_mul fe_square_mul loose_def [of A] loose_def [of B])
  have k: "loose (fe_add_u64 fe_zero 121665)" "fev (fe_add_u64 fe_zero 121665) = 121665"
    by (simp_all add: loose_def fe_add_u64_def fe_zero_def fev_def p25519_def)
  have e: "fev E = (fev AA - fev BB) mod ?P" "loose E" using fe_sub_tight_val [OF pt(1,2) nb(3)] by (simp_all add: E_def)
  have f: "fev F = 121665 * fev E mod ?P" "tight F" using k e by (simp_all add: F_def fev_mul)
  have g: "fev (fe_sub DA CB) = (fev DA - fev CB) mod ?P" "loose (fe_sub DA CB)"
    using fe_sub_tight_val [OF pt(3,4) nb(4)] by simp_all
  have h: "fev (fe_add DA CB) = (fev DA + fev CB) mod ?P" "loose (fe_add DA CB)"
    "fev (fe_add AA F) = (fev AA + fev F) mod ?P" "loose (fe_add AA F)"
    using pt f by (simp_all add: fev_add fe_add_tight_val)
  have st: "ladder_step u x0 x1 = (\<lparr>mp_x = fe_mul AA BB, mp_z = fe_mul E (fe_add AA F)\<rparr>,
      \<lparr>mp_x = fe_square (fe_add DA CB), mp_z = fe_mul u (fe_square (fe_sub DA CB))\<rparr>)"
    by (simp only: ladder_step_def Let_def A_def B_def C_def D_def AA_def BB_def DA_def CB_def E_def F_def)
  have sq: "tight (fe_square (fe_sub DA CB))" using g(2) by (simp add: fe_square_mul loose_def [of "fe_sub DA CB"])
  have r: "fev (fe_mul AA BB) = fev AA * fev BB mod ?P" "fev (fe_mul E (fe_add AA F)) = fev E * (fev AA + fev F) mod ?P"
    "fev (fe_square (fe_add DA CB)) = (fev DA + fev CB) * (fev DA + fev CB) mod ?P"
    "fev (fe_mul u (fe_square (fe_sub DA CB))) = fev u * ((fev DA - fev CB) * (fev DA - fev CB)) mod ?P"
    using assms(1) pt e g h sq by (simp_all add: fev_mul fev_square tight_loose mod_simps)
  let ?a = "fev (mp_x x0) + fev (mp_z x0)" and ?b = "fev (mp_x x0) - fev (mp_z x0)"
  let ?c = "fev (mp_x x1) + fev (mp_z x1)" and ?d = "fev (mp_x x1) - fev (mp_z x1)"
  have base: "fev A mod ?P = ?a mod ?P" "fev B mod ?P = ?b mod ?P" "fev C mod ?P = ?c mod ?P" "fev D mod ?P = ?d mod ?P"
    by (simp_all add: sums diffs)
  have sq: "fev AA mod ?P = ?a * ?a mod ?P" "fev BB mod ?P = ?b * ?b mod ?P"
    "fev DA mod ?P = ?d * ?a mod ?P" "fev CB mod ?P = ?c * ?b mod ?P"
    unfolding prods mod_mod_trivial by (intro mod_mult_cong base)+
  have ee: "fev E mod ?P = (?a * ?a - ?b * ?b) mod ?P"
    unfolding e mod_mod_trivial by (intro mod_diff_cong sq)
  have ff: "fev F mod ?P = 121665 * (?a * ?a - ?b * ?b) mod ?P"
    unfolding f mod_mod_trivial by (intro mod_mult_cong ee refl)
  show ?thesis
    unfolding st fst_conv snd_conv residues_def rfc7748_step_def Let_def montgomery_point.simps prod.case r
      power2_eq_square prod.inject
    by (intro conjI mod_mult_cong mod_add_cong mod_diff_cong sq ee ff refl)
qed

section \<open>Exchanges\<close>

lemma from_affine_tight: "tight u \<Longrightarrow> mp_tight (mp_from_affine u)"
  by (simp add: mp_tight_def mp_from_affine_def tight_consts)

lemma x25519_result_tight:
  assumes "tight u" and "length sk = 32"
  shows "tight (mp_to_affine (mp_mul (mp_from_affine u) (fq_clamp (fq_from_bytes sk))))"
  using assms fq_clamp_val [OF assms(2)] by (intro mp_to_affine_tight mp_mul_tight from_affine_tight) auto

lemma le_bytes_zero_iff: "v < 2 ^ (8 * n) \<Longrightarrow> le_bytes n v = replicate n 0 \<longleftrightarrow> v = 0"
  using lval_inj [of "le_bytes n v" "replicate n 0"] lval_le_bytes [of n v] by simp

lemma x25519_exchange_eq:
  assumes "length sk = 32" and "length pk = 32"
  shows "\<exists>v < p25519. opt_value (x25519_exchange sk pk) = le_bytes 32 v \<and>
    opt_valid (x25519_exchange sk pk) = choice_of (v \<noteq> 0)"
proof -
  let ?r = "mp_to_affine (mp_mul (mp_from_affine (fe_from_bytes pk)) (fq_clamp (fq_from_bytes sk)))"
  let ?v = "feval ?r mod p25519"
  have "foldable ?r"
    using assms by (intro tight_foldable x25519_result_tight fe_from_bytes_tight)
  then have "opt_value (x25519_exchange sk pk) = le_bytes 32 ?v"
    "opt_valid (x25519_exchange sk pk) = choice_of (?v \<noteq> 0)"
    by (simp_all add: x25519_exchange_def Let_def from_choice_def fe_to_bytes_eq fe_is_zero_iff)
  then show ?thesis by (intro exI [of _ ?v]) (simp add: p25519_def)
qed

section \<open>Properties\<close>

text \<open>
  C16. An exchange is total and canonical: for all 32-byte secrets and public keys the result is the
  32-byte encoding of a number below \<open>p\<close>; it is marked valid exactly when it is not the all-zero
  string that low-order points give; and the \<open>value_or\<close> of the callers returns it.
\<close>

theorem x25519_exchange_rejects_zero:
  assumes "length sk = 32" and "length pk = 32"
  shows "length (opt_value (x25519_exchange sk pk)) = 32 \<and>
    lval 8 (opt_value (x25519_exchange sk pk)) < p25519 \<and>
    is_some_public (x25519_exchange sk pk) = (opt_value (x25519_exchange sk pk) \<noteq> replicate 32 0) \<and>
    value_or array_ct_select (x25519_exchange sk pk) (replicate 32 0) = opt_value (x25519_exchange sk pk)"
proof -
  obtain v where v: "v < p25519" "opt_value (x25519_exchange sk pk) = le_bytes 32 v"
    "opt_valid (x25519_exchange sk pk) = choice_of (v \<noteq> 0)"
    using x25519_exchange_eq [OF assms] by blast
  have lt: "v < 2 ^ (8 * 32)" using v(1) by (rule less_trans) (simp add: p25519_def)
  then have "le_bytes 32 v = replicate 32 0 \<longleftrightarrow> v = 0" by (rule le_bytes_zero_iff)
  moreover have "value_or array_ct_select (x25519_exchange sk pk) (replicate 32 0) =
      (case (if v \<noteq> 0 then Some (le_bytes 32 v) else None) of Some x \<Rightarrow> x | None \<Rightarrow> replicate 32 0)"
    using v by (subst byte_array.value_or_option [where t = "v \<noteq> 0"]) simp_all
  ultimately show ?thesis using v lt by (auto simp: is_some_public_def)
qed

theorem x25519_exchange_rejects_zero_witness:
  "length (opt_value (x25519_exchange (replicate 32 7) (replicate 32 0xFF))) = 32"
  using x25519_exchange_rejects_zero [of "replicate 32 7" "replicate 32 0xFF"] by simp

text \<open>
  What an exchange depends on: the secret only through its clamped scalar (bits 3 to 253), and the
  public key only through its value modulo \<open>p\<close> without bit 255, so that, as RFC 7748 demands,
  non-canonical public keys are accepted and mean the number they stand for.
\<close>

theorem x25519_depends_on_clamped_scalar:
  assumes "length sk = 32" and "length sk' = 32" and "length pk = 32" and "length pk' = 32"
    and "lval 8 sk mod 2 ^ 254 div 8 = lval 8 sk' mod 2 ^ 254 div 8"
    and "lval 8 pk mod 2 ^ 255 mod p25519 = lval 8 pk' mod 2 ^ 255 mod p25519"
  shows "x25519_exchange sk pk = x25519_exchange sk' pk' \<and> x25519_derive_public sk = x25519_derive_public sk'"
proof -
  have "map unat (fq_clamp (fq_from_bytes sk)) = map unat (fq_clamp (fq_from_bytes sk'))"
    using fq_clamp_val [OF assms(1)] fq_clamp_val [OF assms(2)] assms(5) by simp
  then have "fq_clamp (fq_from_bytes sk) = fq_clamp (fq_from_bytes sk')" by (simp only: unat_list_inject)
  moreover have "map unat (fe_from_bytes pk) = map unat (fe_from_bytes pk')"
    using fe_from_bytes_digs [OF assms(3)] fe_from_bytes_digs [OF assms(4)] assms(6) by simp
  then have "fe_from_bytes pk = fe_from_bytes pk'" by (simp only: unat_list_inject)
  ultimately show ?thesis by (simp add: x25519_exchange_def x25519_derive_public_def)
qed

theorem x25519_depends_on_clamped_scalar_witness:
  "x25519_exchange (7 # replicate 31 0) (replicate 31 0 @ [0x80]) = x25519_exchange (replicate 32 0) (replicate 32 0)"
proof -
  have "lval 8 (replicate 31 0 @ [0x80 :: byte]) = 2 ^ 255" by (simp add: lval_append)
  moreover have "lval 8 ((7 :: byte) # replicate 31 0) = 7" by simp
  ultimately show ?thesis
    using x25519_depends_on_clamped_scalar [of "7 # replicate 31 0" "replicate 32 0" "replicate 31 0 @ [0x80]" "replicate 32 0"]
    by simp
qed

text \<open>
  A step of the ladder computes the formulas of RFC 7748, section 5, modulo \<open>p\<close> on the residues of its
  points, for all coordinates in range and wherever none of its four subtractions borrows.
\<close>

theorem ladder_step_is_rfc7748:
  assumes "tight u" and "mp_tight x0" and "mp_tight x1" and "step_no_borrow x0 x1"
  shows "(residues (fst (ladder_step u x0 x1)), residues (snd (ladder_step u x0 x1))) =
      rfc7748_step (fev u) (residues x0) (residues x1) \<and>
    mp_tight (fst (ladder_step u x0 x1)) \<and> mp_tight (snd (ladder_step u x0 x1))"
  using ladder_step_residues [OF assms] ladder_step_tight [OF tight_length [OF assms(1)] assms(2,3)] by blast

lemma no_borrow_residue:
  assumes "tight b" and "fev b = int r" and "r mod 2 ^ 51 \<le> 2 ^ 51 - 19"
  shows "no_borrow a b"
proof -
  have "feval b mod p25519 = r" using assms(2) by (simp add: fev_def flip: zmod_int)
  then have "map unat (fe_reduce b) ! 0 = digs 51 4 r ! 0"
    using fe_reduce_canonical [OF tight_foldable [OF assms(1)]] by simp
  moreover have "digs 51 4 r ! 0 = r mod 2 ^ 51" by (simp add: digs_4)
  ultimately have "unat (fe_reduce b ! 0) = r mod 2 ^ 51"
    using length_fe_reduce [OF tight_foldable [OF assms(1)]] by simp
  then show ?thesis using assms(3) by (simp add: no_borrow_def)
qed

lemma no_borrow_small: "tight b \<Longrightarrow> fev b = int r \<Longrightarrow> r \<le> 2 ^ 51 - 19 \<Longrightarrow> no_borrow a b"
  by (rule no_borrow_residue) (auto intro: order_trans [OF mod_less_eq_dividend])

theorem ladder_step_is_rfc7748_witness:
  "(residues (fst (ladder_step [9, 0, 0, 0, 0] \<lparr>mp_x = fe_one, mp_z = fe_zero\<rparr> (mp_from_affine [9, 0, 0, 0, 0]))),
    residues (snd (ladder_step [9, 0, 0, 0, 0] \<lparr>mp_x = fe_one, mp_z = fe_zero\<rparr> (mp_from_affine [9, 0, 0, 0, 0])))) =
   rfc7748_step 9 (1, 0) (9, 1)"
proof -
  let ?u = "[9, 0, 0, 0, 0] :: fe" and ?x0 = "\<lparr>mp_x = fe_one, mp_z = fe_zero\<rparr>"
  have u: "tight ?u" "fev ?u = 9" by (simp_all add: tight_def fev_def p25519_def)
  have c: "fev fe_one = 1" "fev fe_zero = 0" by (simp_all add: fev_def fe_one_def fe_zero_def p25519_def)
  have nb: "no_borrow a fe_one" "no_borrow a fe_zero" for a
    using no_borrow_small [OF tight_consts(1), of 1] no_borrow_small [OF tight_consts(2), of 0] c by simp_all
  let ?A = "fe_add fe_one fe_zero" and ?B = "fe_sub fe_one fe_zero" and ?C = "fe_add ?u fe_one"
  have b: "fev ?B = 1" "loose ?B"
    using fe_sub_tight_val [OF tight_consts nb(2)] c by (simp_all add: p25519_def)
  have cc: "fev ?C = 10" "loose ?C"
    using fev_add [OF u(1) tight_consts(1)] fe_add_tight_val [OF u(1) tight_consts(1)] u c by (simp_all add: p25519_def)
  have "fev (fe_square ?B) = 1" "fev (fe_mul ?C ?B) = 10"
    using fev_square [OF b(2)] fev_mul [OF cc(2) b(2)] b(1) cc(1) by (simp_all add: p25519_def)
  then have "no_borrow a (fe_square ?B)" "no_borrow a (fe_mul ?C ?B)" for a
    using no_borrow_small [of "fe_square ?B" 1] no_borrow_small [of "fe_mul ?C ?B" 10] b(2) cc(2)
    by (simp_all add: fe_square_tight loose_def [of ?B])
  then have "step_no_borrow ?x0 (mp_from_affine ?u)"
    using nb by (simp add: step_no_borrow_def mp_from_affine_def)
  moreover have "mp_tight ?x0" by (simp add: mp_tight_def tight_consts)
  ultimately show ?thesis
    using ladder_step_is_rfc7748 [OF u(1) _ from_affine_tight [OF u(1)], of ?x0] u c
    by (simp add: residues_def mp_from_affine_def)
qed

end
