(* ===== verification/Rfc_7748.thy ===== *)
theory Rfc_7748
  imports X25519
begin

text \<open>
  The whole scalar multiplication of \<open>src/impl/crypto/key_exchange/x25519.cpp\<close> against the ladder of
  RFC 7748, section 5: the loop of \<open>montgomery_point::operator*\<close> with its swaps computes, on the
  residues of its points, the loop of the RFC, started one bit higher (the code runs over the 256 bits
  of the scalar, the RFC over 255; a clamped scalar has bit 255 clear). As for one step, this holds
  wherever no subtraction borrows.
\<close>

section \<open>The ladder of the RFC\<close>

definition rfc7748_round ::
  "int \<Rightarrow> nat \<Rightarrow> nat \<Rightarrow> (int \<times> int) \<times> (int \<times> int) \<times> bool \<Rightarrow> (int \<times> int) \<times> (int \<times> int) \<times> bool" where
  "rfc7748_round x_1 k t = (\<lambda>(p_2, p_3, swap).
     let k_t = odd (k div 2 ^ t);
         (p_2, p_3) = (if swap \<noteq> k_t then (p_3, p_2) else (p_2, p_3));
         (p_2, p_3) = rfc7748_step x_1 p_2 p_3
     in (p_2, p_3, k_t))"

definition rfc7748_ladder :: "nat \<Rightarrow> nat \<Rightarrow> int \<Rightarrow> int" where
  "rfc7748_ladder bits k u =
     (let (p_2, p_3, swap) = fold (rfc7748_round u k) (rev [0..<bits]) ((1, 0), (u, 1), False);
          (x_2, z_2) = (if swap then p_3 else p_2)
      in x_2 * z_2 ^ (p25519 - 2) mod int p25519)"

text \<open>No subtraction of the remaining \<open>n\<close> steps borrows.\<close>

fun ladder_clean :: "fe \<Rightarrow> fq \<Rightarrow> nat \<Rightarrow> montgomery_point \<times> montgomery_point \<times> choice \<Rightarrow> bool" where
  "ladder_clean u s 0 st = True"
| "ladder_clean u s (Suc n) (x0, x1, previous_bit) =
     ((case mp_swap x0 x1 (choice_xor (fq_get_bit s n) previous_bit) of (a, b) \<Rightarrow> step_no_borrow a b) \<and>
      ladder_clean u s n (ladder_iteration u s n (x0, x1, previous_bit)))"

section \<open>The loop\<close>

lemma ladder_iteration_eq:
  assumes "mp_tight x0" and "mp_tight x1" and "map unat s = digs 52 4 v" and "i < 256"
  shows "ladder_iteration u s i (x0, x1, choice_of t) =
    (let (a, b) = (if odd (v div 2 ^ i) \<noteq> t then (x1, x0) else (x0, x1));
         (a, b) = ladder_step u a b
     in (a, b, choice_of (odd (v div 2 ^ i))))"
  using assms by (simp add: ladder_iteration_def fq_get_bit_eq mp_swap_if)

lemma ladder_residues:
  assumes "tight u" and "map unat s = digs 52 4 v" and "n \<le> 256" and "mp_tight x0" and "mp_tight x1"
    and "ladder_clean u s n (x0, x1, choice_of t)"
  shows "\<exists>y0 y1 t'. fold (ladder_iteration u s) (rev [0..<n]) (x0, x1, choice_of t) = (y0, y1, choice_of t') \<and>
    mp_tight y0 \<and> mp_tight y1 \<and>
    fold (rfc7748_round (fev u) v) (rev [0..<n]) (residues x0, residues x1, t) = (residues y0, residues y1, t')"
  using assms(3-6)
proof (induction n arbitrary: x0 x1 t)
  case 0
  then show ?case by auto
next
  case (Suc n)
  let ?k = "odd (v div 2 ^ n)"
  obtain a b where ab: "(if ?k \<noteq> t then (x1, x0) else (x0, x1)) = (a, b)" by (meson surj_pair)
  obtain y0 y1 where y: "ladder_step u a b = (y0, y1)" by (meson surj_pair)
  have tab: "mp_tight a" "mp_tight b" using ab Suc.prems(2,3) by (auto split: if_splits)
  have n: "n < 256" using Suc.prems(1) by simp
  have it: "ladder_iteration u s n (x0, x1, choice_of t) = (y0, y1, choice_of ?k)"
    unfolding ladder_iteration_eq [OF Suc.prems(2,3) assms(2) n] ab Let_def prod.case y ..
  have "mp_swap x0 x1 (choice_xor (fq_get_bit s n) (choice_of t)) = (a, b)"
    using ab by (simp add: fq_get_bit_eq [OF assms(2) n] mp_swap_if [OF Suc.prems(2,3)])
  then have nb: "step_no_borrow a b" and cl: "ladder_clean u s n (y0, y1, choice_of ?k)"
    using Suc.prems(4) it by simp_all
  have ty: "mp_tight y0" "mp_tight y1" using ladder_step_tight [OF tight_length [OF assms(1)] tab] y by simp_all
  have "rfc7748_step (fev u) (residues a) (residues b) = (residues y0, residues y1)"
    using ladder_step_residues [OF assms(1) tab nb] y by simp
  moreover have "(if t \<noteq> ?k then (residues x1, residues x0) else (residues x0, residues x1)) = (residues a, residues b)"
    using ab by (auto split: if_splits)
  ultimately have "rfc7748_round (fev u) v n (residues x0, residues x1, t) = (residues y0, residues y1, ?k)"
    by (simp only: rfc7748_round_def Let_def prod.case)
  then show ?case using Suc.IH [OF _ ty cl] Suc.prems(1) it by simp
qed

lemma fev_to_affine:
  assumes "mp_tight p"
  shows "fev (mp_to_affine p) = fst (residues p) * snd (residues p) ^ (p25519 - 2) mod int p25519"
proof -
  let ?i = "fe_invert (mp_z p)"
  have t: "loose (mp_x p)" "loose (mp_z p)" using assms by (simp_all add: mp_tight_def tight_loose)
  have "loose ?i" using fe_invert_power [OF t(2)] tight_loose by blast
  then show ?thesis by (simp add: mp_to_affine_def fev_mul [OF t(1)] fev_invert [OF t(2)] residues_def mod_simps)
qed

lemma mp_mul_is_ladder:
  assumes "tight u" and "map unat s = digs 52 4 v"
    and "ladder_clean u s 256 (\<lparr>mp_x = fe_one, mp_z = fe_zero\<rparr>, mp_from_affine u, false_choice)"
  shows "fev (mp_to_affine (mp_mul (mp_from_affine u) s)) = rfc7748_ladder 256 v (fev u)"
proof -
  let ?x0 = "\<lparr>mp_x = fe_one, mp_z = fe_zero\<rparr>" and ?x1 = "mp_from_affine u"
  have t: "mp_tight ?x0" "mp_tight ?x1" using from_affine_tight [OF assms(1)] by (simp_all add: mp_tight_def tight_consts)
  have r: "residues ?x0 = (1, 0)" "residues ?x1 = (fev u, 1)"
    by (simp_all add: residues_def mp_from_affine_def fev_def fe_one_def fe_zero_def p25519_def)
  obtain y0 y1 t' where y: "fold (ladder_iteration u s) (rev [0..<256]) (?x0, ?x1, choice_of False) = (y0, y1, choice_of t')"
    and ty: "mp_tight y0" "mp_tight y1"
    and f: "fold (rfc7748_round (fev u) v) (rev [0..<256]) (residues ?x0, residues ?x1, False) = (residues y0, residues y1, t')"
    using ladder_residues [OF assms(1,2) order_refl t, of False] assms(3) unfolding choice_consts by blast
  have x: "mp_x ?x1 = u" by (simp add: mp_from_affine_def)
  have "mp_mul ?x1 s = (if t' then y1 else y0)"
    unfolding mp_mul_def Let_def x choice_consts y by (simp add: mp_swap_if [OF ty])
  moreover have "rfc7748_ladder 256 v (fev u) =
      (let (x_2, z_2) = (if t' then residues y1 else residues y0) in x_2 * z_2 ^ (p25519 - 2) mod int p25519)"
    unfolding rfc7748_ladder_def using f by (simp only: r Let_def prod.case)
  ultimately show ?thesis using fev_to_affine ty by (simp add: split_beta)
qed

section \<open>The point zero\<close>

text \<open>For the public key zero no step borrows, and the ladder ends at the point with \<open>z = 0\<close>.\<close>

abbreviation zero_pairs :: "((int \<times> int) \<times> (int \<times> int)) set" where
  "zero_pairs \<equiv> {((0, 0), (0, 0)), ((1, 0), (0, 0)), ((0, 0), (1, 0))}"

lemma bit_no_borrow:
  assumes "tight b" and "fev b \<in> {0, 1}"
  shows "no_borrow a b"
  using assms no_borrow_small [OF assms(1), of 0] no_borrow_small [OF assms(1), of 1] by auto

lemma zero_pairs_step:
  "(p, q) \<in> insert ((1, 0), (0, 1)) zero_pairs \<Longrightarrow> rfc7748_step 0 p q \<in> zero_pairs"
  by (auto simp: rfc7748_step_def p25519_def)

lemma zero_pairs_swap: "(p, q) \<in> zero_pairs \<Longrightarrow> (q, p) \<in> zero_pairs"
  by auto

lemma zero_step:
  assumes "tight u" and "fev u = 0" and "mp_tight a" and "mp_tight b"
    and "(residues a, residues b) \<in> insert ((1, 0), (0, 1)) zero_pairs"
  shows "step_no_borrow a b \<and> (residues (fst (ladder_step u a b)), residues (snd (ladder_step u a b))) \<in> zero_pairs"
proof -
  let ?A = "fe_add (mp_x a) (mp_z a)" and ?B = "fe_sub (mp_x a) (mp_z a)" and ?C = "fe_add (mp_x b) (mp_z b)"
  have t: "tight (mp_x a)" "tight (mp_z a)" "tight (mp_x b)" "tight (mp_z b)"
    using assms(3,4) by (simp_all add: mp_tight_def)
  have r: "fev (mp_x a) \<in> {0, 1}" "fev (mp_z a) = 0" "fev (mp_z b) \<in> {0, 1}" "fev (mp_x b) + fev (mp_z b) \<in> {0, 1}"
    using assms(5) by (auto simp: residues_def)
  have nb: "no_borrow (mp_x a) (mp_z a)" "no_borrow (mp_x b) (mp_z b)"
    using bit_no_borrow t r by simp_all
  have m: "x mod int p25519 = x" if "x \<in> {0, 1}" for x using that by (auto simp: p25519_def)
  have d: "x * y \<in> {0, 1}" if "x \<in> {0, 1}" "y \<in> {0, 1}" for x y :: int using that by auto
  have B: "fev ?B \<in> {0, 1}" "loose ?B"
    using fe_sub_tight_val [OF t(1,2) nb(1)] m [OF r(1)] r(1) by (simp_all only: r(2) diff_zero)
  have C: "fev ?C \<in> {0, 1}" "loose ?C"
    using fev_add [OF t(3,4)] fe_add_tight_val [OF t(3,4)] m [OF r(4)] r(4) by simp_all
  have "fev (fe_square ?B) \<in> {0, 1}" "fev (fe_mul ?C ?B) \<in> {0, 1}"
    unfolding fev_square [OF B(2)] fev_mul [OF C(2) B(2)] m [OF d [OF B(1) B(1)]] m [OF d [OF C(1) B(1)]]
    by (rule d [OF B(1) B(1)] d [OF C(1) B(1)])+
  then have "no_borrow x (fe_square ?B)" "no_borrow x (fe_mul ?C ?B)" for x
    using B(2) C(2) by (simp_all add: bit_no_borrow fe_square_tight loose_def [of ?B])
  then have s: "step_no_borrow a b" using nb by (simp add: step_no_borrow_def Let_def)
  have "(residues (fst (ladder_step u a b)), residues (snd (ladder_step u a b))) =
      rfc7748_step 0 (residues a) (residues b)"
    using ladder_step_residues [OF assms(1,3,4) s] assms(2) by simp
  moreover have "rfc7748_step 0 (residues a) (residues b) \<in> zero_pairs"
    using zero_pairs_step assms(5) by blast
  ultimately show ?thesis using s by simp
qed

lemma zero_clean:
  assumes "tight u" and "fev u = 0" and "map unat s = digs 52 4 v" and "n \<le> 256" and "mp_tight x0" and "mp_tight x1"
    and "(residues x0, residues x1) \<in> zero_pairs"
  shows "ladder_clean u s n (x0, x1, choice_of t)"
  using assms(4-7)
proof (induction n arbitrary: x0 x1 t)
  case (Suc n)
  let ?k = "odd (v div 2 ^ n)"
  have n: "n < 256" using Suc.prems(1) by simp
  obtain a b where ab: "(if ?k \<noteq> t then (x1, x0) else (x0, x1)) = (a, b)" by (meson surj_pair)
  have tab: "mp_tight a" "mp_tight b" using ab Suc.prems(2,3) by (auto split: if_splits)
  have zab: "(residues a, residues b) \<in> insert ((1, 0), (0, 1)) zero_pairs"
    using ab zero_pairs_swap [OF Suc.prems(4)] Suc.prems(4) by (cases "?k \<noteq> t") (metis insertI2 prod.inject)+
  have it: "ladder_iteration u s n (x0, x1, choice_of t) =
      (fst (ladder_step u a b), snd (ladder_step u a b), choice_of ?k)"
    unfolding ladder_iteration_eq [OF Suc.prems(2,3) assms(3) n] ab by (simp add: split_beta)
  have sw: "mp_swap x0 x1 (choice_xor (fq_get_bit s n) (choice_of t)) = (a, b)"
    using ab by (simp add: fq_get_bit_eq [OF assms(3) n] mp_swap_if [OF Suc.prems(2,3)])
  note z = zero_step [OF assms(1,2) tab zab]
  have "ladder_clean u s n (fst (ladder_step u a b), snd (ladder_step u a b), choice_of ?k)"
    using Suc.IH Suc.prems(1) z ladder_step_tight [OF tight_length [OF assms(1)] tab] by simp
  then show ?case using it sw z by simp
qed simp

lemma zero_ladder_clean:
  assumes "tight u" and "fev u = 0" and "map unat s = digs 52 4 v" and "v < 2 ^ 255"
  shows "ladder_clean u s 256 (\<lparr>mp_x = fe_one, mp_z = fe_zero\<rparr>, mp_from_affine u, false_choice)"
proof -
  let ?x0 = "\<lparr>mp_x = fe_one, mp_z = fe_zero\<rparr>" and ?x1 = "mp_from_affine u"
  have t: "mp_tight ?x0" "mp_tight ?x1" using from_affine_tight [OF assms(1)] by (simp_all add: mp_tight_def tight_consts)
  have r: "residues ?x0 = (1, 0)" "residues ?x1 = (0, 1)"
    using assms(2) by (simp_all add: residues_def mp_from_affine_def fev_def fe_one_def fe_zero_def p25519_def)
  have z: "step_no_borrow ?x0 ?x1"
    "(residues (fst (ladder_step u ?x0 ?x1)), residues (snd (ladder_step u ?x0 ?x1))) \<in> zero_pairs"
    using zero_step [OF assms(1,2) t] r by (simp_all only: insertI1 simp_thms)
  have b: "\<not> odd (v div 2 ^ 255)" using assms(4) by simp
  have it: "ladder_iteration u s 255 (?x0, ?x1, choice_of False) =
      (fst (ladder_step u ?x0 ?x1), snd (ladder_step u ?x0 ?x1), choice_of False)"
    using ladder_iteration_eq [OF t assms(3), of 255 u False] b by (simp add: split_beta)
  have sw: "mp_swap ?x0 ?x1 (choice_xor (fq_get_bit s 255) (choice_of False)) = (?x0, ?x1)"
    using b by (simp add: fq_get_bit_eq [OF assms(3)] mp_swap_if [OF t])
  have "ladder_clean u s 255 (fst (ladder_step u ?x0 ?x1), snd (ladder_step u ?x0 ?x1), choice_of False)"
    by (rule zero_clean [OF assms(1-3)]) (use z ladder_step_tight [OF tight_length [OF assms(1)] t] in simp_all)
  then have "ladder_clean u s (Suc 255) (?x0, ?x1, choice_of False)"
    by (simp only: ladder_clean.simps sw it z(1) prod.case simp_thms)
  moreover have "Suc 255 = 256" by simp
  ultimately show ?thesis unfolding choice_consts by metis
qed

lemma zero_rounds:
  assumes "(p_2, p_3) \<in> zero_pairs"
  shows "\<exists>q_2 q_3 t'. fold (rfc7748_round 0 k) (rev [0..<n]) (p_2, p_3, t) = (q_2, q_3, t') \<and> (q_2, q_3) \<in> zero_pairs"
  using assms
proof (induction n arbitrary: p_2 p_3 t)
  case (Suc n)
  let ?k = "odd (k div 2 ^ n)"
  obtain q_2 q_3 where q: "rfc7748_round 0 k n (p_2, p_3, t) = (q_2, q_3, ?k)" "(q_2, q_3) \<in> zero_pairs"
    using zero_pairs_step [of p_2 p_3] zero_pairs_step [of p_3 p_2] zero_pairs_swap [OF Suc.prems] Suc.prems
    by (cases "t \<noteq> ?k") (auto simp: rfc7748_round_def split_beta simp del: insert_iff)
  show ?case using Suc.IH [OF q(2), of ?k] q(1) by simp
qed auto

lemma rfc7748_ladder_zero: "k < 2 ^ 255 \<Longrightarrow> rfc7748_ladder 256 k 0 = 0"
proof -
  assume k: "k < 2 ^ 255"
  have u: "rev [0..<256] = 255 # rev [0..<255 :: nat]" by (subst upt_Suc_append [of 0 255, simplified]) simp_all
  have "rfc7748_round 0 k 255 ((1, 0), (0, 1), False) = ((1, 0), (0, 0), False)"
    using k by (simp add: rfc7748_round_def rfc7748_step_def p25519_def)
  moreover obtain q_2 q_3 t' where "fold (rfc7748_round 0 k) (rev [0..<255]) ((1, 0), (0, 0), False) = (q_2, q_3, t')"
    "(q_2, q_3) \<in> zero_pairs"
    using zero_rounds [of "(1, 0)" "(0, 0)" k 255 False] by auto
  moreover from this have "snd q_2 = 0" "snd q_3 = 0" by auto
  moreover have "0 < p25519 - 2" by (simp add: p25519_def)
  ultimately show ?thesis by (simp add: rfc7748_ladder_def u split_beta zero_power)
qed

section \<open>Properties\<close>



end
