(* ===== verification/Ed25519.thy ===== *)
theory Ed25519
  imports Field_25519 Field_Q Sha_512
begin

text \<open>
  The signatures of \<open>src/impl/crypto/signing/eddsa.cpp\<close> over the curve arithmetic of
  \<open>src/impl/crypto/util/math/group/edwards_point.hpp\<close> and \<open>edwards_point.cpp\<close>, for the one hash
  they are instantiated with, \<open>eddsa<sha_512>\<close>. The function-local statics (\<open>d\<close>, \<open>2d\<close>, the base
  point) are computed once and are constants here; \<open>junk\<close> is the uninitialised buffer of the hash
  objects on the stack. The lemmas give the scalar half of a signature as RFC 8032 defines it,
  and what \<open>verify\<close> rejects before it looks at the curve.
\<close>

section \<open>Points\<close>

record edwards_point =
  ep_x :: fe
  ep_y :: fe
  ep_z :: fe
  ep_t :: fe

definition ep_identity :: edwards_point where
  "ep_identity = \<lparr>ep_x = fe_zero, ep_y = fe_one, ep_z = fe_one, ep_t = fe_zero\<rparr>"

definition get_d :: fe where
  "get_d = fe_mul (fe_sub fe_zero (fe_add_u64 fe_zero 121665)) (fe_invert (fe_add_u64 fe_zero 121666))"

definition get_2d :: fe where
  "get_2d = fe_add get_d get_d"

definition ep_base_point :: edwards_point where
  "ep_base_point =
     (let y = fe_mul (fe_add_u64 fe_zero 4) (fe_invert (fe_add_u64 fe_zero 5));
          u = fe_sub (fe_square y) fe_one;
          v = fe_add (fe_mul get_d (fe_square y)) fe_one;
          x2 = fe_mul u (fe_invert v);
          x = value_or fe_select (fe_sqrt x2) fe_zero;
          x = (if fe_to_bytes x ! 0 AND 1 = 1 then fe_neg x else x)
      in \<lparr>ep_x = x, ep_y = y, ep_z = fe_one, ep_t = fe_mul x y\<rparr>)"

definition ep_from_bytes :: "bytes \<Rightarrow> edwards_point ct_optional" where
  "ep_from_bytes b =
     (let sign_bit = drop_bit 7 (b ! 31) AND 1;
          y_bytes = b[31 := b ! 31 AND 0x7F];
          y = fe_from_bytes y_bytes;
          y_canonical = fe_to_bytes y
      in if \<not> list_all (\<lambda>i. y_canonical ! i = y_bytes ! i) [0..<32] then ct_none ep_identity
         else let u = fe_sub (fe_square y) fe_one;
                  v = fe_add (fe_mul get_d (fe_square y)) fe_one;
                  x2 = fe_mul u (fe_invert v);
                  x_opt = fe_sqrt x2
              in if \<not> is_some_public x_opt then ct_none ep_identity
                 else let x = value_or fe_select x_opt fe_zero
                      in if unwrap_public (fe_is_zero x) \<and> sign_bit = 1 then ct_none ep_identity
                         else let is_correct_sign = from_equal (ucast (fe_to_bytes x ! 0 AND 1)) (ucast sign_bit);
                                  x = fe_select x (fe_neg x) is_correct_sign
                              in ct_some \<lparr>ep_x = x, ep_y = y, ep_z = fe_one, ep_t = fe_mul x y\<rparr>)"

definition ep_to_bytes :: "edwards_point \<Rightarrow> bytes" where
  "ep_to_bytes p =
     (let z_inv = fe_invert (ep_z p);
          affine_x = fe_mul (ep_x p) z_inv;
          affine_y = fe_mul (ep_y p) z_inv;
          res = fe_to_bytes affine_y;
          sign_bit = fe_to_bytes affine_x ! 0 AND 1
      in res[31 := res ! 31 OR push_bit 7 sign_bit])"

definition ep_add :: "edwards_point \<Rightarrow> edwards_point \<Rightarrow> edwards_point" where
  "ep_add p other =
     (let A = fe_mul (fe_sub (ep_y p) (ep_x p)) (fe_sub (ep_y other) (ep_x other));
          B = fe_mul (fe_add (ep_y p) (ep_x p)) (fe_add (ep_y other) (ep_x other));
          C = fe_mul (fe_mul (ep_t p) get_2d) (ep_t other);
          D = fe_mul (ep_z p) (fe_add (ep_z other) (ep_z other));
          E = fe_sub B A;
          F = fe_sub D C;
          G = fe_add D C;
          H = fe_add B A
      in \<lparr>ep_x = fe_mul E F, ep_y = fe_mul G H, ep_z = fe_mul F G, ep_t = fe_mul E H\<rparr>)"

definition ep_dbl :: "edwards_point \<Rightarrow> edwards_point" where
  "ep_dbl p =
     (let A = fe_square (ep_x p);
          B = fe_square (ep_y p);
          C = fe_add (fe_square (ep_z p)) (fe_square (ep_z p));
          H = fe_add A B;
          E = fe_sub H (fe_square (fe_add (ep_x p) (ep_y p)));
          G = fe_sub A B;
          F = fe_add C G
      in \<lparr>ep_x = fe_mul E F, ep_y = fe_mul G H, ep_z = fe_mul F G, ep_t = fe_mul E H\<rparr>)"

definition ep_select :: "edwards_point \<Rightarrow> edwards_point \<Rightarrow> choice \<Rightarrow> edwards_point" where
  "ep_select a b c =
     \<lparr>ep_x = fe_select (ep_x a) (ep_x b) c, ep_y = fe_select (ep_y a) (ep_y b) c,
      ep_z = fe_select (ep_z a) (ep_z b) c, ep_t = fe_select (ep_t a) (ep_t b) c\<rparr>"

definition ep_mul_step :: "edwards_point \<Rightarrow> fq \<Rightarrow> nat \<Rightarrow> edwards_point \<Rightarrow> edwards_point" where
  "ep_mul_step this s i res =
     (let res = ep_dbl res;
          c = fq_get_bit s i;
          sum = ep_add res this
      in ep_select sum res c)"

definition ep_mul :: "edwards_point \<Rightarrow> fq \<Rightarrow> edwards_point" where
  "ep_mul this s = fold (ep_mul_step this s) (rev [0..<256]) ep_identity"

definition ep_eq :: "edwards_point \<Rightarrow> edwards_point \<Rightarrow> choice" where
  "ep_eq p other =
     (let X1Z2 = fe_mul (ep_x p) (ep_z other);
          X2Z1 = fe_mul (ep_x other) (ep_z p);
          Y1Z2 = fe_mul (ep_y p) (ep_z other);
          Y2Z1 = fe_mul (ep_y other) (ep_z p)
      in choice_and (fe_eq X1Z2 X2Z1) (fe_eq Y1Z2 Y2Z1))"

section \<open>Keys and signatures\<close>

definition eddsa_derive_public :: "bytes \<Rightarrow> bytes \<Rightarrow> bytes" where
  "eddsa_derive_public junk priv =
     (let h = sha_512_hash junk priv;
          h_a = take 32 h;
          a = fq_clamp (fq_from_bytes h_a)
      in ep_to_bytes (ep_mul ep_base_point a))"

definition eddsa_sign :: "bytes \<Rightarrow> bytes \<Rightarrow> bytes \<Rightarrow> bytes" where
  "eddsa_sign junk priv msg =
     (let h = sha_512_hash junk priv;
          h_a = take 32 h;
          a = fq_clamp (fq_from_bytes h_a);
          A = ep_to_bytes (ep_mul ep_base_point a);
          r_hash = fst (finalize512 junk (update512 msg (update512 (span_at 32 32 h) (new_sha_512 junk))));
          r = fq_reduce_512 r_hash;
          R = ep_to_bytes (ep_mul ep_base_point r);
          S_hash = fst (finalize512 junk (update512 msg (update512 A (update512 R (new_sha_512 junk)))));
          S = fq_reduce_512 S_hash;
          a_mod_l = fq_from_bytes_mod_l (fq_to_bytes a);
          S_sig = fq_add r (fq_mul S a_mod_l)
      in R @ fq_to_bytes S_sig)"

definition eddsa_verify :: "bytes \<Rightarrow> bytes \<Rightarrow> bytes \<Rightarrow> bytes \<Rightarrow> choice" where
  "eddsa_verify junk pub msg sig =
     (let A_opt = ep_from_bytes pub
      in if \<not> is_some_public A_opt then false_choice
         else let A = value_or ep_select A_opt ep_base_point;
                  R_bytes = take 32 sig;
                  S_sig_bytes = span_at 32 32 sig;
                  R_opt = ep_from_bytes R_bytes
              in if \<not> is_some_public R_opt then false_choice
                 else let R = value_or ep_select R_opt ep_base_point;
                          S_sig = fq_from_bytes_mod_l S_sig_bytes;
                          S_sig_check = fq_to_bytes S_sig
                      in if \<not> list_all (\<lambda>i. S_sig_check ! i = S_sig_bytes ! i) [0..<32] then false_choice
                         else let S_hash = fst (finalize512 junk (update512 msg (update512 pub (update512 R_bytes
                                    (new_sha_512 junk)))));
                                  S = fq_reduce_512 S_hash;
                                  SB = ep_mul ep_base_point S_sig;
                                  SA = ep_mul A S;
                                  R_SA = ep_add R SA;
                                  SB8 = ep_dbl (ep_dbl (ep_dbl SB));
                                  R_SA8 = ep_dbl (ep_dbl (ep_dbl R_SA))
                              in ep_eq SB8 R_SA8)"

section \<open>Hashing in several updates\<close>

lemma update512_append: "update512 b (update512 a hs) = update512 (a @ b) hs"
  by (simp add: update512_def)

lemma finalize_updates:
  "length junk = 128 \<Longrightarrow> fst (finalize512 junk (update512 d (new_sha_512 junk))) = fips_sha512 d"
  using sha_512_hash_fips [of junk d] by (simp add: sha_512_hash_def)

lemma length_fips_sha512 [simp]: "length (fips_sha512 d) = 64"
  by (simp add: fips_sha512_def digest512_def length_concat comp_def sum_list_triv)

section \<open>Encodings\<close>

lemma length_fe_to_bytes [simp]: "length (fe_to_bytes f) = 32"
  by (simp add: fe_to_bytes_def fe_store_def)

lemma length_ep_to_bytes [simp]: "length (ep_to_bytes p) = 32"
  by (simp add: ep_to_bytes_def Let_def)

lemma list_all_nth_eq:
  assumes "length xs = n" and "length ys = n"
  shows "list_all (\<lambda>i. xs ! i = ys ! i) [0..<n] \<longleftrightarrow> xs = ys"
  using assms by (auto simp: list_all_iff intro: nth_equalityI)

text \<open>A point whose y coordinate is not reduced is refused.\<close>

lemma ep_from_bytes_canonical:
  assumes "length b = 32" and "p25519 \<le> lval 8 b mod 2 ^ 255"
  shows "ep_from_bytes b = ct_none ep_identity"
proof -
  let ?y = "b[31 := b ! 31 AND 0x7F]"
  have v: "lval 8 ?y = lval 8 b mod 2 ^ 255" using assms(1) by (rule lval_mask_31)
  have "foldable (fe_from_bytes ?y)" using assms(1) by (intro tight_foldable fe_from_bytes_tight) simp
  then have "fe_to_bytes (fe_from_bytes ?y) = le_bytes 32 (lval 8 ?y mod 2 ^ 255 mod p25519 mod p25519)"
    using digs_eq_lval [OF fe_from_bytes_digs [of ?y]] assms(1) by (simp add: fe_to_bytes_eq)
  moreover have lt: "x mod p25519 < p25519" for x by (simp add: p25519_def)
  then have "x mod p25519 mod 2 ^ 256 = x mod p25519" for x
    using less_trans [OF lt] by (intro mod_less) (simp add: p25519_def)
  ultimately have e: "lval 8 (fe_to_bytes (fe_from_bytes ?y)) = lval 8 ?y mod 2 ^ 255 mod p25519" by simp
  have "fe_to_bytes (fe_from_bytes ?y) \<noteq> ?y"
  proof
    assume "fe_to_bytes (fe_from_bytes ?y) = ?y"
    then have "lval 8 ?y = lval 8 ?y mod 2 ^ 255 mod p25519" using e by simp
    then have "lval 8 ?y < p25519" using lt by metis
    then show False using assms(2) v by simp
  qed
  then show ?thesis
    using list_all_nth_eq [of "fe_to_bytes (fe_from_bytes ?y)" 32 ?y] assms(1)
    by (simp add: ep_from_bytes_def Let_def)
qed

lemma is_some_none [simp]: "\<not> is_some_public (ct_none d)"
  by (simp add: is_some_public_def ct_none_def choice_consts)

lemma scalar_check:
  assumes "length b = 32"
  shows "list_all (\<lambda>i. fq_to_bytes (fq_from_bytes_mod_l b) ! i = b ! i) [0..<32] \<longleftrightarrow> lval 8 b < order_L"
proof -
  let ?s = "fq_from_bytes_mod_l b"
  note s = fq_from_bytes_mod_l_val [OF assms]
  have lt: "lval 8 b mod order_L < order_L" by (simp add: order_pos)
  have t: "fq_to_bytes ?s = le_bytes 32 (lval 8 b mod order_L)"
    using fq_to_bytes_eq [of ?s] canonq_bounds [of ?s] s lt by simp
  have "lval 8 b mod order_L < 2 ^ 256" using lt by (rule less_trans) (simp add: order_L_def)
  then have "fq_to_bytes ?s = b \<longleftrightarrow> lval 8 b mod order_L = lval 8 b"
    using lval_inj [of "fq_to_bytes ?s" b] assms by (simp add: t)
  also have "\<dots> \<longleftrightarrow> lval 8 b < order_L" using lt by (metis mod_less)
  finally show ?thesis using list_all_nth_eq [of "fq_to_bytes ?s" 32 b] assms t by simp
qed

section \<open>Clamped scalars modulo L\<close>

lemma clamped_mod_L:
  assumes "length h = 32"
  shows "canonq (fq_from_bytes_mod_l (fq_to_bytes (fq_clamp (fq_from_bytes h)))) \<and>
    qval (fq_from_bytes_mod_l (fq_to_bytes (fq_clamp (fq_from_bytes h)))) =
      (2 ^ 254 + 8 * (lval 8 h mod 2 ^ 254 div 8)) mod order_L"
proof -
  let ?a = "fq_clamp (fq_from_bytes h)" and ?v = "2 ^ 254 + 8 * (lval 8 h mod 2 ^ 254 div 8)"
  have a: "qval ?a = ?v" "map unat ?a = digs 52 4 ?v" using fq_clamp_val [OF assms] by auto
  have "8 * (lval 8 h mod 2 ^ 254 div 8) \<le> lval 8 h mod 2 ^ 254" by (rule times_div_less_eq_dividend)
  also have "\<dots> < 2 ^ 254" by simp
  finally have v: "?v < 2 ^ 255" by simp
  then have "?v div 2 ^ (4 * 52) < 2 ^ 63" by (intro less_mult_imp_div_less) simp
  moreover have "x mod 2 ^ 52 < 2 ^ 63" for x :: nat by (rule less_trans [of _ "2 ^ 52"]) simp_all
  ultimately have "list_all (\<lambda>x. x < 2 ^ 63) (map unat ?a)" unfolding a(2) digs_4 by simp
  then have "list_all (\<lambda>x. unat x < 2 ^ 63) ?a" by (simp add: list_all_iff)
  moreover have "length ?a = 5" using length_of_digs [OF a(2)] by simp
  moreover have "?v < 17 * order_L" using v by (rule less_trans) (simp add: order_L_def)
  ultimately have t: "fq_to_bytes ?a = le_bytes 32 (?v mod order_L)" using fq_to_bytes_eq [of ?a] a(1) by simp
  have lt: "?v mod order_L < order_L" by (simp add: order_pos)
  then have "?v mod order_L < 2 ^ 256" by (rule less_trans) (simp add: order_L_def)
  then have "lval 8 (fq_to_bytes ?a) mod order_L = ?v mod order_L" by (simp add: t)
  then show ?thesis using fq_from_bytes_mod_l_val [of "fq_to_bytes ?a"] t by simp
qed

section \<open>Properties\<close>

text \<open>
  C10. A signature is RFC 8032's on the scalar side: it is 64 bytes; its second half is the little-endian
  encoding of \<open>(r + k * a) mod L\<close>, where \<open>r\<close> is the hash of the second half of the hashed secret and
  the message, \<open>k\<close> the hash of the first half of the signature, the public key and the message, and
  \<open>a\<close> the clamped secret scalar; in particular it is below \<open>L\<close>, as \<open>verify\<close> requires.
\<close>

theorem sign_is_rfc8032_scalar:
  assumes "length junk = 128"
    and "h = fips_sha512 priv" and "sig = eddsa_sign junk priv msg"
    and "a = 2 ^ 254 + 8 * (lval 8 (take 32 h) mod 2 ^ 254 div 8)"
    and "r = lval 8 (fips_sha512 (drop 32 h @ msg))"
    and "k = lval 8 (fips_sha512 (take 32 sig @ eddsa_derive_public junk priv @ msg))"
  shows "length sig = 64 \<and> lval 8 (drop 32 sig) = (r + k * a) mod order_L"
proof -
  have hh: "sha_512_hash junk priv = h" using assms(1,2) by (simp add: sha_512_hash_fips)
  have l: "length h = 64" "span_at 32 32 h = drop 32 h" using assms(2) by (simp_all add: span_at_def)
  define A where "A = eddsa_derive_public junk priv"
  define rs where "rs = fq_reduce_512 (fips_sha512 (drop 32 h @ msg))"
  define R where "R = ep_to_bytes (ep_mul ep_base_point rs)"
  define ks where "ks = fq_reduce_512 (fips_sha512 (R @ A @ msg))"
  define as where "as = fq_from_bytes_mod_l (fq_to_bytes (fq_clamp (fq_from_bytes (take 32 h))))"
  have A: "A = ep_to_bytes (ep_mul ep_base_point (fq_clamp (fq_from_bytes (take 32 h))))"
    by (simp add: A_def eddsa_derive_public_def hh)
  have sig: "sig = R @ fq_to_bytes (fq_add rs (fq_mul ks as))"
    by (simp only: assms(3) eddsa_sign_def Let_def hh l(2) update512_append finalize_updates [OF assms(1)]
        A [symmetric] rs_def [symmetric] R_def [symmetric] ks_def [symmetric] as_def [symmetric] append_assoc)
  have R: "length R = 32" by (simp add: R_def)
  have c: "canonq rs \<and> qval rs = r mod order_L" "canonq ks \<and> qval ks = k mod order_L" "canonq as \<and> qval as = a mod order_L"
    using fq_reduce_512_val [of "fips_sha512 (drop 32 h @ msg)"] fq_reduce_512_val [of "fips_sha512 (R @ A @ msg)"]
      clamped_mod_L [of "take 32 h"] l(1) assms(4-6) sig R
    by (simp_all add: rs_def ks_def as_def A_def)
  note m = fq_mul_val [of ks as] and s = fq_add_val [of rs "fq_mul ks as"]
  let ?S = "fq_add rs (fq_mul ks as)"
  have S: "canonq ?S" "qval ?S = (r + k * a) mod order_L"
    using m s c by (simp_all add: mod_simps)
  have "(r + k * a) mod order_L < order_L" by (simp add: order_pos)
  then have "(r + k * a) mod order_L < 2 ^ 256" by (rule less_trans) (simp add: order_L_def)
  moreover have "fq_to_bytes ?S = le_bytes 32 ((r + k * a) mod order_L)"
    using fq_to_bytes_eq [of ?S] canonq_bounds [OF S(1)] S(2) by simp
  ultimately show ?thesis using R by (simp add: sig)
qed

theorem sign_is_rfc8032_scalar_witness:
  "length (eddsa_sign (replicate 128 0) (replicate 32 1) [0x61]) = 64"
  using sign_is_rfc8032_scalar [of "replicate 128 0" _ "replicate 32 1" _ "[0x61]", OF _ refl refl refl refl refl] by simp


lemma lval_replicate_FF: "lval 8 (replicate n (0xFF :: byte)) + 1 = 2 ^ (8 * n)"
  by (induction n) (simp_all add: power_add)


end
