(* ===== verification/Edwards_Law.thy ===== *)
theory Edwards_Law
  imports Ed25519 X25519
begin

text \<open>
  The point formulas of \<open>src/impl/crypto/util/math/group/edwards_point.cpp\<close> against the addition law of
  the twisted Edwards curve \<open>-x\<^sup>2 + y\<^sup>2 = 1 + d x\<^sup>2 y\<^sup>2\<close> of RFC 8032. Points are in extended
  coordinates, \<open>x = X/Z\<close>, \<open>y = Y/Z\<close>, \<open>x y = T/Z\<close>, and every equation is one between residues
  with its denominators cleared. The lemmas hold wherever no subtraction of field elements borrows.
\<close>

section \<open>The curve and its addition law\<close>

definition ed_d :: int where
  "ed_d = - 121665 * 121666 ^ (p25519 - 2) mod int p25519"

definition ep_tight :: "edwards_point \<Rightarrow> bool" where
  "ep_tight p \<longleftrightarrow> tight (ep_x p) \<and> tight (ep_y p) \<and> tight (ep_z p) \<and> tight (ep_t p)"

definition on_curve :: "edwards_point \<Rightarrow> bool" where
  "on_curve p \<longleftrightarrow>
     fev (ep_x p) * fev (ep_y p) mod int p25519 = fev (ep_z p) * fev (ep_t p) mod int p25519 \<and>
     ((fev (ep_y p))\<^sup>2 - (fev (ep_x p))\<^sup>2) mod int p25519 =
       ((fev (ep_z p))\<^sup>2 + ed_d * (fev (ep_t p))\<^sup>2) mod int p25519"

text \<open>
  \<open>r\<close> is the sum of \<open>p\<close> and \<open>q\<close>: \<open>x\<^sub>3 = (x\<^sub>1 y\<^sub>2 + y\<^sub>1 x\<^sub>2) / (1 + d x\<^sub>1 x\<^sub>2 y\<^sub>1 y\<^sub>2) = e / g\<close> and
  \<open>y\<^sub>3 = (y\<^sub>1 y\<^sub>2 + x\<^sub>1 x\<^sub>2) / (1 - d x\<^sub>1 x\<^sub>2 y\<^sub>1 y\<^sub>2) = h / f\<close> over the denominator \<open>f g\<close>, all four
  coordinates scaled by \<open>c\<close>.
\<close>

definition edwards_sum :: "int \<Rightarrow> edwards_point \<Rightarrow> edwards_point \<Rightarrow> edwards_point \<Rightarrow> bool" where
  "edwards_sum c p q r \<longleftrightarrow>
     (let e = fev (ep_x p) * fev (ep_y q) + fev (ep_y p) * fev (ep_x q);
          h = fev (ep_y p) * fev (ep_y q) + fev (ep_x p) * fev (ep_x q);
          f = fev (ep_z p) * fev (ep_z q) - ed_d * fev (ep_t p) * fev (ep_t q);
          g = fev (ep_z p) * fev (ep_z q) + ed_d * fev (ep_t p) * fev (ep_t q)
      in fev (ep_x r) = c * (e * f) mod int p25519 \<and> fev (ep_y r) = c * (g * h) mod int p25519 \<and>
         fev (ep_z r) = c * (f * g) mod int p25519 \<and> fev (ep_t r) = c * (e * h) mod int p25519)"

text \<open>No subtraction of an addition, or of a doubling, borrows.\<close>

definition add_no_borrow :: "edwards_point \<Rightarrow> edwards_point \<Rightarrow> bool" where
  "add_no_borrow p q \<longleftrightarrow>
     (let A = fe_mul (fe_sub (ep_y p) (ep_x p)) (fe_sub (ep_y q) (ep_x q));
          B = fe_mul (fe_add (ep_y p) (ep_x p)) (fe_add (ep_y q) (ep_x q));
          C = fe_mul (fe_mul (ep_t p) get_2d) (ep_t q);
          D = fe_mul (ep_z p) (fe_add (ep_z q) (ep_z q))
      in no_borrow (ep_y p) (ep_x p) \<and> no_borrow (ep_y q) (ep_x q) \<and> no_borrow B A \<and> no_borrow D C)"

definition dbl_no_borrow :: "edwards_point \<Rightarrow> bool" where
  "dbl_no_borrow p \<longleftrightarrow>
     (let A = fe_square (ep_x p); B = fe_square (ep_y p)
      in no_borrow (fe_add A B) (fe_square (fe_add (ep_x p) (ep_y p))) \<and> no_borrow A B)"

section \<open>The algebra\<close>

text \<open>An addition of points on the curve, in numbers: the sum of squares as a polynomial in the two curve equations.\<close>

lemma sum_polynomial:
  fixes e h f g z w d p1 D1 q1 p2 D2 q2 :: int
  assumes "h\<^sup>2 - e\<^sup>2 = D1 * D2" and "h\<^sup>2 + e\<^sup>2 = q1 * q2 + 4 * (p1 * p2)" and "e * h = p1 * q2 + p2 * q1"
    and "q1\<^sup>2 = D1\<^sup>2 + 4 * p1\<^sup>2" and "q2\<^sup>2 = D2\<^sup>2 + 4 * p2\<^sup>2" and "f = z - w" and "g = z + w"
  shows "(g * h)\<^sup>2 - (e * f)\<^sup>2 - ((f * g)\<^sup>2 + d * (e * h)\<^sup>2) =
    (z * z + w * w) * (D1 * D2) + 2 * z * w * (q1 * q2 + 4 * (p1 * p2)) - f * f * (g * g) -
      d * (p1 * p1 * (D2 * D2) + p2 * p2 * (D1 * D1) + 8 * (p1 * p1 * (p2 * p2)) + 2 * (p1 * p2 * (q1 * q2)))"
proof -
  have "(g * h)\<^sup>2 - (e * f)\<^sup>2 = (z * z + w * w) * (h\<^sup>2 - e\<^sup>2) + 2 * z * w * (h\<^sup>2 + e\<^sup>2)"
    unfolding assms(6,7) by algebra
  moreover have "(e * h)\<^sup>2 = p1\<^sup>2 * q2\<^sup>2 + p2\<^sup>2 * q1\<^sup>2 + 2 * (p1 * p2 * (q1 * q2))"
    unfolding assms(3) by algebra
  ultimately show ?thesis
    unfolding assms(1,2,4,5) by (simp add: power2_eq_square algebra_simps)
qed

lemma sum_polynomial_zero:
  fixes z1 t1 z2 t2 d z w f g q :: int
  assumes "z = z1 * z2" and "w = d * t1 * t2" and "f = z - w" and "g = z + w"
  shows "(z * z + w * w) * ((z1\<^sup>2 + d * t1\<^sup>2) * (z2\<^sup>2 + d * t2\<^sup>2)) +
      2 * z * w * (q + 4 * (z1 * t1 * (z2 * t2))) - f * f * (g * g) -
      d * (z1 * t1 * (z1 * t1) * ((z2\<^sup>2 + d * t2\<^sup>2) * (z2\<^sup>2 + d * t2\<^sup>2)) +
        z2 * t2 * (z2 * t2) * ((z1\<^sup>2 + d * t1\<^sup>2) * (z1\<^sup>2 + d * t1\<^sup>2)) +
        8 * (z1 * t1 * (z1 * t1) * (z2 * t2 * (z2 * t2))) + 2 * (z1 * t1 * (z2 * t2) * q)) = 0"
  unfolding assms(3,4) unfolding assms(1,2) by (simp add: power2_eq_square algebra_simps)

lemma add_on_curve:
  fixes P d x1 y1 z1 t1 x2 y2 z2 t2 :: int
  assumes "x1 * y1 mod P = z1 * t1 mod P" and "(y1\<^sup>2 - x1\<^sup>2) mod P = (z1\<^sup>2 + d * t1\<^sup>2) mod P"
    and "x2 * y2 mod P = z2 * t2 mod P" and "(y2\<^sup>2 - x2\<^sup>2) mod P = (z2\<^sup>2 + d * t2\<^sup>2) mod P"
    and "e = x1 * y2 + y1 * x2" and "h = y1 * y2 + x1 * x2"
    and "f = z1 * z2 - d * t1 * t2" and "g = z1 * z2 + d * t1 * t2"
  shows "((g * h)\<^sup>2 - (e * f)\<^sup>2) mod P = ((f * g)\<^sup>2 + d * (e * h)\<^sup>2) mod P"
proof -
  define K where "K p1 D1 p2 D2 =
      ((z1 * z2) * (z1 * z2) + (d * t1 * t2) * (d * t1 * t2)) * (D1 * D2) +
      2 * (z1 * z2) * (d * t1 * t2) * ((x1\<^sup>2 + y1\<^sup>2) * (x2\<^sup>2 + y2\<^sup>2) + 4 * (p1 * p2)) - f * f * (g * g) -
      d * (p1 * p1 * (D2 * D2) + p2 * p2 * (D1 * D1) + 8 * (p1 * p1 * (p2 * p2)) +
        2 * (p1 * p2 * ((x1\<^sup>2 + y1\<^sup>2) * (x2\<^sup>2 + y2\<^sup>2))))" for p1 D1 p2 D2
  have eh: "h\<^sup>2 - e\<^sup>2 = (y1\<^sup>2 - x1\<^sup>2) * (y2\<^sup>2 - x2\<^sup>2)"
    "h\<^sup>2 + e\<^sup>2 = (x1\<^sup>2 + y1\<^sup>2) * (x2\<^sup>2 + y2\<^sup>2) + 4 * ((x1 * y1) * (x2 * y2))"
    "e * h = (x1 * y1) * (x2\<^sup>2 + y2\<^sup>2) + (x2 * y2) * (x1\<^sup>2 + y1\<^sup>2)"
    unfolding assms(5,6) by algebra+
  have q: "(x1\<^sup>2 + y1\<^sup>2)\<^sup>2 = (y1\<^sup>2 - x1\<^sup>2)\<^sup>2 + 4 * (x1 * y1)\<^sup>2" "(x2\<^sup>2 + y2\<^sup>2)\<^sup>2 = (y2\<^sup>2 - x2\<^sup>2)\<^sup>2 + 4 * (x2 * y2)\<^sup>2"
    by algebra+
  have eq: "(g * h)\<^sup>2 - (e * f)\<^sup>2 - ((f * g)\<^sup>2 + d * (e * h)\<^sup>2) = K (x1 * y1) (y1\<^sup>2 - x1\<^sup>2) (x2 * y2) (y2\<^sup>2 - x2\<^sup>2)"
    unfolding K_def by (rule sum_polynomial [OF eh q]) (simp_all add: assms(7,8) ac_simps)
  have cong: "K p1 D1 p2 D2 mod P = K p1' D1' p2' D2' mod P"
    if "p1 mod P = p1' mod P" "D1 mod P = D1' mod P" "p2 mod P = p2' mod P" "D2 mod P = D2' mod P" for p1 p1' D1 D1' p2 p2' D2 D2'
    unfolding K_def by (intro mod_add_cong mod_diff_cong mod_mult_cong that refl)
  have "K (x1 * y1) (y1\<^sup>2 - x1\<^sup>2) (x2 * y2) (y2\<^sup>2 - x2\<^sup>2) mod P =
      K (z1 * t1) (z1\<^sup>2 + d * t1\<^sup>2) (z2 * t2) (z2\<^sup>2 + d * t2\<^sup>2) mod P"
    by (rule cong) (rule assms)+
  moreover have "K (z1 * t1) (z1\<^sup>2 + d * t1\<^sup>2) (z2 * t2) (z2\<^sup>2 + d * t2\<^sup>2) = 0"
    unfolding K_def by (rule sum_polynomial_zero [where w = "d * t1 * t2"]) (simp_all add: assms(7,8) ac_simps power2_eq_square)
  ultimately show ?thesis using eq by (simp add: mod_eq_dvd_iff dvd_eq_mod_eq_0)
qed

text \<open>A doubling.\<close>

lemma dbl_on_curve:
  fixes P d x y z t :: int
  assumes "x * y mod P = z * t mod P" and "(y\<^sup>2 - x\<^sup>2) mod P = (z\<^sup>2 + d * t\<^sup>2) mod P"
    and "e = - 2 * (x * y)" and "h = x\<^sup>2 + y\<^sup>2" and "g = x\<^sup>2 - y\<^sup>2" and "f = 2 * z\<^sup>2 + g"
  shows "((g * h)\<^sup>2 - (e * f)\<^sup>2) mod P = ((f * g)\<^sup>2 + d * (e * h)\<^sup>2) mod P"
    and "g mod P = - (z * z + d * t * t) mod P"
    and "f mod P = (z * z - d * t * t) mod P"
proof -
  define K where "K p D = (D * D - (2 * z\<^sup>2 - D) * (2 * z\<^sup>2 - D)) * (D * D + 4 * (p * p)) -
    4 * (d * (p * p)) * (D * D + 4 * (p * p))" for p D
  have eq: "(g * h)\<^sup>2 - (e * f)\<^sup>2 - ((f * g)\<^sup>2 + d * (e * h)\<^sup>2) = K (x * y) (y\<^sup>2 - x\<^sup>2)"
    unfolding K_def assms(3-6) by algebra
  have cong: "K p D mod P = K p' D' mod P" if "p mod P = p' mod P" "D mod P = D' mod P" for p p' D D'
    unfolding K_def by (intro mod_add_cong mod_diff_cong mod_mult_cong that refl)
  have "K (x * y) (y\<^sup>2 - x\<^sup>2) mod P = K (z * t) (z\<^sup>2 + d * t\<^sup>2) mod P"
    by (rule cong) (rule assms)+
  moreover have "K (z * t) (z\<^sup>2 + d * t\<^sup>2) = 0" unfolding K_def by algebra
  ultimately show "((g * h)\<^sup>2 - (e * f)\<^sup>2) mod P = ((f * g)\<^sup>2 + d * (e * h)\<^sup>2) mod P"
    using eq by (simp add: mod_eq_dvd_iff dvd_eq_mod_eq_0)
  have "(0 - (y\<^sup>2 - x\<^sup>2)) mod P = (0 - (z\<^sup>2 + d * t\<^sup>2)) mod P" by (intro mod_diff_cong assms(2) refl)
  then show "g mod P = - (z * z + d * t * t) mod P" by (simp add: assms(5) power2_eq_square mult.assoc)
  have "(2 * z\<^sup>2 - (y\<^sup>2 - x\<^sup>2)) mod P = (2 * z\<^sup>2 - (z\<^sup>2 + d * t\<^sup>2)) mod P"
    by (intro mod_diff_cong assms(2) refl)
  moreover have "2 * z\<^sup>2 - (y\<^sup>2 - x\<^sup>2) = f" "2 * z\<^sup>2 - (z\<^sup>2 + d * t\<^sup>2) = z * z - d * t * t"
    by (simp_all add: assms(5,6) power2_eq_square)
  ultimately show "f mod P = (z * z - d * t * t) mod P" by (simp only:)
qed

section \<open>The formulas of the code\<close>

text \<open>Sums and differences of loose elements that stay loose.\<close>

definition limbs_le :: "nat \<Rightarrow> fe \<Rightarrow> bool" where
  "limbs_le k l \<longleftrightarrow> length l = 5 \<and> list_all (\<lambda>x. unat x \<le> 2 ^ k) l"

lemma limbs_le_facts:
  "limbs_le k l \<Longrightarrow> length l = 5" "tight l \<Longrightarrow> limbs_le 51 l" "limbs_le 54 l \<longleftrightarrow> loose l"
  "limbs_le k l \<Longrightarrow> k \<le> m \<Longrightarrow> limbs_le m l"
proof -
  show "limbs_le k l \<Longrightarrow> k \<le> m \<Longrightarrow> limbs_le m l"
    unfolding limbs_le_def list_all_iff by (meson le_trans one_le_numeral power_increasing)
qed (simp_all add: limbs_le_def tight_def loose_def)

lemma fe_sub_tight_limbs:
  assumes "tight a" and "tight b" and "no_borrow a b"
  shows "limbs_le 52 (fe_sub a b)"
proof -
  have a: "length a = 5" "list_all (\<lambda>x. unat x \<le> 2 ^ 51) a" using assms(1) by (simp_all add: tight_def)
  have a53: "list_all (\<lambda>x. unat x \<le> 2 ^ 53) a"
    using limbs_le_facts(4) [OF limbs_le_facts(2) [OF assms(1)], of 53] by (simp add: limbs_le_def)
  have "unat (fe_sub a b ! i) \<le> 2 ^ 52" if "i < 5" for i
  proof -
    have "unat (a ! i) \<le> 2 ^ 51" using a that by (simp add: list_all_length)
    moreover have "unat (fe_p ! i) \<le> 2 ^ 51" using fe_p_limbs [OF that] by simp
    ultimately show ?thesis
      using fe_sub_limb [OF a(1) a53 tight_foldable [OF assms(2)] assms(3) that] by simp
  qed
  then show ?thesis using length_fe_sub [OF a(1) assms(2)] by (simp add: limbs_le_def list_all_length)
qed

lemma fe_add_limbs:
  assumes "limbs_le k a" and "limbs_le k b" and "k < 63"
  shows "limbs_le (Suc k) (fe_add a b) \<and> fev (fe_add a b) = (fev a + fev b) mod int p25519"
proof -
  have len: "length a = 5" "length b = 5" using assms by (simp_all add: limbs_le_def)
  have "(2 :: nat) ^ Suc k < 2 ^ 64" using assms(3) by (intro power_strict_increasing) simp_all
  moreover have "unat (a ! i) \<le> 2 ^ k" "unat (b ! i) \<le> 2 ^ k" if "i < 5" for i
    using assms(1,2) that by (auto simp: limbs_le_def list_all_length)
  ultimately have lim: "unat (a ! i) + unat (b ! i) < 2 ^ 64 \<and> unat (a ! i) + unat (b ! i) \<le> 2 ^ Suc k" if "i < 5" for i
    using that by (metis add_mono le_less_trans mult_2 power_Suc)
  then have "feval (fe_add a b) = feval a + feval b"
    unfolding fe_add_def using len by (intro lval_add_limbs) simp_all
  moreover have "unat (b ! i + a ! i) \<le> 2 ^ Suc k" if "i < 5" for i
    using lim [OF that] by (simp add: unat_word_ariths)
  ultimately show ?thesis using len by (simp add: limbs_le_def fe_add_def list_all_length fev_def mod_simps)
qed

lemma fe_sub_limbs:
  assumes "limbs_le 53 a" and "tight b" and "no_borrow a b"
  shows "loose (fe_sub a b) \<and> fev (fe_sub a b) = (fev a - fev b) mod int p25519"
proof -
  have a: "length a = 5" "list_all (\<lambda>x. unat x \<le> 2 ^ 53) a" using assms(1) by (simp_all add: limbs_le_def)
  have f: "foldable b" using assms(2) by (rule tight_foldable)
  have "(int (feval (fe_sub a b)) + int (feval b)) mod int p25519 = int (feval a) mod int p25519"
    using fe_sub_mod [OF a f assms(3)] by (simp flip: of_nat_add zmod_int)
  then have "(int (feval (fe_sub a b)) + int (feval b) - int (feval b)) mod int p25519 =
      (int (feval a) - int (feval b)) mod int p25519" by (rule mod_diff_cong) simp
  then show ?thesis using fe_sub_val [OF a f assms(3)] by (simp add: fev_def mod_simps)
qed

lemma d_const: "tight get_d" "fev get_d = ed_d" "limbs_le 52 get_2d" "fev get_2d = 2 * ed_d mod int p25519"
proof -
  let ?n = "fe_add_u64 fe_zero 121665" and ?m = "fe_add_u64 fe_zero 121666"
  have t: "tight ?n" "tight ?m" by (simp_all add: tight_def fe_add_u64_def fe_zero_def)
  have v: "fev ?n = 121665" "fev ?m = 121666" "fev fe_zero = 0" by (simp_all add: fev_def fe_add_u64_def fe_zero_def p25519_def)
  have nb: "no_borrow fe_zero ?n" using no_borrow_small [OF t(1), of 121665] v by simp
  have s: "loose (fe_sub fe_zero ?n)" "fev (fe_sub fe_zero ?n) = (0 - 121665) mod int p25519"
    using fe_sub_tight_val [OF tight_consts(2) t(1) nb] v by simp_all
  have i: "loose (fe_invert ?m)" using fe_invert_power [OF tight_loose [OF t(2)]] by (simp add: tight_loose)
  have "fev (fe_invert ?m) = 121666 ^ (p25519 - 2) mod int p25519"
    using fev_invert [OF tight_loose [OF t(2)]] by (simp only: v)
  then show d: "tight get_d" "fev get_d = ed_d"
    using s(1) i fev_mul [OF s(1) i] unfolding get_d_def ed_d_def by (simp_all only: fe_mul_loose s(2) mod_simps diff_0)
  show "limbs_le 52 get_2d" "fev get_2d = 2 * ed_d mod int p25519"
    using fe_add_limbs [OF limbs_le_facts(2) [OF d(1)] limbs_le_facts(2) [OF d(1)]] d(2)
    by (simp_all add: get_2d_def)
qed

lemma ep_add_tight: "ep_tight p \<Longrightarrow> ep_tight q \<Longrightarrow> ep_tight (ep_add p q)"
  using limbs_le_facts(1) [OF d_const(3)]
  by (simp add: ep_add_def ep_tight_def Let_def tight_length length_fe_sub fe_mul_tight)

lemma ep_dbl_tight: "ep_tight p \<Longrightarrow> ep_tight (ep_dbl p)"
  by (simp add: ep_dbl_def ep_tight_def Let_def tight_length length_fe_sub fe_square_tight fe_mul_tight)

lemma ep_add_residues:
  assumes "ep_tight p" and "ep_tight q" and "add_no_borrow p q"
    and "e = fev (ep_x p) * fev (ep_y q) + fev (ep_y p) * fev (ep_x q)"
    and "h = fev (ep_y p) * fev (ep_y q) + fev (ep_x p) * fev (ep_x q)"
    and "f = fev (ep_z p) * fev (ep_z q) - ed_d * fev (ep_t p) * fev (ep_t q)"
    and "g = fev (ep_z p) * fev (ep_z q) + ed_d * fev (ep_t p) * fev (ep_t q)"
  shows "fev (ep_x (ep_add p q)) = 2 * e * (2 * f) mod int p25519"
    and "fev (ep_y (ep_add p q)) = 2 * g * (2 * h) mod int p25519"
    and "fev (ep_z (ep_add p q)) = 2 * f * (2 * g) mod int p25519"
    and "fev (ep_t (ep_add p q)) = 2 * e * (2 * h) mod int p25519"
proof -
  let ?P = "int p25519"
  have t: "tight (ep_x p)" "tight (ep_y p)" "tight (ep_z p)" "tight (ep_t p)"
    "tight (ep_x q)" "tight (ep_y q)" "tight (ep_z q)" "tight (ep_t q)"
    using assms(1,2) by (simp_all add: ep_tight_def)
  define A where "A = fe_mul (fe_sub (ep_y p) (ep_x p)) (fe_sub (ep_y q) (ep_x q))"
  define B where "B = fe_mul (fe_add (ep_y p) (ep_x p)) (fe_add (ep_y q) (ep_x q))"
  define C where "C = fe_mul (fe_mul (ep_t p) get_2d) (ep_t q)"
  define D where "D = fe_mul (ep_z p) (fe_add (ep_z q) (ep_z q))"
  have nb: "no_borrow (ep_y p) (ep_x p)" "no_borrow (ep_y q) (ep_x q)" "no_borrow B A" "no_borrow D C"
    using assms(3) by (simp_all add: add_no_borrow_def Let_def A_def B_def C_def D_def)
  have l2: "loose get_2d" using limbs_le_facts(4) [OF d_const(3), of 54] limbs_le_facts(3) by simp
  have tt: "tight A" "tight B" "tight C" "tight D"
    using t fe_sub_tight_val [OF t(2,1) nb(1)] fe_sub_tight_val [OF t(6,5) nb(2)] l2
    by (simp_all add: A_def B_def C_def D_def fe_add_tight_val tight_loose)
  have v: "fev A = (fev (ep_y p) - fev (ep_x p)) * (fev (ep_y q) - fev (ep_x q)) mod ?P"
    "fev B = (fev (ep_y p) + fev (ep_x p)) * (fev (ep_y q) + fev (ep_x q)) mod ?P"
    "fev C = fev (ep_t p) * (2 * ed_d) * fev (ep_t q) mod ?P"
    "fev D = fev (ep_z p) * (fev (ep_z q) + fev (ep_z q)) mod ?P"
    using t fe_sub_tight_val [OF t(2,1) nb(1)] fe_sub_tight_val [OF t(6,5) nb(2)] l2 d_const(4)
    by (simp_all add: A_def B_def C_def D_def fev_mul fev_add fe_add_tight_val tight_loose mod_simps)
  have poly: "(fev (ep_y p) + fev (ep_x p)) * (fev (ep_y q) + fev (ep_x q)) -
        (fev (ep_y p) - fev (ep_x p)) * (fev (ep_y q) - fev (ep_x q)) = 2 * e"
    "(fev (ep_y p) + fev (ep_x p)) * (fev (ep_y q) + fev (ep_x q)) +
        (fev (ep_y p) - fev (ep_x p)) * (fev (ep_y q) - fev (ep_x q)) = 2 * h"
    "fev (ep_z p) * (fev (ep_z q) + fev (ep_z q)) - fev (ep_t p) * (2 * ed_d) * fev (ep_t q) = 2 * f"
    "fev (ep_z p) * (fev (ep_z q) + fev (ep_z q)) + fev (ep_t p) * (2 * ed_d) * fev (ep_t q) = 2 * g"
    by (simp_all add: assms(4-7) algebra_simps)
  have E: "loose (fe_sub B A)" "fev (fe_sub B A) = 2 * e mod ?P"
    and F: "loose (fe_sub D C)" "fev (fe_sub D C) = 2 * f mod ?P"
    and G: "loose (fe_add D C)" "fev (fe_add D C) = 2 * g mod ?P"
    and H: "loose (fe_add B A)" "fev (fe_add B A) = 2 * h mod ?P"
    using fe_sub_tight_val [OF tt(2,1) nb(3)] fe_sub_tight_val [OF tt(4,3) nb(4)]
      fe_add_tight_val [OF tt(4,3)] fe_add_tight_val [OF tt(2,1)] fev_add [OF tt(4,3)] fev_add [OF tt(2,1)]
    by (simp_all only: v mod_simps poly)
  have r: "ep_add p q = \<lparr>ep_x = fe_mul (fe_sub B A) (fe_sub D C), ep_y = fe_mul (fe_add D C) (fe_add B A),
      ep_z = fe_mul (fe_sub D C) (fe_add D C), ep_t = fe_mul (fe_sub B A) (fe_add B A)\<rparr>"
    by (simp only: ep_add_def Let_def A_def B_def C_def D_def)
  show "fev (ep_x (ep_add p q)) = 2 * e * (2 * f) mod ?P" "fev (ep_y (ep_add p q)) = 2 * g * (2 * h) mod ?P"
    "fev (ep_z (ep_add p q)) = 2 * f * (2 * g) mod ?P" "fev (ep_t (ep_add p q)) = 2 * e * (2 * h) mod ?P"
    by (simp_all only: r edwards_point.simps fev_mul E F G H mod_simps)
qed

lemma ep_dbl_residues:
  assumes "ep_tight p" and "dbl_no_borrow p"
    and "e = - 2 * (fev (ep_x p) * fev (ep_y p))" and "h = (fev (ep_x p))\<^sup>2 + (fev (ep_y p))\<^sup>2"
    and "g = (fev (ep_x p))\<^sup>2 - (fev (ep_y p))\<^sup>2" and "f = 2 * (fev (ep_z p))\<^sup>2 + g"
  shows "fev (ep_x (ep_dbl p)) = e * f mod int p25519" and "fev (ep_y (ep_dbl p)) = g * h mod int p25519"
    and "fev (ep_z (ep_dbl p)) = f * g mod int p25519" and "fev (ep_t (ep_dbl p)) = e * h mod int p25519"
proof -
  let ?P = "int p25519"
  define A B S Q where "A = fe_square (ep_x p)" and "B = fe_square (ep_y p)" and "S = fe_square (ep_z p)"
    and "Q = fe_square (fe_add (ep_x p) (ep_y p))"
  have t: "tight (ep_x p)" "tight (ep_y p)" "tight (ep_z p)" using assms(1) by (simp_all add: ep_tight_def)
  have nb: "no_borrow (fe_add A B) Q" "no_borrow A B"
    using assms(2) by (simp_all add: dbl_no_borrow_def Let_def A_def B_def Q_def)
  note s = fe_add_tight_val [OF t(1,2)]
  have tt: "tight A" "tight B" "tight S" "tight Q"
    using t by (simp_all add: A_def B_def S_def Q_def fe_square_tight tight_length)
  have v: "fev A = (fev (ep_x p))\<^sup>2 mod ?P" "fev B = (fev (ep_y p))\<^sup>2 mod ?P" "fev S = (fev (ep_z p))\<^sup>2 mod ?P"
    "fev Q = (fev (ep_x p) + fev (ep_y p))\<^sup>2 mod ?P"
    using t s by (simp_all add: A_def B_def S_def Q_def fev_square tight_loose fev_add mod_simps power2_eq_square)
  note l = limbs_le_facts(2) [OF tt(1)] limbs_le_facts(2) [OF tt(2)] limbs_le_facts(2) [OF tt(3)]
  have h: "limbs_le 52 (fe_add A B)" "fev (fe_add A B) = h mod ?P"
    using fe_add_limbs [OF l(1,2)] by (simp_all add: v assms(4) mod_simps)
  have c: "limbs_le 52 (fe_add S S)" "fev (fe_add S S) = (2 * (fev (ep_z p))\<^sup>2) mod ?P"
    using fe_add_limbs [OF l(3,3)] by (simp_all add: v mod_simps)
  have g: "limbs_le 52 (fe_sub A B)" "fev (fe_sub A B) = g mod ?P"
    using fe_sub_tight_limbs [OF tt(1,2) nb(2)] fe_sub_tight_val [OF tt(1,2) nb(2)] by (simp_all add: v assms(5) mod_simps)
  have e: "loose (fe_sub (fe_add A B) Q)" "fev (fe_sub (fe_add A B) Q) = e mod ?P"
  proof -
    have "h - (fev (ep_x p) + fev (ep_y p))\<^sup>2 = e" by (simp add: assms(3,4) power2_eq_square algebra_simps)
    then show "loose (fe_sub (fe_add A B) Q)" "fev (fe_sub (fe_add A B) Q) = e mod ?P"
      using fe_sub_limbs [OF limbs_le_facts(4) [OF h(1)] tt(4) nb(1)] by (simp_all only: h v mod_simps)
  qed
  have f: "loose (fe_add (fe_add S S) (fe_sub A B))" "fev (fe_add (fe_add S S) (fe_sub A B)) = f mod ?P"
    using fe_add_limbs [OF c(1) g(1)] limbs_le_facts(4) [of 53 _ 54] limbs_le_facts(3)
    by (simp_all add: c g assms(6) mod_simps)
  have lo: "loose (fe_sub A B)" "loose (fe_add A B)"
    using limbs_le_facts(4) [OF g(1), of 54] limbs_le_facts(4) [OF h(1), of 54] limbs_le_facts(3) by simp_all
  have r: "ep_dbl p = \<lparr>ep_x = fe_mul (fe_sub (fe_add A B) Q) (fe_add (fe_add S S) (fe_sub A B)),
      ep_y = fe_mul (fe_sub A B) (fe_add A B), ep_z = fe_mul (fe_add (fe_add S S) (fe_sub A B)) (fe_sub A B),
      ep_t = fe_mul (fe_sub (fe_add A B) Q) (fe_add A B)\<rparr>"
    by (simp only: ep_dbl_def Let_def A_def B_def S_def Q_def)
  show "fev (ep_x (ep_dbl p)) = e * f mod ?P" "fev (ep_y (ep_dbl p)) = g * h mod ?P"
    "fev (ep_z (ep_dbl p)) = f * g mod ?P" "fev (ep_t (ep_dbl p)) = e * h mod ?P"
    by (simp_all only: r edwards_point.simps fev_mul [OF e(1) f(1)] fev_mul [OF lo] fev_mul [OF f(1) lo(1)]
        fev_mul [OF e(1) lo(2)] e(2) f(2) g(2) h(2) mod_simps)
qed

lemma on_curveI:
  assumes "fev (ep_x r) = X mod int p25519" and "fev (ep_y r) = Y mod int p25519"
    and "fev (ep_z r) = Z mod int p25519" and "fev (ep_t r) = T mod int p25519"
    and "X * Y = Z * T" and "(Y\<^sup>2 - X\<^sup>2) mod int p25519 = (Z\<^sup>2 + ed_d * T\<^sup>2) mod int p25519"
  shows "on_curve r"
proof -
  let ?P = "int p25519"
  have m: "fev (ep_x r) mod ?P = X mod ?P" "fev (ep_y r) mod ?P = Y mod ?P"
    "fev (ep_z r) mod ?P = Z mod ?P" "fev (ep_t r) mod ?P = T mod ?P"
    by (simp_all only: assms(1-4) mod_mod_trivial)
  have "fev (ep_x r) * fev (ep_y r) mod ?P = X * Y mod ?P" "fev (ep_z r) * fev (ep_t r) mod ?P = Z * T mod ?P"
    by (intro mod_mult_cong m)+
  moreover have "(fev (ep_y r) * fev (ep_y r) - fev (ep_x r) * fev (ep_x r)) mod ?P = (Y * Y - X * X) mod ?P"
    by (intro mod_diff_cong mod_mult_cong m)
  moreover have "(fev (ep_z r) * fev (ep_z r) + ed_d * (fev (ep_t r) * fev (ep_t r))) mod ?P = (Z * Z + ed_d * (T * T)) mod ?P"
    by (intro mod_add_cong mod_mult_cong m refl)
  ultimately show ?thesis using assms(5,6) by (simp only: on_curve_def power2_eq_square simp_thms)
qed

text \<open>So both stay on the curve and compute the addition law.\<close>

lemma ep_dbl_law:
  assumes "ep_tight p" and "on_curve p" and "dbl_no_borrow p"
  shows "on_curve (ep_dbl p) \<and> edwards_sum (-1) p p (ep_dbl p)"
proof -
  define e h g f where "e = - 2 * (fev (ep_x p) * fev (ep_y p))" and "h = (fev (ep_x p))\<^sup>2 + (fev (ep_y p))\<^sup>2"
    and "g = (fev (ep_x p))\<^sup>2 - (fev (ep_y p))\<^sup>2" and "f = 2 * (fev (ep_z p))\<^sup>2 + g"
  note r = ep_dbl_residues [OF assms(1,3) e_def h_def g_def f_def]
  have c: "fev (ep_x p) * fev (ep_y p) mod int p25519 = fev (ep_z p) * fev (ep_t p) mod int p25519"
    "((fev (ep_y p))\<^sup>2 - (fev (ep_x p))\<^sup>2) mod int p25519 = ((fev (ep_z p))\<^sup>2 + ed_d * (fev (ep_t p))\<^sup>2) mod int p25519"
    using assms(2) by (simp_all add: on_curve_def)
  note l = dbl_on_curve [OF c e_def h_def g_def f_def]
  have "on_curve (ep_dbl p)"
    by (rule on_curveI [OF r _ l(1)]) algebra
  moreover have "edwards_sum (- 1) p p (ep_dbl p)"
  proof -
    let ?P = "int p25519"
    let ?e = "fev (ep_x p) * fev (ep_y p) + fev (ep_y p) * fev (ep_x p)"
      and ?h = "fev (ep_y p) * fev (ep_y p) + fev (ep_x p) * fev (ep_x p)"
      and ?f = "fev (ep_z p) * fev (ep_z p) - ed_d * fev (ep_t p) * fev (ep_t p)"
      and ?g = "fev (ep_z p) * fev (ep_z p) + ed_d * fev (ep_t p) * fev (ep_t p)"
    have eh: "e = - ?e" "h = ?h" by (simp_all add: e_def h_def power2_eq_square)
    have "e * f mod ?P = - ?e * ?f mod ?P" "g * h mod ?P = - ?g * ?h mod ?P" "f * g mod ?P = ?f * - ?g mod ?P"
      "e * h mod ?P = - ?e * ?h mod ?P"
      using l(2,3) by (intro mod_mult_cong; simp only: eh)+
    moreover have "- a * b = - 1 * (a * b)" "a * - b = - 1 * (a * b)" for a b :: int by simp_all
    ultimately show ?thesis unfolding edwards_sum_def Let_def r by (simp only: simp_thms)
  qed
  ultimately show ?thesis by blast
qed

lemma ep_add_law:
  assumes "ep_tight p" and "ep_tight q" and "on_curve p" and "on_curve q" and "add_no_borrow p q"
  shows "on_curve (ep_add p q) \<and> edwards_sum 4 p q (ep_add p q)"
proof -
  let ?P = "int p25519"
  define e h f g where "e = fev (ep_x p) * fev (ep_y q) + fev (ep_y p) * fev (ep_x q)"
    and "h = fev (ep_y p) * fev (ep_y q) + fev (ep_x p) * fev (ep_x q)"
    and "f = fev (ep_z p) * fev (ep_z q) - ed_d * fev (ep_t p) * fev (ep_t q)"
    and "g = fev (ep_z p) * fev (ep_z q) + ed_d * fev (ep_t p) * fev (ep_t q)"
  note r = ep_add_residues [OF assms(1,2,5) e_def h_def f_def g_def]
  have "((g * h)\<^sup>2 - (e * f)\<^sup>2) mod ?P = ((f * g)\<^sup>2 + ed_d * (e * h)\<^sup>2) mod ?P"
    using assms(3,4) by (intro add_on_curve [OF _ _ _ _ e_def h_def f_def g_def]) (simp_all add: on_curve_def)
  then have "16 * ((g * h)\<^sup>2 - (e * f)\<^sup>2) mod ?P = 16 * ((f * g)\<^sup>2 + ed_d * (e * h)\<^sup>2) mod ?P"
    by (rule mod_mult_cong [OF refl])
  moreover have "16 * ((g * h)\<^sup>2 - (e * f)\<^sup>2) = (2 * g * (2 * h))\<^sup>2 - (2 * e * (2 * f))\<^sup>2"
    "16 * ((f * g)\<^sup>2 + ed_d * (e * h)\<^sup>2) = (2 * f * (2 * g))\<^sup>2 + ed_d * (2 * e * (2 * h))\<^sup>2" by algebra+
  ultimately have "((2 * g * (2 * h))\<^sup>2 - (2 * e * (2 * f))\<^sup>2) mod ?P = ((2 * f * (2 * g))\<^sup>2 + ed_d * (2 * e * (2 * h))\<^sup>2) mod ?P"
    by (simp only:)
  then have "on_curve (ep_add p q)" by (rule on_curveI [OF r, rotated]) simp
  moreover have "edwards_sum 4 p q (ep_add p q)"
    unfolding edwards_sum_def Let_def r e_def [symmetric] h_def [symmetric] f_def [symmetric] g_def [symmetric]
    by (simp only: ac_simps) simp
  ultimately show ?thesis by blast
qed

section \<open>Scalar multiplication\<close>

text \<open>\<open>r\<close> is \<open>k\<close> times \<open>p\<close>, by additions of \<open>p\<close> and of a multiple to itself.\<close>

inductive is_multiple :: "edwards_point \<Rightarrow> nat \<Rightarrow> edwards_point \<Rightarrow> bool" for p where
  none: "is_multiple p 0 ep_identity"
| twice: "is_multiple p k r \<Longrightarrow> edwards_sum (- 1) r r r' \<Longrightarrow> is_multiple p (2 * k) r'"
| plus: "is_multiple p k r \<Longrightarrow> edwards_sum 4 r p r' \<Longrightarrow> is_multiple p (Suc k) r'"

text \<open>No subtraction borrows whose result the remaining \<open>n\<close> steps of the loop use.\<close>

fun mul_clean :: "edwards_point \<Rightarrow> fq \<Rightarrow> nat \<Rightarrow> edwards_point \<Rightarrow> bool" where
  "mul_clean p s 0 res = True"
| "mul_clean p s (Suc n) res =
     (dbl_no_borrow res \<and> (fq_get_bit s n = true_choice \<longrightarrow> add_no_borrow (ep_dbl res) p) \<and>
      mul_clean p s n (ep_mul_step p s n res))"

lemma choice_of_true: "choice_of t = true_choice \<longleftrightarrow> t"
  using choice_of_inject [of t True] by (simp add: choice_consts)

lemma ep_select_if:
  assumes "ep_tight a" and "ep_tight b"
  shows "ep_select a b (choice_of t) = (if t then a else b)"
  using assms by (simp add: ep_select_def ep_tight_def tight_length fe_select_if)

lemma ep_mul_step_eq:
  assumes "ep_tight p" and "ep_tight res" and "map unat s = digs 52 4 v" and "i < 256"
  shows "ep_mul_step p s i res = (if odd (v div 2 ^ i) then ep_add (ep_dbl res) p else ep_dbl res)"
  using assms by (simp add: ep_mul_step_def Let_def fq_get_bit_eq ep_select_if ep_add_tight ep_dbl_tight)

lemma identity_tight: "ep_tight ep_identity"
  by (simp add: ep_tight_def ep_identity_def tight_consts)

lemma const_fev [simp]: "fev fe_one = 1" "fev fe_zero = 0"
  by (simp_all add: fev_def fe_one_def fe_zero_def p25519_def)

lemma identity_on_curve: "on_curve ep_identity"
  by (simp add: on_curve_def ep_identity_def)

lemma mul_loop_tight:
  assumes "ep_tight p" and "map unat s = digs 52 4 v" and "n \<le> 256" and "ep_tight res"
  shows "ep_tight (fold (ep_mul_step p s) (rev [0..<n]) res)"
  using assms(3,4)
  by (induction n arbitrary: res) (simp_all add: ep_mul_step_eq [OF assms(1) _ assms(2)] ep_add_tight ep_dbl_tight assms(1))

lemma bit_shift: "(2 * k + of_bool (odd (v div 2 ^ n))) * 2 ^ n + v mod 2 ^ n = k * 2 ^ Suc n + v mod 2 ^ Suc n"
  for k v n :: nat
proof -
  have "v mod (2 ^ n * 2) = 2 ^ n * (v div 2 ^ n mod 2) + v mod 2 ^ n" by (rule mod_mult2_eq)
  moreover have "(2 :: nat) ^ Suc n = 2 ^ n * 2" by simp
  ultimately show ?thesis unfolding mod_2_eq_odd by (simp add: algebra_simps del: power_Suc)
qed

lemma mul_loop_multiple:
  assumes "ep_tight p" and "on_curve p" and "map unat s = digs 52 4 v" and "n \<le> 256"
    and "ep_tight res" and "on_curve res" and "is_multiple p k res" and "mul_clean p s n res"
  shows "on_curve (fold (ep_mul_step p s) (rev [0..<n]) res) \<and>
    is_multiple p (k * 2 ^ n + v mod 2 ^ n) (fold (ep_mul_step p s) (rev [0..<n]) res)"
  using assms(4-8)
proof (induction n arbitrary: res k)
  case (Suc n)
  let ?b = "odd (v div 2 ^ n)" and ?r = "ep_mul_step p s n res"
  have n: "n < 256" using Suc.prems(1) by simp
  note step = ep_mul_step_eq [OF assms(1) Suc.prems(2) assms(3) n]
  have t: "ep_tight ?r" by (simp add: step ep_add_tight ep_dbl_tight assms(1) Suc.prems(2))
  have nb: "dbl_no_borrow res" "?b \<Longrightarrow> add_no_borrow (ep_dbl res) p" "mul_clean p s n ?r"
    using Suc.prems(5) by (simp_all add: fq_get_bit_eq [OF assms(3) n] choice_of_true)
  note d = ep_dbl_law [OF Suc.prems(2,3) nb(1)]
  have m: "is_multiple p (2 * k) (ep_dbl res)" using twice [OF Suc.prems(4)] d by blast
  have on: "on_curve ?r" and mult: "is_multiple p (2 * k + of_bool ?b) ?r"
    using d m ep_add_law [OF ep_dbl_tight [OF Suc.prems(2)] assms(1) _ assms(2) nb(2)] plus [OF m] by (simp_all add: step)
  have "n \<le> 256" using n by simp
  from Suc.IH [OF this t on mult nb(3)] show ?case unfolding bit_shift by simp
qed simp

text \<open>Points \<open>(0, y, y, 0)\<close> with \<open>y = 1\<close> or \<open>y = -1\<close>: the representatives of the neutral point a loop meets.\<close>

definition unit_point :: "edwards_point \<Rightarrow> bool" where
  "unit_point r \<longleftrightarrow> fev (ep_x r) = 0 \<and> fev (ep_t r) = 0 \<and> fev (ep_y r) = fev (ep_z r) \<and>
     fev (ep_z r) \<in> {1, int p25519 - 1}"

lemma identity_unit: "unit_point ep_identity"
  by (simp add: unit_point_def ep_identity_def)

lemma sign_no_borrow: "tight b \<Longrightarrow> fev b \<in> {0, 1, int p25519 - 1} \<Longrightarrow> no_borrow a b"
  using no_borrow_residue [of b 0 a] no_borrow_residue [of b 1 a] no_borrow_residue [of b "p25519 - 1" a]
  by (auto simp: p25519_def)

lemma sign_square: "y \<in> {1, int p25519 - 1} \<Longrightarrow> y * y mod int p25519 = 1"
  by (auto simp: p25519_def)

lemma unit_dbl:
  assumes "ep_tight r" and "unit_point r"
  shows "dbl_no_borrow r \<and> unit_point (ep_dbl r)"
proof -
  let ?P = "int p25519"
  have t: "tight (ep_x r)" "tight (ep_y r)" using assms(1) by (simp_all add: ep_tight_def)
  have y: "fev (ep_y r) * fev (ep_y r) mod ?P = 1" "fev (ep_x r) = 0" "fev (ep_z r) = fev (ep_y r)"
    using assms(2) sign_square by (auto simp: unit_point_def)
  have one: "1 mod ?P = 1" by (simp add: p25519_def)
  have "fev (fe_square (ep_y r)) = 1" "fev (fe_square (fe_add (ep_x r) (ep_y r))) = 1"
    using y t fev_square [of "ep_y r"] fev_square [of "fe_add (ep_x r) (ep_y r)"]
    by (simp_all add: tight_loose fe_add_tight_val fev_add mod_simps)
  then have nb: "dbl_no_borrow r"
    using t by (simp add: dbl_no_borrow_def Let_def sign_no_borrow fe_square_tight tight_length)
  have sq: "(fev (ep_y r))\<^sup>2 mod ?P = 1" using y(1) by (simp add: power2_eq_square)
  note d = ep_dbl_residues [OF assms(1) nb refl refl refl refl, unfolded y(2,3)]
  have c: "(fev (ep_y r))\<^sup>2 mod ?P = 1 mod ?P" using sq one by simp
  have "fev (ep_z (ep_dbl r)) = (2 * 1 + (0\<^sup>2 - 1)) * (0\<^sup>2 - 1) mod ?P"
    "fev (ep_y (ep_dbl r)) = (0\<^sup>2 - 1) * (0\<^sup>2 + 1) mod ?P"
    unfolding d(2,3) by (intro mod_mult_cong mod_add_cong mod_diff_cong c refl)+
  moreover have "(- 1) mod ?P = ?P - 1" by (simp add: p25519_def)
  ultimately have "fev (ep_z (ep_dbl r)) = ?P - 1" "fev (ep_y (ep_dbl r)) = ?P - 1" by simp_all
  moreover have "fev (ep_x (ep_dbl r)) = 0" "fev (ep_t (ep_dbl r)) = 0" unfolding d(1,4) by simp_all
  ultimately show ?thesis using nb by (simp add: unit_point_def)
qed

lemma unit_add_no_borrow:
  assumes "ep_tight r" and "unit_point r"
  shows "add_no_borrow r ep_identity"
proof -
  have t: "tight (ep_x r)" "tight (ep_y r)" "tight (ep_z r)" "tight (ep_t r)" using assms(1) by (simp_all add: ep_tight_def)
  have v: "fev (ep_x r) = 0" "fev (ep_y r) \<in> {1, int p25519 - 1}" using assms(2) by (auto simp: unit_point_def)
  have nb: "no_borrow a (ep_x r)" "no_borrow a fe_zero" for a
    using t v by (simp_all add: sign_no_borrow tight_consts)
  note s = fe_sub_tight_val [OF t(2,1) nb(1)] fe_sub_tight_val [OF tight_consts nb(2)]
  let ?A = "fe_mul (fe_sub (ep_y r) (ep_x r)) (fe_sub fe_one fe_zero)"
  let ?C = "fe_mul (fe_mul (ep_t r) get_2d) fe_zero"
  have l: "loose get_2d" using limbs_le_facts(4) [OF d_const(3), of 54] limbs_le_facts(3) by simp
  have "fev ?A = fev (ep_y r) mod int p25519" "tight ?A" using s v by (simp_all add: fev_mul mod_simps)
  moreover have "fev (ep_y r) mod int p25519 = fev (ep_y r)" by (simp add: fev_def)
  ultimately have "no_borrow b ?A" for b using v(2) sign_no_borrow [of ?A b] by auto
  moreover have "tight (fe_mul (ep_t r) get_2d)" using t l by (simp add: tight_loose)
  then have "fev ?C = 0" "tight ?C" by (simp_all add: fev_mul tight_loose tight_consts)
  then have "no_borrow b ?C" for b using sign_no_borrow [of ?C b] by simp
  ultimately show ?thesis using nb by (simp add: add_no_borrow_def Let_def ep_identity_def)
qed

lemma unit_mul_clean:
  assumes "map unat s = digs 52 4 1" and "n \<le> 256" and "ep_tight res" and "unit_point res"
  shows "mul_clean ep_identity s n res"
  using assms(2-4)
proof (induction n arbitrary: res)
  case (Suc n)
  have n: "n < 256" using Suc.prems(1) by simp
  note d = unit_dbl [OF Suc.prems(2,3)] and t = ep_dbl_tight [OF Suc.prems(2)]
  have "mul_clean ep_identity s n (ep_mul_step ep_identity s n res)"
  proof (cases n)
    case (Suc m)
    then have "(1 :: nat) < 2 ^ n" by (intro one_less_power) simp_all
    then have "\<not> odd ((1 :: nat) div 2 ^ n)" by (simp only: div_less) simp
    then have "ep_mul_step ep_identity s n res = ep_dbl res"
      by (simp add: ep_mul_step_eq [OF identity_tight Suc.prems(2) assms(1) n])
    then show ?thesis using Suc.IH [OF _ t] d n by simp
  qed simp
  then show ?case using d unit_add_no_borrow [OF t] by simp
qed simp

section \<open>Properties\<close>

text \<open>
  C12. The two point formulas of the code compute the addition law of the curve and stay on it: an addition
  is the sum of its arguments, and a doubling, which uses a formula of its own, the sum of a point with
  itself; for all points with coordinates in range and wherever none of their subtractions borrows.
\<close>

theorem point_formulas_are_addition_law:
  assumes "ep_tight p" and "ep_tight q" and "on_curve p" and "on_curve q"
    and "add_no_borrow p q" and "dbl_no_borrow p"
  shows "edwards_sum 4 p q (ep_add p q) \<and> on_curve (ep_add p q) \<and> ep_tight (ep_add p q) \<and>
    edwards_sum (- 1) p p (ep_dbl p) \<and> on_curve (ep_dbl p) \<and> ep_tight (ep_dbl p)"
  using ep_add_law [OF assms(1-5)] ep_dbl_law [OF assms(1,3,6)] ep_add_tight [OF assms(1,2)] ep_dbl_tight [OF assms(1)]
  by blast

theorem point_formulas_are_addition_law_witness:
  "edwards_sum 4 ep_identity ep_identity (ep_add ep_identity ep_identity) \<and>
   edwards_sum (- 1) ep_identity ep_identity (ep_dbl ep_identity)"
  using point_formulas_are_addition_law [OF identity_tight identity_tight identity_on_curve identity_on_curve]
    unit_add_no_borrow [OF identity_tight identity_unit] unit_dbl [OF identity_tight identity_unit] by blast

text \<open>
  C11. Scalar multiplication is that of the curve: after the 256 steps of its loop the accumulator is the
  multiple of the point by the low 256 bits of the scalar, obtained by the addition law, and it is a
  point of the curve, wherever no subtraction whose result is used borrows.
\<close>

theorem scalar_multiplication_is_multiple:
  assumes "ep_tight p" and "on_curve p" and "map unat s = digs 52 4 v" and "mul_clean p s 256 ep_identity"
  shows "is_multiple p (v mod 2 ^ 256) (ep_mul p s) \<and> on_curve (ep_mul p s) \<and> ep_tight (ep_mul p s)"
  using mul_loop_multiple [OF assms(1-3) order_refl identity_tight identity_on_curve none assms(4)]
    mul_loop_tight [OF assms(1,3) order_refl identity_tight]
  by (simp add: ep_mul_def)

theorem scalar_multiplication_is_multiple_witness: "is_multiple ep_identity 1 (ep_mul ep_identity [1, 0, 0, 0, 0])"
proof -
  have s: "map unat [1 :: u64, 0, 0, 0, 0] = digs 52 4 1" by (simp add: digs_4)
  show ?thesis
    using scalar_multiplication_is_multiple [OF identity_tight identity_on_curve s
        unit_mul_clean [OF s order_refl identity_tight identity_unit]] by simp
qed

end
