(* ===== verification/Handshake.thy ===== *)
theory Handshake
  imports Session X25519 Ed25519 Sha_256
begin

text \<open>
  The handshake of \<open>src/session/session.cpp\<close>: \<open>make_signed_data\<close>, \<open>derive_keys\<close>,
  \<open>handshake_as_initiator\<close> and \<open>handshake_as_responder\<close>. The aliases \<open>sign_t\<close>, \<open>kex_t\<close> and \<open>sha256\<close>
  at the head of that file name the algorithms; here they are the fields of a record, and
  \<open>suite_25519\<close> is the suite the file names, made of the models of the other theories. The
  ephemeral secret, which comes from the random generator, is an argument. Where the code prints
  a message and returns \<open>nullopt\<close> the model returns the message as an error value.
\<close>

record crypto_suite =
  kex_derive_public :: "bytes \<Rightarrow> bytes"
  kex_exchange :: "bytes \<Rightarrow> bytes \<Rightarrow> bytes ct_optional"
  sig_sign :: "bytes \<Rightarrow> bytes \<Rightarrow> bytes"
  sig_verify :: "bytes \<Rightarrow> bytes \<Rightarrow> bytes \<Rightarrow> choice"
  kdf_hash :: "bytes \<Rightarrow> bytes"

text \<open>\<open>junk\<close>: the uninitialised buffers of the hash objects, 128 and 64 bytes.\<close>

definition suite_25519 :: "bytes \<Rightarrow> bytes \<Rightarrow> crypto_suite" where
  "suite_25519 junk512 junk256 =
     \<lparr>kex_derive_public = x25519_derive_public, kex_exchange = x25519_exchange,
      sig_sign = eddsa_sign junk512, sig_verify = eddsa_verify junk512, kdf_hash = sha_256_hash junk256\<rparr>"

datatype hs_error =
    Send_init_failed | No_resp | Bad_resp | Responder_signature_invalid | Exchange_failed
  | Send_finish_failed | No_ok
  | No_init | Bad_init | Send_resp_failed | No_finish | Bad_finish | Initiator_signature_invalid | Send_ok_failed

definition make_signed_data :: "bytes \<Rightarrow> bytes \<Rightarrow> bytes" where
  "make_signed_data init_eph resp_eph = write_at 32 resp_eph (write_at 0 init_eph (replicate 64 0))"

text \<open>Both directional keys, \<open>k_i2r\<close> first.\<close>

definition derive_keys :: "crypto_suite \<Rightarrow> bytes \<Rightarrow> bytes \<times> bytes" where
  "derive_keys C shared =
     (let buf = write_at 1 shared (replicate 33 0);
          buf = buf[0 := 0x00];
          k_i2r = kdf_hash C buf;
          buf = buf[0 := 0x01];
          k_r2i = kdf_hash C buf
      in (k_i2r, k_r2i))"

definition handshake_as_initiator ::
  "crypto_suite \<Rightarrow> bytes \<Rightarrow> tcp_connection \<Rightarrow> bytes \<Rightarrow> bytes \<Rightarrow> (hs_error + session) \<times> tcp_connection" where
  "handshake_as_initiator C eph_sk conn identity_sk identity_pk =
     (let eph_pk = kex_derive_public C eph_sk
      in case send_frame (build_hs_init eph_pk) conn of
        (False, conn) \<Rightarrow> (Inl Send_init_failed, conn)
      | (True, conn) \<Rightarrow>
      (case recv_frame conn of
        (None, conn) \<Rightarrow> (Inl No_resp, conn)
      | (Some resp_raw, conn) \<Rightarrow>
      (case parse_hs_resp resp_raw of
        None \<Rightarrow> (Inl Bad_resp, conn)
      | Some resp \<Rightarrow>
          let signed_data = make_signed_data eph_pk (resp_eph_pk resp)
          in if \<not> unwrap_public (sig_verify C (resp_identity_pk resp) signed_data (resp_sig resp))
             then (Inl Responder_signature_invalid, conn)
             else let shared_opt = kex_exchange C eph_sk (resp_eph_pk resp)
             in if \<not> is_some_public shared_opt then (Inl Exchange_failed, conn)
             else let shared = value_or array_ct_select shared_opt (replicate 32 0);
                      my_sig = sig_sign C identity_sk signed_data
             in (case send_frame (build_hs_finish identity_pk my_sig) conn of
                  (False, conn) \<Rightarrow> (Inl Send_finish_failed, conn)
                | (True, conn) \<Rightarrow>
                (case recv_frame conn of
                   (None, conn) \<Rightarrow> (Inl No_ok, conn)
                 | (Some ack, conn) \<Rightarrow>
                   if get_type ack \<noteq> Ok_msg then (Inl No_ok, conn)
                   else let (k_i2r, k_r2i) = derive_keys C shared
                        in (Inr \<lparr>peer_identity_pk = resp_identity_pk resp, k_send = k_i2r, k_recv = k_r2i,
                                 send_ctr = 0\<rparr>, conn))))))"

definition handshake_as_responder ::
  "crypto_suite \<Rightarrow> bytes \<Rightarrow> tcp_connection \<Rightarrow> bytes \<Rightarrow> bytes \<Rightarrow> (hs_error + session) \<times> tcp_connection" where
  "handshake_as_responder C eph_sk conn identity_sk identity_pk =
     (case recv_frame conn of
        (None, conn) \<Rightarrow> (Inl No_init, conn)
      | (Some init_raw, conn) \<Rightarrow>
      (case parse_hs_init init_raw of
        None \<Rightarrow> (Inl Bad_init, conn)
      | Some init_eph_pk \<Rightarrow>
          let eph_pk = kex_derive_public C eph_sk;
              shared_opt = kex_exchange C eph_sk init_eph_pk
          in if \<not> is_some_public shared_opt then (Inl Exchange_failed, conn)
             else let shared = value_or array_ct_select shared_opt (replicate 32 0);
                      signed_data = make_signed_data init_eph_pk eph_pk;
                      my_sig = sig_sign C identity_sk signed_data
             in (case send_frame (build_hs_resp eph_pk identity_pk my_sig) conn of
                  (False, conn) \<Rightarrow> (Inl Send_resp_failed, conn)
                | (True, conn) \<Rightarrow>
                (case recv_frame conn of
                   (None, conn) \<Rightarrow> (Inl No_finish, conn)
                 | (Some finish_raw, conn) \<Rightarrow>
                 (case parse_hs_finish finish_raw of
                    None \<Rightarrow> (Inl Bad_finish, conn)
                  | Some finish \<Rightarrow>
                    if \<not> unwrap_public (sig_verify C (fin_identity_pk finish) signed_data (fin_sig finish))
                    then (Inl Initiator_signature_invalid, conn)
                    else (case send_frame build_ok conn of
                       (False, conn) \<Rightarrow> (Inl Send_ok_failed, conn)
                     | (True, conn) \<Rightarrow>
                       let (k_i2r, k_r2i) = derive_keys C shared
                       in (Inr \<lparr>peer_identity_pk = fin_identity_pk finish, k_send = k_r2i, k_recv = k_i2r,
                                send_ctr = 0\<rparr>, conn)))))))"

section \<open>What a successful run has seen and sent\<close>

lemma make_signed_data_eq:
  "length a = 32 \<Longrightarrow> length b = 32 \<Longrightarrow> make_signed_data a b = a @ b"
  by (simp add: make_signed_data_def write_at_def)

lemma derive_keys_eq:
  "length s = 32 \<Longrightarrow> derive_keys C s = (kdf_hash C (0x00 # s), kdf_hash C (0x01 # s))"
  by (simp add: derive_keys_def write_at_def Let_def)

lemma send_frame_step:
  assumes "send_frame d c = (True, c')"
  shows "tx c' = tx c @ frame_bytes d \<and> stream c' = stream c"
  using send_frame_tx [OF assms] by (simp add: frame_bytes_def stream_def)

lemma recv_frame_step:
  assumes "recv_frame c = (Some d, c')"
  shows "stream c = frame_bytes d @ stream c' \<and> tx c' = tx c"
  using recv_frame_some [OF assms] by simp

abbreviation agreed_secret :: "crypto_suite \<Rightarrow> bytes \<Rightarrow> bytes \<Rightarrow> bytes" where
  "agreed_secret C sk pk \<equiv> value_or array_ct_select (kex_exchange C sk pk) (replicate 32 0)"

lemma initiator_run:
  assumes "handshake_as_initiator C eph_sk conn isk ipk = (Inr s, conn')"
  obtains raw resp ack where "parse_hs_resp raw = Some resp" and "get_type ack = Ok_msg"
    and "stream conn = frame_bytes raw @ frame_bytes ack @ stream conn'"
    and "tx conn' = tx conn @ frame_bytes (build_hs_init (kex_derive_public C eph_sk)) @
      frame_bytes (build_hs_finish ipk (sig_sign C isk (make_signed_data (kex_derive_public C eph_sk) (resp_eph_pk resp))))"
    and "unwrap_public (sig_verify C (resp_identity_pk resp)
      (make_signed_data (kex_derive_public C eph_sk) (resp_eph_pk resp)) (resp_sig resp))"
    and "is_some_public (kex_exchange C eph_sk (resp_eph_pk resp))"
    and "s = \<lparr>peer_identity_pk = resp_identity_pk resp, k_send = fst (derive_keys C (agreed_secret C eph_sk (resp_eph_pk resp))),
      k_recv = snd (derive_keys C (agreed_secret C eph_sk (resp_eph_pk resp))), send_ctr = 0\<rparr>"
  using assms
  by (auto simp: handshake_as_initiator_def Let_def split: prod.splits bool.splits option.splits if_splits
      dest!: send_frame_step recv_frame_step)

lemma responder_run:
  assumes "handshake_as_responder C eph_sk conn isk ipk = (Inr s, conn')"
  obtains raw init_pk fraw fin where "parse_hs_init raw = Some init_pk" and "parse_hs_finish fraw = Some fin"
    and "stream conn = frame_bytes raw @ frame_bytes fraw @ stream conn'"
    and "tx conn' = tx conn @ frame_bytes (build_hs_resp (kex_derive_public C eph_sk) ipk
        (sig_sign C isk (make_signed_data init_pk (kex_derive_public C eph_sk)))) @ frame_bytes build_ok"
    and "unwrap_public (sig_verify C (fin_identity_pk fin)
      (make_signed_data init_pk (kex_derive_public C eph_sk)) (fin_sig fin))"
    and "is_some_public (kex_exchange C eph_sk init_pk)"
    and "s = \<lparr>peer_identity_pk = fin_identity_pk fin, k_send = snd (derive_keys C (agreed_secret C eph_sk init_pk)),
      k_recv = fst (derive_keys C (agreed_secret C eph_sk init_pk)), send_ctr = 0\<rparr>"
  using assms
  by (auto simp: handshake_as_responder_def Let_def split: prod.splits bool.splits option.splits if_splits
      dest!: send_frame_step recv_frame_step)

section \<open>Frames are read back uniquely\<close>

lemma frame_bytes_inject:
  assumes "frame_bytes d @ x = frame_bytes e @ y" and "length d < 2 ^ 32" and "length e < 2 ^ 32"
  shows "d = e \<and> x = y"
proof -
  have h: "be32 (word_of_nat (length d)) = be32 (word_of_nat (length e))" and r: "d @ x = e @ y"
    using assms(1) by (simp_all add: frame_bytes_def be32_def)
  have "(word_of_nat (length d) :: u32) = word_of_nat (length e)" using h by (metis be32_dec_be32)
  then have "unat (word_of_nat (length d) :: u32) = unat (word_of_nat (length e) :: u32)" by (rule arg_cong)
  then have "length d = length e" using assms(2,3) by (simp add: unat_of_nat)
  then show ?thesis using r by simp
qed

section \<open>Honest ends complete\<close>

text \<open>A connection with room to send \<open>n\<close> more bytes.\<close>

definition roomy_conn :: "nat \<Rightarrow> tcp_connection \<Rightarrow> bool" where
  "roomy_conn n c \<longleftrightarrow> live c \<and> list_all (\<lambda>r. 0 < r) (tx_room c) \<and> n \<le> length (tx_room c)"

lemma roomy_send:
  assumes "roomy_conn (length d + 4 + n) c"
  obtains c' where "send_frame d c = (True, c')" and "roomy_conn n c'" and "tx c' = tx c @ frame_bytes d"
    and "stream c' = stream c"
proof -
  have a: "live c" "list_all (\<lambda>r. 0 < r) (tx_room c)" "length d + 4 + n \<le> length (tx_room c)"
    using assms by (simp_all add: roomy_conn_def)
  obtain c' where s: "send_frame d c = (True, c')" "list_all (\<lambda>r. 0 < r) (tx_room c')"
    "length (tx_room c) - (length d + 4) \<le> length (tx_room c')"
    using send_frame_room [of c d] a by auto
  have "live c'" using send_frame_tx [OF s(1)] a(1) by (simp add: live_def)
  then have "roomy_conn n c'" using s a(3) by (simp add: roomy_conn_def)
  then show thesis using that [OF s(1)] send_frame_step [OF s(1)] by blast
qed

lemma roomy_recv:
  assumes "roomy_conn n c" and "stream c = frame_bytes d @ rest" and "length d \<le> frame_cap"
  obtains c' where "recv_frame c = (Some d, c')" and "roomy_conn n c'" and "tx c' = tx c" and "stream c' = rest"
  using recv_frame_stream [of c d rest] assms by (auto simp: roomy_conn_def frame_bytes_def)

text \<open>The four frames of a run between ephemeral secrets \<open>a\<close> and \<open>b\<close>.\<close>

definition hs_data :: "crypto_suite \<Rightarrow> bytes \<Rightarrow> bytes \<Rightarrow> bytes" where
  "hs_data C a b = make_signed_data (kex_derive_public C a) (kex_derive_public C b)"

definition resp_frame :: "crypto_suite \<Rightarrow> bytes \<Rightarrow> bytes \<Rightarrow> bytes \<Rightarrow> bytes \<Rightarrow> bytes" where
  "resp_frame C a b sk pk = build_hs_resp (kex_derive_public C b) pk (sig_sign C sk (hs_data C a b))"

definition finish_frame :: "crypto_suite \<Rightarrow> bytes \<Rightarrow> bytes \<Rightarrow> bytes \<Rightarrow> bytes \<Rightarrow> bytes" where
  "finish_frame C a b sk pk = build_hs_finish pk (sig_sign C sk (hs_data C a b))"

text \<open>The array extents of keys and signatures, which the types of the sources fix.\<close>

definition suite_sizes :: "crypto_suite \<Rightarrow> bool" where
  "suite_sizes C \<longleftrightarrow> (\<forall>sk. length (kex_derive_public C sk) = 32) \<and> (\<forall>sk m. length (sig_sign C sk m) = 64)"

lemma frame_lengths:
  assumes "suite_sizes C" and "length pk = 32"
  shows "length (build_hs_init (kex_derive_public C a)) = 33" "length (resp_frame C a b sk pk) = 129"
    "length (finish_frame C a b sk pk) = 97" "length build_ok = 1"
  using assms by (simp_all add: suite_sizes_def build_defs resp_frame_def finish_frame_def)

lemma parse_frames:
  assumes "suite_sizes C" and "length pk = 32"
  shows "parse_hs_init (build_hs_init (kex_derive_public C a)) = Some (kex_derive_public C a)"
    and "parse_hs_resp (resp_frame C a b sk pk) = Some \<lparr>resp_eph_pk = kex_derive_public C b, resp_identity_pk = pk,
      resp_sig = sig_sign C sk (hs_data C a b)\<rparr>"
    and "parse_hs_finish (finish_frame C a b sk pk) = Some \<lparr>fin_identity_pk = pk, fin_sig = sig_sign C sk (hs_data C a b)\<rparr>"
  using assms
  by (simp_all add: parse_hs_init_exact parse_hs_resp_exact parse_hs_finish_exact suite_sizes_def resp_frame_def finish_frame_def)

lemma initiator_completes:
  assumes "suite_sizes C" and "length ipk = 32" and "length rpk = 32" and "roomy_conn (138 + n) c"
    and "stream c = frame_bytes (resp_frame C a b rsk rpk) @ frame_bytes build_ok @ rest"
    and "unwrap_public (sig_verify C rpk (hs_data C a b) (sig_sign C rsk (hs_data C a b)))"
    and "is_some_public (kex_exchange C a (kex_derive_public C b))"
  obtains c' where "handshake_as_initiator C a c isk ipk =
      (Inr \<lparr>peer_identity_pk = rpk, k_send = fst (derive_keys C (agreed_secret C a (kex_derive_public C b))),
         k_recv = snd (derive_keys C (agreed_secret C a (kex_derive_public C b))), send_ctr = 0\<rparr>, c')"
    and "tx c' = tx c @ frame_bytes (build_hs_init (kex_derive_public C a)) @ frame_bytes (finish_frame C a b isk ipk)"
    and "roomy_conn n c'" and "stream c' = rest"
proof -
  note len = frame_lengths [OF assms(1,2)] frame_lengths(2) [OF assms(1,3)]
  have "roomy_conn (length (build_hs_init (kex_derive_public C a)) + 4 + (101 + n)) c"
    using assms(4) by (simp add: len)
  then obtain c1 where c1: "send_frame (build_hs_init (kex_derive_public C a)) c = (True, c1)" "roomy_conn (101 + n) c1"
    "tx c1 = tx c @ frame_bytes (build_hs_init (kex_derive_public C a))" "stream c1 = stream c" by (rule roomy_send)
  have cap: "length (resp_frame C a b rsk rpk) \<le> frame_cap" "length build_ok \<le> frame_cap"
    by (simp_all add: len frame_cap_def)
  have s1: "stream c1 = frame_bytes (resp_frame C a b rsk rpk) @ frame_bytes build_ok @ rest"
    by (simp only: c1(4) assms(5))
  obtain c2 where c2: "recv_frame c1 = (Some (resp_frame C a b rsk rpk), c2)" "roomy_conn (101 + n) c2" "tx c2 = tx c1"
    "stream c2 = frame_bytes build_ok @ rest"
    by (rule roomy_recv [OF c1(2) s1 cap(1)])
  have "roomy_conn (length (finish_frame C a b isk ipk) + 4 + n) c2" using c2(2) by (simp add: len)
  then obtain c3 where c3: "send_frame (finish_frame C a b isk ipk) c2 = (True, c3)" "roomy_conn n c3"
    "tx c3 = tx c2 @ frame_bytes (finish_frame C a b isk ipk)" "stream c3 = stream c2" by (rule roomy_send)
  have s3: "stream c3 = frame_bytes build_ok @ rest" by (simp only: c3(4) c2(4))
  obtain c4 where c4: "recv_frame c3 = (Some build_ok, c4)" "roomy_conn n c4" "tx c4 = tx c3" "stream c4 = rest"
    by (rule roomy_recv [OF c3(2) s3 cap(2)])
  have "handshake_as_initiator C a c isk ipk =
      (Inr \<lparr>peer_identity_pk = rpk, k_send = fst (derive_keys C (agreed_secret C a (kex_derive_public C b))),
         k_recv = snd (derive_keys C (agreed_secret C a (kex_derive_public C b))), send_ctr = 0\<rparr>, c4)"
    using assms(6,7) c3(1) c4(1)
    by (simp add: handshake_as_initiator_def c1(1) c2(1) parse_frames(2) [OF assms(1,3)] Let_def split_beta
        flip: hs_data_def finish_frame_def)
  then show thesis using that [of c4] c4 c3 c2 c1 by simp
qed

lemma responder_completes:
  assumes "suite_sizes C" and "length ipk = 32" and "length rpk = 32" and "roomy_conn (138 + n) c"
    and "stream c = frame_bytes (build_hs_init (kex_derive_public C a)) @ frame_bytes (finish_frame C a b isk ipk) @ rest"
    and "unwrap_public (sig_verify C ipk (hs_data C a b) (sig_sign C isk (hs_data C a b)))"
    and "is_some_public (kex_exchange C b (kex_derive_public C a))"
  obtains c' where "handshake_as_responder C b c rsk rpk =
      (Inr \<lparr>peer_identity_pk = ipk, k_send = snd (derive_keys C (agreed_secret C b (kex_derive_public C a))),
         k_recv = fst (derive_keys C (agreed_secret C b (kex_derive_public C a))), send_ctr = 0\<rparr>, c')"
    and "tx c' = tx c @ frame_bytes (resp_frame C a b rsk rpk) @ frame_bytes build_ok"
    and "roomy_conn n c'" and "stream c' = rest"
proof -
  note len = frame_lengths [OF assms(1,2)] frame_lengths(2) [OF assms(1,3)]
  have cap: "length (build_hs_init (kex_derive_public C a)) \<le> frame_cap" "length (finish_frame C a b isk ipk) \<le> frame_cap"
    by (simp_all add: len frame_cap_def)
  obtain c1 where c1: "recv_frame c = (Some (build_hs_init (kex_derive_public C a)), c1)" "roomy_conn (138 + n) c1"
    "tx c1 = tx c" "stream c1 = frame_bytes (finish_frame C a b isk ipk) @ rest"
    by (rule roomy_recv [OF assms(4,5) cap(1)])
  have "roomy_conn (length (resp_frame C a b rsk rpk) + 4 + (5 + n)) c1" using c1(2) by (simp add: len)
  then obtain c2 where c2: "send_frame (resp_frame C a b rsk rpk) c1 = (True, c2)" "roomy_conn (5 + n) c2"
    "tx c2 = tx c1 @ frame_bytes (resp_frame C a b rsk rpk)" "stream c2 = stream c1" by (rule roomy_send)
  have s2: "stream c2 = frame_bytes (finish_frame C a b isk ipk) @ rest" by (simp only: c2(4) c1(4))
  obtain c3 where c3: "recv_frame c2 = (Some (finish_frame C a b isk ipk), c3)" "roomy_conn (5 + n) c3" "tx c3 = tx c2"
    "stream c3 = rest"
    by (rule roomy_recv [OF c2(2) s2 cap(2)])
  have "roomy_conn (length build_ok + 4 + n) c3" using c3(2) by (simp add: len)
  then obtain c4 where c4: "send_frame build_ok c3 = (True, c4)" "roomy_conn n c4"
    "tx c4 = tx c3 @ frame_bytes build_ok" "stream c4 = stream c3" by (rule roomy_send)
  have "handshake_as_responder C b c rsk rpk =
      (Inr \<lparr>peer_identity_pk = ipk, k_send = snd (derive_keys C (agreed_secret C b (kex_derive_public C a))),
         k_recv = fst (derive_keys C (agreed_secret C b (kex_derive_public C a))), send_ctr = 0\<rparr>, c4)"
    using assms(6,7) c2(1) c3(1) c4(1)
    by (simp add: handshake_as_responder_def c1(1) parse_frames(1,3) [OF assms(1,2)] Let_def split_beta
        flip: hs_data_def resp_frame_def)
  then show thesis using that [of c4] c4 c3 c2 c1 by simp
qed

section \<open>Properties\<close>

text \<open>
  C2. Honest ends complete the handshake: if each end receives the frames the other sends, the two
  signatures verify and the exchange is valid and symmetric, both runs return a session, each has
  sent exactly the frames the other received, the sessions name the other's identity, and the key
  one end sends with is the key the other receives with.
\<close>

theorem handshake_completes:
  assumes "suite_sizes C" and "length ipk = 32" and "length rpk = 32"
    and "roomy_conn 138 ci" and "roomy_conn 138 cr" and "tx ci = []" and "tx cr = []"
    and "stream ci = frame_bytes (resp_frame C a b rsk rpk) @ frame_bytes build_ok"
    and "stream cr = frame_bytes (build_hs_init (kex_derive_public C a)) @ frame_bytes (finish_frame C a b isk ipk)"
    and "unwrap_public (sig_verify C rpk (hs_data C a b) (sig_sign C rsk (hs_data C a b)))"
    and "unwrap_public (sig_verify C ipk (hs_data C a b) (sig_sign C isk (hs_data C a b)))"
    and "is_some_public (kex_exchange C a (kex_derive_public C b))"
    and "kex_exchange C a (kex_derive_public C b) = kex_exchange C b (kex_derive_public C a)"
  shows "\<exists>si sr ci' cr'. handshake_as_initiator C a ci isk ipk = (Inr si, ci') \<and>
    handshake_as_responder C b cr rsk rpk = (Inr sr, cr') \<and>
    tx ci' = stream cr \<and> tx cr' = stream ci \<and>
    k_send si = k_recv sr \<and> k_recv si = k_send sr \<and>
    peer_identity_pk si = rpk \<and> peer_identity_pk sr = ipk \<and> send_ctr si = 0 \<and> send_ctr sr = 0"
proof -
  have r: "roomy_conn (138 + 0) ci" "roomy_conn (138 + 0) cr" using assms(4,5) by simp_all
  have s: "stream ci = frame_bytes (resp_frame C a b rsk rpk) @ frame_bytes build_ok @ []"
    "stream cr = frame_bytes (build_hs_init (kex_derive_public C a)) @ frame_bytes (finish_frame C a b isk ipk) @ []"
    using assms(8,9) by simp_all
  obtain ci' where i: "handshake_as_initiator C a ci isk ipk =
      (Inr \<lparr>peer_identity_pk = rpk, k_send = fst (derive_keys C (agreed_secret C a (kex_derive_public C b))),
         k_recv = snd (derive_keys C (agreed_secret C a (kex_derive_public C b))), send_ctr = 0\<rparr>, ci')"
    "tx ci' = tx ci @ frame_bytes (build_hs_init (kex_derive_public C a)) @ frame_bytes (finish_frame C a b isk ipk)"
    using initiator_completes [OF assms(1-3) r(1) s(1) assms(10,12)] by metis
  obtain cr' where "handshake_as_responder C b cr rsk rpk =
      (Inr \<lparr>peer_identity_pk = ipk, k_send = snd (derive_keys C (agreed_secret C b (kex_derive_public C a))),
         k_recv = fst (derive_keys C (agreed_secret C b (kex_derive_public C a))), send_ctr = 0\<rparr>, cr')"
    "tx cr' = tx cr @ frame_bytes (resp_frame C a b rsk rpk) @ frame_bytes build_ok"
    using responder_completes [OF assms(1-3) r(2) s(2) assms(11)] assms(12,13) by metis
  then show ?thesis
    unfolding i(1) assms(8,9) using i(2) assms(6,7,13) by simp
qed

text \<open>
  A small suite for the witnesses: secrets are their own public keys, the exchange is the exclusive
  or, and every signature is accepted.
\<close>

definition xor_suite :: crypto_suite where
  "xor_suite = \<lparr>kex_derive_public = (\<lambda>sk. take 32 (sk @ replicate 32 0)),
     kex_exchange = (\<lambda>sk pk. from_choice (map2 (XOR) (take 32 (sk @ replicate 32 0)) pk) true_choice),
     sig_sign = (\<lambda>sk m. take 64 m @ replicate (64 - length m) 0), sig_verify = (\<lambda>pk m sg. choice_of (sg = take 64 m @ replicate (64 - length m) 0)),
     kdf_hash = (\<lambda>d. d)\<rparr>"

lemma map2_xor_commute: "map2 (XOR) xs ys = map2 (XOR) ys (xs :: bytes)"
  by (induction xs ys rule: list_induct2') (simp_all add: xor.commute)

lemma xor_suite_laws:
  "suite_sizes xor_suite"
  "unwrap_public (sig_verify xor_suite pk m (sig_sign xor_suite sk m))"
  "is_some_public (kex_exchange xor_suite a pk)"
  "kex_exchange xor_suite a (kex_derive_public xor_suite b) = kex_exchange xor_suite b (kex_derive_public xor_suite a)"
  using map2_xor_commute
  by (auto simp: suite_sizes_def xor_suite_def is_some_public_def from_choice_def choice_consts min_def)

definition hs_initiator_conn :: tcp_connection where
  "hs_initiator_conn = idle_conn (replicate 138 1)
     [frame_bytes (resp_frame xor_suite [1] [2] [8] (replicate 32 6)), frame_bytes build_ok]"

definition hs_responder_conn :: tcp_connection where
  "hs_responder_conn = idle_conn (replicate 138 1)
     [frame_bytes (build_hs_init (kex_derive_public xor_suite [1])), frame_bytes (finish_frame xor_suite [1] [2] [7] (replicate 32 5))]"

lemma hs_conns: "roomy_conn 138 hs_initiator_conn" "roomy_conn 138 hs_responder_conn"
  "tx hs_initiator_conn = []" "tx hs_responder_conn = []"
  "stream hs_initiator_conn = frame_bytes (resp_frame xor_suite [1] [2] [8] (replicate 32 6)) @ frame_bytes build_ok"
  "stream hs_responder_conn = frame_bytes (build_hs_init (kex_derive_public xor_suite [1])) @
     frame_bytes (finish_frame xor_suite [1] [2] [7] (replicate 32 5))"
  by (simp_all add: hs_initiator_conn_def hs_responder_conn_def idle_conn_def roomy_conn_def live_def stream_def list_all_iff)

theorem handshake_completes_witness:
  "\<exists>si sr. fst (handshake_as_initiator xor_suite [1] hs_initiator_conn [7] (replicate 32 5)) = Inr si \<and>
     fst (handshake_as_responder xor_suite [2] hs_responder_conn [8] (replicate 32 6)) = Inr sr \<and>
     k_send si = k_recv sr \<and> k_recv si = k_send sr"
proof -
  have l: "length (replicate 32 5 :: bytes) = 32" "length (replicate 32 6 :: bytes) = 32" by simp_all
  from handshake_completes [OF xor_suite_laws(1) l hs_conns xor_suite_laws(2,2,3,4)]
  show ?thesis by auto
qed

text \<open>
  C1. No session without a verified peer: whatever the network delivers, a session is returned only if
  the next incoming frame carried a signature of the peer it names over both ephemeral keys, one of
  them this run's own, the exchange with the peer's ephemeral key was valid, and the directional keys
  are derived from its result, in opposite order at the two ends.
\<close>

theorem session_only_with_verified_peer:
  assumes "handshake_as_initiator C a c isk ipk = (Inr s, c')"
    and "handshake_as_responder C b d rsk rpk = (Inr r, d')"
  shows "(\<exists>resp_pk sg t rest. stream c = frame_bytes (build_hs_resp resp_pk (peer_identity_pk s) sg @ t) @ rest \<and>
      unwrap_public (sig_verify C (peer_identity_pk s) (make_signed_data (kex_derive_public C a) resp_pk) sg) \<and>
      is_some_public (kex_exchange C a resp_pk) \<and>
      (k_send s, k_recv s) = derive_keys C (agreed_secret C a resp_pk)) \<and>
    (\<exists>init_pk sg t t' rest. stream d = frame_bytes (build_hs_init init_pk @ t) @
        frame_bytes (build_hs_finish (peer_identity_pk r) sg @ t') @ rest \<and>
      unwrap_public (sig_verify C (peer_identity_pk r) (make_signed_data init_pk (kex_derive_public C b)) sg) \<and>
      is_some_public (kex_exchange C b init_pk) \<and>
      (k_recv r, k_send r) = derive_keys C (agreed_secret C b init_pk))"
proof
  obtain raw resp ack where i: "parse_hs_resp raw = Some resp"
    "stream c = frame_bytes raw @ frame_bytes ack @ stream c'"
    "unwrap_public (sig_verify C (resp_identity_pk resp)
      (make_signed_data (kex_derive_public C a) (resp_eph_pk resp)) (resp_sig resp))"
    "is_some_public (kex_exchange C a (resp_eph_pk resp))"
    "s = \<lparr>peer_identity_pk = resp_identity_pk resp, k_send = fst (derive_keys C (agreed_secret C a (resp_eph_pk resp))),
      k_recv = snd (derive_keys C (agreed_secret C a (resp_eph_pk resp))), send_ctr = 0\<rparr>"
    using assms(1) by (rule initiator_run)
  obtain t where "raw = build_hs_resp (resp_eph_pk resp) (resp_identity_pk resp) (resp_sig resp) @ t"
    using i(1) unfolding parse_hs_resp_exact by blast
  then show "\<exists>resp_pk sg t rest. stream c = frame_bytes (build_hs_resp resp_pk (peer_identity_pk s) sg @ t) @ rest \<and>
      unwrap_public (sig_verify C (peer_identity_pk s) (make_signed_data (kex_derive_public C a) resp_pk) sg) \<and>
      is_some_public (kex_exchange C a resp_pk) \<and> (k_send s, k_recv s) = derive_keys C (agreed_secret C a resp_pk)"
    using i(2-5) by (intro exI [of _ "resp_eph_pk resp"] exI [of _ "resp_sig resp"] exI [of _ t]
        exI [of _ "frame_bytes ack @ stream c'"]) simp
next
  obtain raw init_pk fraw fin where f: "parse_hs_init raw = Some init_pk" "parse_hs_finish fraw = Some fin"
    "stream d = frame_bytes raw @ frame_bytes fraw @ stream d'"
    "unwrap_public (sig_verify C (fin_identity_pk fin) (make_signed_data init_pk (kex_derive_public C b)) (fin_sig fin))"
    "is_some_public (kex_exchange C b init_pk)"
    "r = \<lparr>peer_identity_pk = fin_identity_pk fin, k_send = snd (derive_keys C (agreed_secret C b init_pk)),
      k_recv = fst (derive_keys C (agreed_secret C b init_pk)), send_ctr = 0\<rparr>"
    using assms(2) by (rule responder_run)
  obtain t t' where "raw = build_hs_init init_pk @ t" "fraw = build_hs_finish (fin_identity_pk fin) (fin_sig fin) @ t'"
    using f(1,2) unfolding parse_hs_init_exact parse_hs_finish_exact by blast
  then show "\<exists>init_pk sg t t' rest. stream d = frame_bytes (build_hs_init init_pk @ t) @
        frame_bytes (build_hs_finish (peer_identity_pk r) sg @ t') @ rest \<and>
      unwrap_public (sig_verify C (peer_identity_pk r) (make_signed_data init_pk (kex_derive_public C b)) sg) \<and>
      is_some_public (kex_exchange C b init_pk) \<and> (k_recv r, k_send r) = derive_keys C (agreed_secret C b init_pk)"
    using f(3-6) by (intro exI [of _ init_pk] exI [of _ "fin_sig fin"] exI [of _ t] exI [of _ t']
        exI [of _ "stream d'"]) simp
qed

theorem session_only_with_verified_peer_witness:
  "\<exists>s c'. handshake_as_initiator xor_suite [1] hs_initiator_conn [7] (replicate 32 5) = (Inr s, c') \<and>
     (\<exists>resp_pk sg. unwrap_public (sig_verify xor_suite (peer_identity_pk s)
        (make_signed_data (kex_derive_public xor_suite [1]) resp_pk) sg))"
proof -
  have l: "length (replicate 32 5 :: bytes) = 32" "length (replicate 32 6 :: bytes) = 32" by simp_all
  have r: "roomy_conn (138 + 0) hs_initiator_conn" "roomy_conn (138 + 0) hs_responder_conn" using hs_conns by simp_all
  have s: "stream hs_initiator_conn = frame_bytes (resp_frame xor_suite [1] [2] [8] (replicate 32 6)) @ frame_bytes build_ok @ []"
    "stream hs_responder_conn = frame_bytes (build_hs_init (kex_derive_public xor_suite [1])) @
       frame_bytes (finish_frame xor_suite [1] [2] [7] (replicate 32 5)) @ []" using hs_conns by simp_all
  obtain x c' where i: "handshake_as_initiator xor_suite [1] hs_initiator_conn [7] (replicate 32 5) = (Inr x, c')"
    using initiator_completes [OF xor_suite_laws(1) l r(1) s(1) xor_suite_laws(2,3)] by metis
  obtain y d' where "handshake_as_responder xor_suite [2] hs_responder_conn [8] (replicate 32 6) = (Inr y, d')"
    using responder_completes [OF xor_suite_laws(1) l r(2) s(2) xor_suite_laws(2,3)] by metis
  from session_only_with_verified_peer [OF i this] i show ?thesis by blast
qed

end
