(* ===== verification/Control.thy ===== *)
theory Control
  imports Cpp_Text
begin

text \<open>
  The control socket of \<open>src/control/control.hpp\<close>: the buffered line reader and the two writers,
  and the escaping that keeps a message on one line: \<open>escape_ctl\<close> of \<open>src/node/node.cpp\<close> and its
  inverse, the \<open>unescape_ctl\<close> of \<open>src/main.cpp\<close>.

  As for the TCP connection, the kernel side of a file descriptor is an explicit environment: the
  segments that \<open>read\<close> will hand out, how much each coming \<open>write\<close> takes, and the text written so
  far. An empty segment, a room of 0 and an exhausted list are return values \<open>\<le> 0\<close>.
\<close>

section \<open>The code\<close>

record ctl_fd =
  fd_in :: "string list"
  fd_room :: "nat list"
  fd_out :: string

definition sys_read :: "nat \<Rightarrow> ctl_fd \<Rightarrow> int \<times> string \<times> ctl_fd" where
  "sys_read len fd =
     (case fd_in fd of
        [] \<Rightarrow> (0, [], fd)
      | s # ss \<Rightarrow> (int (min len (length s)), take len s,
                   fd\<lparr>fd_in := (if length s \<le> len then ss else drop len s # ss)\<rparr>))"

definition sys_write :: "string \<Rightarrow> ctl_fd \<Rightarrow> int \<times> ctl_fd" where
  "sys_write p fd =
     (case fd_room fd of
        [] \<Rightarrow> (-1, fd)
      | r # rs \<Rightarrow> (int (min r (length p)), fd\<lparr>fd_room := rs, fd_out := fd_out fd @ take r p\<rparr>))"

record line_reader =
  buf :: string

definition strip_cr :: "string \<Rightarrow> string" where
  "strip_cr line = (if line \<noteq> [] \<and> last line = CR then butlast line else line)"

function read_line :: "line_reader \<Rightarrow> ctl_fd \<Rightarrow> string option \<times> line_reader \<times> ctl_fd" where
  "read_line r fd =
     (case find_char NL (buf r) of
        Some nl \<Rightarrow> (Some (strip_cr (take nl (buf r))), r\<lparr>buf := drop (nl + 1) (buf r)\<rparr>, fd)
      | None \<Rightarrow>
          let (n, tmp, fd') = sys_read 512 fd
          in if n \<le> 0 then (None, r, fd') else read_line (r\<lparr>buf := buf r @ tmp\<rparr>) fd')"
  by pat_completeness auto
termination
  by (relation "measure (\<lambda>(r, fd). length (concat (fd_in fd)))")
    (auto simp: sys_read_def split: list.splits if_splits)

declare read_line.simps [simp del]

definition ctl_write :: "string \<Rightarrow> ctl_fd \<Rightarrow> bool \<times> ctl_fd" where
  "ctl_write s fd =
     (let line = s @ [NL]; (n, fd) = sys_write line fd in (n = int (length line), fd))"

function ctl_write_raw :: "string \<Rightarrow> ctl_fd \<Rightarrow> ctl_fd" where
  "ctl_write_raw s fd =
     (if s = [] then fd
      else let (n, fd') = sys_write s fd in if n \<le> 0 then fd' else ctl_write_raw (drop (nat n) s) fd')"
  by pat_completeness auto
termination
  by (relation "measure (\<lambda>(s, fd). length s)") (auto simp: sys_write_def split: list.splits)

declare ctl_write_raw.simps [simp del]

definition escape_char :: "char \<Rightarrow> string" where
  "escape_char c =
     (if c = BSL then [BSL, BSL] else if c = NL then [BSL, CHR ''n'']
      else if c = CR then [BSL, CHR ''r''] else [c])"

definition escape_ctl :: "string \<Rightarrow> string" where
  "escape_ctl s = foldl (\<lambda>out c. out @ escape_char c) [] s"

fun unescape_ctl :: "string \<Rightarrow> string" where
  "unescape_ctl [] = []"
| "unescape_ctl [c] = [c]"
| "unescape_ctl (c # d # s) =
     (if c = BSL then
        (if d = CHR ''n'' then NL # unescape_ctl s
         else if d = CHR ''r'' then CR # unescape_ctl s
         else if d = BSL then BSL # unescape_ctl s
         else c # unescape_ctl (d # s))
      else c # unescape_ctl (d # s))"

section \<open>Escaping\<close>

lemma escape_ctl_concat: "escape_ctl s = concat (map escape_char s)"
proof -
  have "foldl (\<lambda>out c. out @ escape_char c) acc s = acc @ concat (map escape_char s)" for acc
    by (induction s arbitrary: acc) auto
  then show ?thesis by (simp add: escape_ctl_def)
qed

lemma unescape_step: "unescape_ctl (escape_char c @ s) = c # unescape_ctl s"
proof (cases s)
  case Nil
  then show ?thesis by (simp add: escape_char_def)
next
  case (Cons d s)
  then show ?thesis by (simp add: escape_char_def)
qed

lemma unescape_escape [simp]: "unescape_ctl (escape_ctl s) = s"
  unfolding escape_ctl_concat by (induction s) (simp_all add: unescape_step)

lemma escape_no_marks [simp]: "NL \<notin> set (escape_ctl s)" "CR \<notin> set (escape_ctl s)"
  unfolding escape_ctl_concat by (auto simp: escape_char_def split: if_splits)

section \<open>Reading lines\<close>

text \<open>The text still to be read, and a descriptor that is not closed before its end.\<close>

definition pending :: "line_reader \<Rightarrow> ctl_fd \<Rightarrow> string" where
  "pending r fd = buf r @ concat (fd_in fd)"

definition open_fd :: "ctl_fd \<Rightarrow> bool" where
  "open_fd fd \<longleftrightarrow> list_all (\<lambda>s. s \<noteq> []) (fd_in fd)"

lemma sys_read_open:
  assumes "open_fd fd" and "concat (fd_in fd) \<noteq> []"
  obtains n tmp fd' where "sys_read 512 fd = (int n, tmp, fd')" "0 < n" "open_fd fd'"
    "concat (fd_in fd) = tmp @ concat (fd_in fd')" "fd_out fd' = fd_out fd" "fd_room fd' = fd_room fd"
proof -
  obtain s ss where fd: "fd_in fd = s # ss" "s \<noteq> []" "list_all (\<lambda>s. s \<noteq> []) ss"
    using assms by (cases "fd_in fd") (auto simp: open_fd_def)
  let ?fd = "fd\<lparr>fd_in := (if length s \<le> 512 then ss else drop 512 s # ss)\<rparr>"
  have "sys_read 512 fd = (int (min 512 (length s)), take 512 s, ?fd)" using fd by (simp add: sys_read_def)
  moreover have "open_fd ?fd" using fd by (simp add: open_fd_def)
  moreover have "concat (fd_in fd) = take 512 s @ concat (fd_in ?fd)" using fd by simp
  ultimately show ?thesis using fd(2) by (intro that [of "min 512 (length s)" "take 512 s" ?fd]) auto
qed

text \<open>One line of a stream, however it is cut into segments.\<close>

lemma read_line_stream:
  assumes "open_fd fd" and "pending r fd = l @ NL # rest" and "NL \<notin> set l"
  shows "\<exists>r' fd'. read_line r fd = (Some (strip_cr l), r', fd') \<and> pending r' fd' = rest \<and>
    open_fd fd' \<and> fd_out fd' = fd_out fd \<and> fd_room fd' = fd_room fd"
  using assms
proof (induction r fd rule: read_line.induct)
  case (1 r fd)
  show ?case
  proof (cases "find_char NL (buf r)")
    case (Some nl)
    then have b: "buf r = take nl (buf r) @ NL # drop (Suc nl) (buf r)" "NL \<notin> set (take nl (buf r))"
      using find_char_SomeD by blast+
    have "take nl (buf r) @ NL # (drop (Suc nl) (buf r) @ concat (fd_in fd)) = pending r fd"
      unfolding pending_def by (subst (3) b(1)) simp
    then have "take nl (buf r) = l \<and> drop (Suc nl) (buf r) @ concat (fd_in fd) = rest"
      unfolding "1.prems"(2) using b(2) "1.prems"(3) by (rule split_at_mark)
    then show ?thesis using Some "1.prems"(1) by (subst read_line.simps) (simp add: pending_def)
  next
    case None
    then have "NL \<notin> set (buf r)" unfolding find_char_None .
    moreover have "NL \<in> set (pending r fd)" unfolding "1.prems"(2) by simp
    ultimately have "NL \<in> set (concat (fd_in fd))" unfolding pending_def by auto
    then have "concat (fd_in fd) \<noteq> []" by (metis empty_iff empty_set)
    then obtain n tmp fd' where n: "sys_read 512 fd = (int n, tmp, fd')" "0 < n" "open_fd fd'"
      "concat (fd_in fd) = tmp @ concat (fd_in fd')" "fd_out fd' = fd_out fd" "fd_room fd' = fd_room fd"
      using sys_read_open "1.prems"(1) by metis
    have "pending (r\<lparr>buf := buf r @ tmp\<rparr>) fd' = l @ NL # rest"
      using "1.prems"(2) n(4) by (simp add: pending_def)
    from "1.IH" [OF None n(1) [symmetric] refl refl _ n(3) this "1.prems"(3)] n(2)
    show ?thesis using None n by (subst read_line.simps) simp
  qed
qed

lemma strip_cr_id: "CR \<notin> set l \<Longrightarrow> strip_cr l = l"
  by (auto simp: strip_cr_def dest: last_in_set)

section \<open>Writing\<close>

text \<open>A descriptor whose next \<open>n\<close> writes take everything.\<close>

definition roomy_fd :: "nat \<Rightarrow> ctl_fd \<Rightarrow> bool" where
  "roomy_fd n fd \<longleftrightarrow> n \<le> length (fd_room fd) \<and> list_all (\<lambda>r. 0 < r) (fd_room fd)"

lemma ctl_write_raw_room:
  assumes "roomy_fd (length s) fd"
  shows "fd_out (ctl_write_raw s fd) = fd_out fd @ s \<and> fd_in (ctl_write_raw s fd) = fd_in fd"
  using assms
proof (induction s fd rule: ctl_write_raw.induct)
  case (1 s fd)
  show ?case
  proof (cases "s = []")
    case True
    then show ?thesis by (simp add: ctl_write_raw.simps)
  next
    case False
    then obtain r rs where r: "fd_room fd = r # rs" "0 < r" "list_all (\<lambda>r. 0 < r) rs"
      using "1.prems" by (cases "fd_room fd") (auto simp: roomy_fd_def)
    let ?fd = "fd\<lparr>fd_room := rs, fd_out := fd_out fd @ take r s\<rparr>" and ?n = "min r (length s)"
    have w: "sys_write s fd = (int ?n, ?fd)" using r(1) by (simp add: sys_write_def)
    have "roomy_fd (length (drop ?n s)) ?fd"
      using "1.prems" r False by (auto simp: roomy_fd_def)
    from "1.IH" [OF False w [symmetric] refl] this r(2) False
    have "fd_out (ctl_write_raw (drop ?n s) ?fd) = fd_out ?fd @ drop ?n s \<and>
        fd_in (ctl_write_raw (drop ?n s) ?fd) = fd_in ?fd" by simp
    moreover have "take r s @ drop ?n s = s" by (simp add: min_def)
    moreover have "ctl_write_raw s fd = ctl_write_raw (drop ?n s) ?fd"
      using False r(2) by (subst ctl_write_raw.simps) (auto simp: w min_def)
    ultimately show ?thesis by simp
  qed
qed

lemma ctl_write_raw_in [simp]: "fd_in (ctl_write_raw s fd) = fd_in fd"
proof (induction s fd rule: ctl_write_raw.induct)
  case (1 s fd)
  have "fd_in (snd (sys_write s fd)) = fd_in fd" by (simp add: sys_write_def split: list.splits)
  then show ?case using "1.IH" by (subst ctl_write_raw.simps) (auto simp: split_beta)
qed

text \<open>Every line read takes its terminator from the stream.\<close>

lemma read_line_shrinks:
  "read_line r fd = (Some l, r', fd') \<Longrightarrow> length (pending r' fd') < length (pending r fd)"
proof (induction r fd rule: read_line.induct)
  case (1 r fd)
  show ?case
  proof (cases "find_char NL (buf r)")
    case (Some nl)
    then have "nl < length (buf r)" using find_char_SomeD by blast
    then show ?thesis using Some "1.prems" by (subst (asm) read_line.simps) (auto simp: pending_def)
  next
    case None
    obtain n tmp fd2 where n: "sys_read 512 fd = (n, tmp, fd2)" by (metis prod.exhaust)
    have "concat (fd_in fd) = tmp @ concat (fd_in fd2)"
      using n by (auto simp: sys_read_def split: list.splits if_splits)
    moreover have "\<not> n \<le> 0" "read_line (r\<lparr>buf := buf r @ tmp\<rparr>) fd2 = (Some l, r', fd')"
      using "1.prems" None n by (subst (asm) read_line.simps, simp split: if_splits)+
    ultimately show ?thesis using "1.IH" [OF None n [symmetric] refl refl] by (simp add: pending_def)
  qed
qed

end
