(* ===== verification/Node.thy ===== *)
theory Node
  imports File_Transfer Handshake Control
begin

text \<open>
  The node of \<open>src/node/node.hpp\<close> and \<open>src/node/node.cpp\<close>: the peer connections, the exchange with
  the coordinator, the receive loop with its ring buffer of messages, broadcasting, and the
  control commands of the daemon.

  The \<open>shared_ptr\<close>s of the code are numbers: \<open>n_heap\<close> maps them to the objects they point to,
  \<open>n_peers\<close> is the vector of pointers, and a copy of that vector (the \<open>snap\<close> of a broadcast) shares
  the objects. Every thread holds a mutex while it touches shared data, so the operations below
  are the atomic steps of the threads. Diagnostics on the console are not modelled.

  Parameters: the random transfer identifier drawn for a peer (\<open>tid\<close>), the clock (\<open>now\<close>), the
  file system (\<open>fs\<close>, None for a file that cannot be opened) and \<open>tcp_connect\<close> (\<open>dial\<close>).
\<close>

section \<open>Data\<close>

record node_config =
  cfg_listen_port :: u16
  cfg_coordinator_host :: string
  cfg_coordinator_port :: u16

record peer_conn =
  pc_sess :: session
  pc_conn :: tcp_connection
  pc_listen_port :: u16
  pc_chunks :: transfer_registry

definition new_peer_conn :: "session \<Rightarrow> tcp_connection \<Rightarrow> u16 \<Rightarrow> peer_conn" where
  "new_peer_conn s c lport =
     \<lparr>pc_sess = s, pc_conn = c, pc_listen_port = lport, pc_chunks = (\<lambda>_. None)\<rparr>"

definition send_msg :: "bytes \<Rightarrow> peer_conn \<Rightarrow> bool \<times> peer_conn" where
  "send_msg data pc =
     (let (ok, s, c) = session_send (pc_sess pc) (pc_conn pc) data
      in (ok, pc\<lparr>pc_sess := s, pc_conn := c\<rparr>))"

definition send_chunked_msg :: "u32 \<Rightarrow> bytes \<Rightarrow> nat \<Rightarrow> peer_conn \<Rightarrow> bool \<times> peer_conn" where
  "send_chunked_msg tid data chunk_size pc =
     (let (sent, s, c) = send_chunked tid (pc_sess pc) (pc_conn pc) data chunk_size
      in (sent > 0, pc\<lparr>pc_sess := s, pc_conn := c\<rparr>))"

definition recv_msg :: "peer_conn \<Rightarrow> bytes option \<times> peer_conn" where
  "recv_msg pc = (let (m, c) = session_recv (pc_sess pc) (pc_conn pc) in (m, pc\<lparr>pc_conn := c\<rparr>))"

record node =
  n_cfg :: node_config
  n_isk :: bytes
  n_ipk :: bytes
  n_heap :: "nat \<rightharpoonup> peer_conn"
  n_peers :: "nat list"
  n_msgs :: "(string \<times> string) list"

definition new_node :: "node_config \<Rightarrow> bytes \<Rightarrow> bytes \<Rightarrow> node" where
  "new_node cfg identity_sk identity_pk =
     \<lparr>n_cfg = cfg, n_isk = identity_sk, n_ipk = identity_pk, n_heap = (\<lambda>_. None), n_peers = [], n_msgs = []\<rparr>"

abbreviation deref :: "node \<Rightarrow> nat \<Rightarrow> peer_conn" where
  "deref n p \<equiv> the (n_heap n p)"

definition assign_obj :: "nat \<Rightarrow> peer_conn \<Rightarrow> node \<Rightarrow> node" where
  "assign_obj p pc n = n\<lparr>n_heap := (n_heap n)(p \<mapsto> pc)\<rparr>"

section \<open>The coordinator's clients\<close>

type_synonym dialer = "string \<Rightarrow> u16 \<Rightarrow> tcp_connection option"

definition peers_reply :: "bytes option \<Rightarrow> peer_info list" where
  "peers_reply list_frame =
     (case list_frame of
        None \<Rightarrow> []
      | Some f \<Rightarrow> (case parse_peer_list f of Some peers \<Rightarrow> peers | None \<Rightarrow> []))"

text \<open>The results of \<open>send_frame\<close> are ignored.\<close>

definition coordinator_register_and_get :: "dialer \<Rightarrow> node_config \<Rightarrow> bytes \<Rightarrow> peer_info list" where
  "coordinator_register_and_get dial cfg identity_pk =
     (case dial (cfg_coordinator_host cfg) (cfg_coordinator_port cfg) of
        None \<Rightarrow> []
      | Some c \<Rightarrow>
          let (_, c) = send_frame (build_register (cfg_listen_port cfg) identity_pk) c;
              (ok_frame, c) = recv_frame c
          in if ok_frame = None \<or> get_type (the ok_frame) \<noteq> Ok_msg then []
             else let (_, c) = send_frame build_get_peers c;
                      (list_frame, c) = recv_frame c
                  in peers_reply list_frame)"

definition coordinator_get_peers :: "dialer \<Rightarrow> node_config \<Rightarrow> peer_info list" where
  "coordinator_get_peers dial cfg =
     (case dial (cfg_coordinator_host cfg) (cfg_coordinator_port cfg) of
        None \<Rightarrow> []
      | Some c \<Rightarrow>
          let (_, c) = send_frame build_get_peers c;
              (list_frame, c) = recv_frame c
          in peers_reply list_frame)"

text \<open>The peers \<open>run\<close> and \<open>run_daemon\<close> connect to at the start, and those the refresh adds.\<close>

definition startup_targets :: "node \<Rightarrow> peer_info list \<Rightarrow> peer_info list" where
  "startup_targets n peers = filter (\<lambda>pi. pubkey pi \<noteq> n_ipk n) peers"

definition refresh_targets :: "node \<Rightarrow> peer_info list \<Rightarrow> peer_info list" where
  "refresh_targets n fresh =
     filter (\<lambda>pi. pubkey pi \<noteq> n_ipk n \<and>
       \<not> list_ex (\<lambda>pc. peer_identity_pk (pc_sess (deref n pc)) = pubkey pi) (n_peers n)) fresh"

section \<open>Connections\<close>

definition add_peer :: "nat \<Rightarrow> node \<Rightarrow> node" where
  "add_peer pc n = n\<lparr>n_peers := n_peers n @ [pc]\<rparr>"

definition remove_peer :: "nat \<Rightarrow> node \<Rightarrow> node" where
  "remove_peer raw n = n\<lparr>n_peers := filter (\<lambda>p. p \<noteq> raw) (n_peers n)\<rparr>"

fun listen_port_of :: "bytes \<Rightarrow> u16 \<Rightarrow> peer_info list \<Rightarrow> u16" where
  "listen_port_of pk dflt [] = dflt"
| "listen_port_of pk dflt (pi # ps) = (if pubkey pi = pk then port pi else listen_port_of pk dflt ps)"

text \<open>
  \<open>setup_peer\<close> up to \<open>add_peer\<close>; \<open>p\<close> is the address \<open>make_shared\<close> returns. The receive loop and
  \<open>remove_peer\<close> follow as steps of their own.
\<close>

definition setup_peer ::
  "crypto_suite \<Rightarrow> bytes \<Rightarrow> dialer \<Rightarrow> nat \<Rightarrow> tcp_connection \<Rightarrow> bool \<Rightarrow> u16 \<Rightarrow> node \<Rightarrow> hs_error + node" where
  "setup_peer C eph_sk dial p c as_initiator peer_listen_port n =
     (let (sess_opt, c) =
            (if as_initiator then handshake_as_initiator C eph_sk c (n_isk n) (n_ipk n)
             else handshake_as_responder C eph_sk c (n_isk n) (n_ipk n))
      in case sess_opt of
           Inl e \<Rightarrow> Inl e
         | Inr s \<Rightarrow>
             let lport = (if peer_listen_port = 0
                          then listen_port_of (peer_identity_pk s) 0 (coordinator_get_peers dial (n_cfg n))
                          else peer_listen_port)
             in Inr (add_peer p (assign_obj p (new_peer_conn s c lport) n)))"

text \<open>
  The thread bodies that lead to \<open>setup_peer\<close>: \<open>connect_to\<close> for a peer the coordinator named (\<open>ntop\<close>
  is \<open>inet_ntop\<close>), and the one \<open>accept_loop\<close> starts for an incoming connection. A failed handshake
  or connection leaves the node as it is.
\<close>

definition connect_to ::
  "crypto_suite \<Rightarrow> bytes \<Rightarrow> dialer \<Rightarrow> (bytes \<Rightarrow> string) \<Rightarrow> nat \<Rightarrow> peer_info \<Rightarrow> node \<Rightarrow> node" where
  "connect_to C eph_sk dial ntop p pi n =
     (case dial (ntop (ip pi)) (port pi) of
        None \<Rightarrow> n
      | Some c \<Rightarrow> (case setup_peer C eph_sk dial p c True (port pi) n of Inl _ \<Rightarrow> n | Inr n' \<Rightarrow> n'))"

definition accept_connection ::
  "crypto_suite \<Rightarrow> bytes \<Rightarrow> dialer \<Rightarrow> nat \<Rightarrow> tcp_connection \<Rightarrow> node \<Rightarrow> node" where
  "accept_connection C eph_sk dial p c n =
     (case setup_peer C eph_sk dial p c False 0 n of Inl _ \<Rightarrow> n | Inr n' \<Rightarrow> n')"

section \<open>The receive loop\<close>

definition push_message :: "string \<times> string \<Rightarrow> node \<Rightarrow> node" where
  "push_message m n =
     (let q = n_msgs n;
          q = (if 200 \<le> length q then tl q else q)
      in n\<lparr>n_msgs := q @ [m]\<rparr>)"

text \<open>What the loop does with a message; the text is None while a transfer is incomplete.\<close>

definition take_message :: "int \<Rightarrow> bytes \<Rightarrow> peer_conn \<Rightarrow> string option \<times> peer_conn" where
  "take_message now msg pc =
     (case parse_chunk_frame msg of
        Some ci \<Rightarrow>
          let (assembled, reg) = registry_ingest now (ci_transfer_id ci) (ci_index ci) (ci_total ci)
                (ci_data ci) (pc_chunks pc)
          in (map_option text_of assembled, pc\<lparr>pc_chunks := reg\<rparr>)
      | None \<Rightarrow> (Some (text_of msg), pc))"

text \<open>One iteration of \<open>recv_loop\<close>; the flag is False when it leaves the loop.\<close>

definition recv_iteration :: "int \<Rightarrow> nat \<Rightarrow> node \<Rightarrow> bool \<times> node" where
  "recv_iteration now p n =
     (case recv_msg (deref n p) of
        (None, pc) \<Rightarrow> (False, assign_obj p pc n)
      | (Some msg, pc) \<Rightarrow>
          let (text, pc) = take_message now msg pc;
              n = assign_obj p pc n
          in case text of
               None \<Rightarrow> (True, n)
             | Some t \<Rightarrow> (True, push_message (pk_hex (peer_identity_pk (pc_sess pc)), t) n))"

section \<open>Sending\<close>

text \<open>The choice between one message and chunks that every sender makes.\<close>

definition send_text :: "u32 \<Rightarrow> bytes \<Rightarrow> peer_conn \<Rightarrow> bool \<times> peer_conn" where
  "send_text tid data pc =
     (if length data > CHUNK_PAYLOAD_SIZE then send_chunked_msg tid data CHUNK_PAYLOAD_SIZE pc
      else send_msg data pc)"

definition send_to :: "u32 \<Rightarrow> bytes \<Rightarrow> nat \<Rightarrow> node \<Rightarrow> bool \<times> node" where
  "send_to tid data p n = (let (ok, pc) = send_text tid data (deref n p) in (ok, assign_obj p pc n))"

text \<open>The loop over the snapshot, with the number of peers that took the message.\<close>

fun send_snap :: "(nat \<Rightarrow> u32) \<Rightarrow> bytes \<Rightarrow> nat list \<Rightarrow> nat \<Rightarrow> node \<Rightarrow> nat \<times> node" where
  "send_snap tid data [] count n = (count, n)"
| "send_snap tid data (p # ps) count n =
     (let (ok, n) = send_to (tid p) data p n
      in send_snap tid data ps (if ok then count + 1 else count) n)"

definition broadcast :: "(nat \<Rightarrow> u32) \<Rightarrow> bytes \<Rightarrow> node \<Rightarrow> node" where
  "broadcast tid msg n = snd (send_snap tid msg (n_peers n) 0 n)"

text \<open>The loop of \<open>run\<close> over standard input; \<open>tids k\<close> are the identifiers of the \<open>k\<close>-th line.\<close>

fun interactive_input :: "(nat \<Rightarrow> nat \<Rightarrow> u32) \<Rightarrow> nat \<Rightarrow> string list \<Rightarrow> node \<Rightarrow> node" where
  "interactive_input tids k [] n = n"
| "interactive_input tids k (line # input) n =
     (if line = [] then interactive_input tids (k + 1) input n
      else interactive_input tids (k + 1) input (broadcast (tids k) (bytes_of line) n))"

section \<open>Control commands\<close>

definition list_line :: "node \<Rightarrow> nat \<Rightarrow> nat \<Rightarrow> string" where
  "list_line n i p =
     (let lp = pc_listen_port (deref n p);
          prt = (if lp \<noteq> 0 then to_string (unat lp) else ''?'')
      in to_string (i + 1) @ '' '' @ pk_hex (peer_identity_pk (pc_sess (deref n p)))
           @ '' '' @ peer_ip (pc_conn (deref n p)) @ '':'' @ prt @ [NL])"

definition ctl_list :: "ctl_fd \<Rightarrow> node \<Rightarrow> ctl_fd" where
  "ctl_list fd n =
     ctl_write_raw (''PEERS '' @ to_string (length (n_peers n)) @ [NL]
       @ concat (map (\<lambda>i. list_line n i (n_peers n ! i)) [0..<length (n_peers n)])) fd"

definition reply :: "string \<Rightarrow> ctl_fd \<Rightarrow> ctl_fd" where
  "reply s fd = snd (ctl_write s fd)"

definition ctl_send :: "(nat \<Rightarrow> u32) \<Rightarrow> ctl_fd \<Rightarrow> string \<Rightarrow> node \<Rightarrow> ctl_fd \<times> node" where
  "ctl_send tid fd args n =
     (case find_char SPC args of
        None \<Rightarrow> (reply ''ERR usage: SEND <idx> <message>'' fd, n)
      | Some sp \<Rightarrow>
     (case stoi (take sp args) of
        Inl _ \<Rightarrow> (reply ''ERR invalid index'' fd, n)
      | Inr idx \<Rightarrow>
          let text = drop (sp + 1) args
          in if idx < 1 \<or> nat idx > length (n_peers n)
             then (reply ''ERR peer index out of range'' fd, n)
             else let (ok, n) = send_to (tid (n_peers n ! nat (idx - 1))) (bytes_of text) (n_peers n ! nat (idx - 1)) n
                  in (reply (if ok then ''OK'' else ''ERR send failed'') fd, n)))"

definition ctl_send_file ::
  "(string \<rightharpoonup> bytes) \<Rightarrow> (nat \<Rightarrow> u32) \<Rightarrow> ctl_fd \<Rightarrow> string \<Rightarrow> node \<Rightarrow> ctl_fd \<times> node" where
  "ctl_send_file fs tid fd args n =
     (case find_char SPC args of
        None \<Rightarrow> (reply ''ERR usage: SENDFILE <idx> <path>'' fd, n)
      | Some sp \<Rightarrow>
     (case stoi (take sp args) of
        Inl _ \<Rightarrow> (reply ''ERR invalid index'' fd, n)
      | Inr idx \<Rightarrow>
          let path = drop (sp + 1) args
          in case fs path of
               None \<Rightarrow> (reply (''ERR cannot open: '' @ path) fd, n)
             | Some data \<Rightarrow>
                 if data = [] then (reply ''ERR file is empty'' fd, n)
                 else if idx < 1 \<or> nat idx > length (n_peers n)
                 then (reply ''ERR peer index out of range'' fd, n)
                 else let p = n_peers n ! nat (idx - 1);
                          (ok, pc) = send_chunked_msg (tid p) data CHUNK_PAYLOAD_SIZE (deref n p)
                      in (reply (if ok then ''OK '' @ to_string (length data) @ '' bytes'' else ''ERR send failed'') fd,
                          assign_obj p pc n)))"

definition ctl_broadcast :: "(nat \<Rightarrow> u32) \<Rightarrow> ctl_fd \<Rightarrow> string \<Rightarrow> node \<Rightarrow> ctl_fd \<times> node" where
  "ctl_broadcast tid fd text n =
     (let (count, n) = send_snap tid (bytes_of text) (n_peers n) 0 n
      in (reply (''OK '' @ to_string count) fd, n))"

definition msg_line :: "string \<times> string \<Rightarrow> string" where
  "msg_line m = fst m @ '' '' @ escape_ctl (snd m) @ [NL]"

definition recv_response :: "(string \<times> string) list \<Rightarrow> string" where
  "recv_response msgs = ''MSGS '' @ to_string (length msgs) @ [NL] @ concat (map msg_line msgs)"

definition ctl_recv :: "ctl_fd \<Rightarrow> node \<Rightarrow> ctl_fd \<times> node" where
  "ctl_recv fd n =
     (let msgs = n_msgs n; n = n\<lparr>n_msgs := []\<rparr> in (ctl_write_raw (recv_response msgs) fd, n))"

text \<open>One iteration of \<open>handle_control_client\<close>; the flag is False at \<open>QUIT\<close>.\<close>

definition control_command ::
  "(string \<rightharpoonup> bytes) \<Rightarrow> (nat \<Rightarrow> u32) \<Rightarrow> string \<Rightarrow> ctl_fd \<Rightarrow> node \<Rightarrow> bool \<times> ctl_fd \<times> node" where
  "control_command fs tid cmd fd n =
     (if cmd = ''LIST'' then (True, ctl_list fd n, n)
      else if length cmd > 5 \<and> take 5 cmd = ''SEND '' then (True, ctl_send tid fd (drop 5 cmd) n)
      else if length cmd > 10 \<and> take 10 cmd = ''BROADCAST '' then (True, ctl_broadcast tid fd (drop 10 cmd) n)
      else if length cmd > 9 \<and> take 9 cmd = ''SENDFILE '' then (True, ctl_send_file fs tid fd (drop 9 cmd) n)
      else if cmd = ''RECV'' then (True, ctl_recv fd n)
      else if cmd = ''QUIT'' then (False, fd, n)
      else (True, fd, n))"

section \<open>The control client loop\<close>

lemma reply_in [simp]: "fd_in (reply s fd) = fd_in fd"
  by (simp add: reply_def ctl_write_def sys_write_def Let_def split: list.splits)

lemma control_command_in:
  "control_command fs tid cmd fd n = (go, fd', n') \<Longrightarrow> fd_in fd' = fd_in fd"
  by (auto simp: control_command_def ctl_list_def ctl_send_def ctl_broadcast_def ctl_send_file_def ctl_recv_def
      Let_def split: if_splits option.splits sum.splits prod.splits)

lemma control_loop_shrinks:
  "read_line r fd = (Some cmd, r', fd') \<Longrightarrow> control_command fs tid cmd fd' n = (go, fd'', n') \<Longrightarrow>
   length (pending r' fd'') < length (pending r fd)"
  using read_line_shrinks [of r fd cmd r' fd'] control_command_in [of fs tid cmd fd' n go fd'' n']
  by (simp add: pending_def)

text \<open>\<open>tids k\<close> are the random identifiers of the \<open>k\<close>-th command.\<close>

function handle_control_client ::
  "(string \<rightharpoonup> bytes) \<Rightarrow> (nat \<Rightarrow> nat \<Rightarrow> u32) \<Rightarrow> nat \<Rightarrow> line_reader \<Rightarrow> ctl_fd \<Rightarrow> node \<Rightarrow> ctl_fd \<times> node" where
  "handle_control_client fs tids k r fd n =
     (case read_line r fd of
        (None, r', fd') \<Rightarrow> (fd', n)
      | (Some cmd, r', fd') \<Rightarrow>
          (case control_command fs (tids k) cmd fd' n of
             (go, fd'', n') \<Rightarrow>
               if go then handle_control_client fs tids (Suc k) r' fd'' n' else (fd'', n')))"
  by pat_completeness auto
termination
  by (relation "measure (\<lambda>(fs, tids, k, r, fd, n). length (pending r fd))")
    (auto dest!: control_loop_shrinks [OF sym sym])

declare handle_control_client.simps [simp del]

section \<open>The node as a state machine\<close>

text \<open>
  One step is one critical section of one of the threads: a connection that came up, one
  iteration of a receive loop, the end of a receive loop, a broadcast, or a control command.
\<close>

inductive node_step :: "node \<Rightarrow> node \<Rightarrow> bool" where
  connected: "n_heap n p = None \<Longrightarrow> setup_peer C eph_sk dial p c as_initiator lport n = Inr n' \<Longrightarrow> node_step n n'"
| received: "n_heap n p \<noteq> None \<Longrightarrow> recv_iteration now p n = (True, n') \<Longrightarrow> node_step n n'"
| disconnected: "n_heap n p \<noteq> None \<Longrightarrow> recv_iteration now p n = (False, n') \<Longrightarrow> node_step n (remove_peer p n')"
| broadcasted: "node_step n (broadcast tid msg n)"
| commanded: "control_command fs tid cmd fd n = (go, fd', n') \<Longrightarrow> node_step n n'"

inductive_cases node_stepE: "node_step n n'"

definition wf_msg :: "string \<times> string \<Rightarrow> bool" where
  "wf_msg m \<longleftrightarrow> length (fst m) = 8 \<and> NL \<notin> set (fst m) \<and> CR \<notin> set (fst m) \<and> SPC \<notin> set (fst m)"

definition node_inv :: "node \<Rightarrow> bool" where
  "node_inv n \<longleftrightarrow> distinct (n_peers n) \<and> set (n_peers n) \<subseteq> dom (n_heap n) \<and>
     length (n_msgs n) \<le> 200 \<and> list_all wf_msg (n_msgs n) \<and>
     (\<forall>p pc. n_heap n p = Some pc \<longrightarrow> registry_inv (pc_chunks pc))"

named_theorems node_fields \<open>which fields of a node an operation leaves alone\<close>

lemma assign_obj_fields [simp, node_fields]:
  "n_peers (assign_obj p pc n) = n_peers n" "n_msgs (assign_obj p pc n) = n_msgs n"
  "n_heap (assign_obj p pc n) = (n_heap n)(p \<mapsto> pc)" "n_ipk (assign_obj p pc n) = n_ipk n"
  by (simp_all add: assign_obj_def)

lemma push_message_fields [simp, node_fields]:
  "n_peers (push_message m n) = n_peers n" "n_heap (push_message m n) = n_heap n"
  by (simp_all add: push_message_def Let_def)

lemma assign_obj_inv:
  "node_inv n \<Longrightarrow> registry_inv (pc_chunks pc) \<Longrightarrow> node_inv (assign_obj p pc n)"
  unfolding node_inv_def by auto

lemma push_message_inv: "node_inv n \<Longrightarrow> wf_msg m \<Longrightarrow> node_inv (push_message m n)"
  by (auto simp: node_inv_def push_message_def Let_def list_all_iff dest: list.set_sel(2) [rotated])

lemma wf_msg_pk_hex [simp]: "wf_msg (pk_hex pk, t)"
  by (simp add: wf_msg_def)

lemma send_text_chunks [simp]: "pc_chunks (snd (send_text tid data pc)) = pc_chunks pc"
  by (simp add: send_text_def send_chunked_msg_def send_msg_def split_beta)

lemma recv_msg_chunks: "recv_msg pc = (m, pc') \<Longrightarrow> pc_chunks pc' = pc_chunks pc \<and> pc_sess pc' = pc_sess pc"
  by (auto simp: recv_msg_def split: prod.splits)

lemma take_message_inv:
  "registry_inv (pc_chunks pc) \<Longrightarrow> registry_inv (pc_chunks (snd (take_message now msg pc)))"
  using registry_inv_ingest by (fastforce simp: take_message_def split_beta split: option.splits)

lemma inv_heap: "node_inv n \<Longrightarrow> n_heap n p \<noteq> None \<Longrightarrow> registry_inv (pc_chunks (deref n p))"
  by (auto simp: node_inv_def)

lemma send_to_inv:
  assumes "node_inv n" and "n_heap n p \<noteq> None"
  shows "node_inv (snd (send_to tid data p n)) \<and> n_peers (snd (send_to tid data p n)) = n_peers n \<and>
    dom (n_heap (snd (send_to tid data p n))) = dom (n_heap n)"
  using assms inv_heap [OF assms] by (auto simp: send_to_def split_beta intro!: assign_obj_inv)

lemma send_snap_inv:
  "node_inv n \<Longrightarrow> set ps \<subseteq> dom (n_heap n) \<Longrightarrow> node_inv (snd (send_snap tid data ps count n))"
proof (induction ps arbitrary: count n)
  case Nil
  then show ?case by simp
next
  case (Cons p ps)
  then have p: "n_heap n p \<noteq> None" by auto
  let ?n = "snd (send_to (tid p) data p n)"
  have "node_inv ?n" "dom (n_heap ?n) = dom (n_heap n)" using send_to_inv [OF Cons.prems(1) p] by blast+
  then have "node_inv (snd (send_snap tid data ps c ?n))" for c
    using Cons by auto
  then show ?case by (simp add: split_beta)
qed


lemma recv_iteration_inv:
  assumes "node_inv n" and "n_heap n p \<noteq> None" and "recv_iteration now p n = (go, n')"
  shows "node_inv n' \<and> n_peers n' = n_peers n"
proof -
  obtain m pc where m: "recv_msg (deref n p) = (m, pc)" by (metis prod.exhaust)
  then have r: "registry_inv (pc_chunks pc)" using recv_msg_chunks inv_heap [OF assms(1,2)] by fastforce
  show ?thesis
  proof (cases m)
    case None
    then show ?thesis using assms m r by (auto simp: recv_iteration_def intro: assign_obj_inv)
  next
    case (Some msg)
    obtain t pc' where t: "take_message now msg pc = (t, pc')" by (metis prod.exhaust)
    then have "registry_inv (pc_chunks pc')" using take_message_inv [OF r, of now msg] by simp
    then have "node_inv (assign_obj p pc' n)" using assms(1) by (intro assign_obj_inv)
    then show ?thesis
      using assms(3) m t Some by (auto simp: recv_iteration_def Let_def intro: push_message_inv split: option.splits)
  qed
qed

lemma nth_peer_in_heap: "node_inv n \<Longrightarrow> i < length (n_peers n) \<Longrightarrow> n_heap n (n_peers n ! i) \<noteq> None"
  using nth_mem by (fastforce simp: node_inv_def)

lemma indexed_peer:
  "node_inv n \<Longrightarrow> \<not> idx < 1 \<Longrightarrow> \<not> length (n_peers n) < nat idx \<Longrightarrow>
     \<exists>pc. n_heap n (n_peers n ! nat (idx - 1)) = Some pc"
  using nth_peer_in_heap [of n "nat (idx - 1)"] by fastforce

lemma ctl_send_inv: "node_inv n \<Longrightarrow> node_inv (snd (ctl_send tid fd args n))"
  by (auto simp: ctl_send_def Let_def split_beta indexed_peer split: option.splits sum.splits
      intro!: send_to_inv [THEN conjunct1])

lemma send_chunked_inv:
  "node_inv n \<Longrightarrow> n_heap n p \<noteq> None \<Longrightarrow>
     node_inv (assign_obj p (snd (send_chunked_msg t d cs (deref n p))) n)"
  using inv_heap [of n p] by (intro assign_obj_inv) (simp_all add: send_chunked_msg_def split_beta)

lemma ctl_send_file_inv: "node_inv n \<Longrightarrow> node_inv (snd (ctl_send_file fs tid fd args n))"
  by (auto simp: ctl_send_file_def Let_def split_beta indexed_peer split: option.splits sum.splits
      intro!: send_chunked_inv)

lemma control_command_inv:
  assumes "node_inv n" and "control_command fs tid cmd fd n = (go, fd', n')"
  shows "node_inv n'"
proof -
  have "node_inv (snd (ctl_broadcast tid fd t n))" for t
    using send_snap_inv [OF assms(1)] assms(1) by (simp add: ctl_broadcast_def split_beta node_inv_def [of n])
  moreover have "node_inv (snd (ctl_recv fd n))"
    using assms(1) by (auto simp: ctl_recv_def Let_def node_inv_def)
  moreover have "n' = snd (snd (control_command fs tid cmd fd n))" using assms(2) by simp
  ultimately show ?thesis
    using assms(1) ctl_send_inv ctl_send_file_inv by (simp add: control_command_def)
qed

lemma setup_peer_inv:
  assumes "node_inv n" and "n_heap n p = None" and "setup_peer C eph_sk dial p c i lport n = Inr n'"
  shows "node_inv n'"
proof -
  obtain s c' l where n': "n' = add_peer p (assign_obj p (new_peer_conn s c' l) n)"
    using assms(3) by (auto simp: setup_peer_def Let_def split: prod.splits sum.splits)
  have "registry_inv (pc_chunks (new_peer_conn s c' l))"
    by (simp add: new_peer_conn_def registry_inv_def)
  from assign_obj_inv [OF assms(1) this] have "node_inv (assign_obj p (new_peer_conn s c' l) n)" .
  moreover have "p \<notin> set (n_peers n)" using assms(1,2) by (auto simp: node_inv_def)
  ultimately show ?thesis unfolding n' by (auto simp: node_inv_def add_peer_def)
qed

lemma remove_peer_inv: "node_inv n \<Longrightarrow> node_inv (remove_peer p n)"
  by (auto simp: node_inv_def remove_peer_def)

lemma node_step_inv: "node_step n n' \<Longrightarrow> node_inv n \<Longrightarrow> node_inv n'"
proof (induction rule: node_step.induct)
  case (connected n p C eph_sk dial c as_initiator lport n')
  then show ?case by (blast intro: setup_peer_inv)
next
  case (received n p now n')
  then show ?case using recv_iteration_inv by blast
next
  case (disconnected n p now n')
  then show ?case using recv_iteration_inv remove_peer_inv by blast
next
  case (broadcasted n tid msg)
  then show ?case using send_snap_inv by (simp add: broadcast_def node_inv_def [of n])
next
  case (commanded fs tid cmd fd n go fd' n')
  then show ?case using control_command_inv by blast
qed

text \<open>The thread bodies are steps of the machine.\<close>

lemma connect_to_step: "n_heap n p = None \<Longrightarrow> connect_to C eph_sk dial ntop p pi n = n \<or> node_step n (connect_to C eph_sk dial ntop p pi n)"
  by (auto simp: connect_to_def split: option.splits sum.splits intro: connected)

lemma accept_connection_step:
  "n_heap n p = None \<Longrightarrow> accept_connection C eph_sk dial p c n = n \<or> node_step n (accept_connection C eph_sk dial p c n)"
  by (auto simp: accept_connection_def split: sum.splits intro: connected)

lemma interactive_input_steps: "rtranclp node_step n (interactive_input tids k input n)"
proof (induction tids k input n rule: interactive_input.induct)
  case (2 tids k line input n)
  then show ?case by (auto intro: converse_rtranclp_into_rtranclp broadcasted)
qed simp

lemma new_node_inv: "node_inv (new_node cfg sk pk)"
  by (simp add: node_inv_def new_node_def)

definition node_reachable :: "node \<Rightarrow> node \<Rightarrow> bool" where
  "node_reachable = rtranclp node_step"

lemma node_reachable_inv: "node_reachable n n' \<Longrightarrow> node_inv n \<Longrightarrow> node_inv n'"
  unfolding node_reachable_def by (induction rule: rtranclp_induct) (auto intro: node_step_inv)


section \<open>Deliveries\<close>

definition ring_push :: "string \<times> string \<Rightarrow> (string \<times> string) list \<Rightarrow> (string \<times> string) list" where
  "ring_push m q = (if 200 \<le> length q then tl q else q) @ [m]"

lemma push_message_msgs [simp]: "n_msgs (push_message m n) = ring_push m (n_msgs n)"
  by (simp add: push_message_def ring_push_def Let_def)

text \<open>The ring buffer against its specification: the last 200 messages.\<close>

lemma ring_push_last:
  assumes "q = drop (length ms - 200) ms"
  shows "ring_push m q = drop (length (ms @ [m]) - 200) (ms @ [m])"
proof (cases "200 \<le> length ms")
  case True
  have "tl q = drop (Suc (length ms - 200)) ms" unfolding assms by (simp only: drop_Suc tl_drop)
  moreover have "Suc (length ms - 200) = Suc (length ms) - 200" using True by simp
  ultimately have "tl q = drop (Suc (length ms) - 200) ms" by simp
  then show ?thesis using True assms by (simp add: ring_push_def)
next
  case False
  then show ?thesis using assms by (simp add: ring_push_def)
qed

lemma fold_ring_push:
  "fold ring_push ms (drop (length old - 200) old) = drop (length (old @ ms) - 200) (old @ ms)"
proof (induction ms arbitrary: old)
  case Nil
  then show ?case by simp
next
  case (Cons m ms)
  then show ?case using ring_push_last [OF refl, of m old] Cons.IH [of "old @ [m]"] by simp
qed

fun recv_iterations :: "int \<Rightarrow> nat \<Rightarrow> nat \<Rightarrow> node \<Rightarrow> bool \<times> node" where
  "recv_iterations now p 0 n = (True, n)"
| "recv_iterations now p (Suc k) n =
     (case recv_iteration now p n of
        (False, n') \<Rightarrow> (False, n')
      | (True, n') \<Rightarrow> recv_iterations now p k n')"

text \<open>The texts that the results of a run of the registry add to the ring buffer.\<close>

definition outputs :: "string \<Rightarrow> (u32 \<times> bytes option) list \<Rightarrow> (string \<times> string) list" where
  "outputs pk rs = map (\<lambda>r. (pk, text_of (the (snd r)))) (filter (\<lambda>r. snd r \<noteq> None) rs)"

lemma recv_iteration_text:
  assumes "session_recv (pc_sess (deref n p)) (pc_conn (deref n p)) = (Some m, c)" and "parse_chunk_frame m = None"
  shows "recv_iteration now p n =
    (True, push_message (pk_hex (peer_identity_pk (pc_sess (deref n p))), text_of m)
       (assign_obj p (deref n p\<lparr>pc_conn := c\<rparr>) n))"
  using assms by (simp add: recv_iteration_def recv_msg_def take_message_def)

lemma recv_iteration_chunk:
  assumes "session_recv (pc_sess (deref n p)) (pc_conn (deref n p)) = (Some m, c)"
    and "parse_chunk_frame m = Some ci"
    and "registry_ingest now (ci_transfer_id ci) (ci_index ci) (ci_total ci) (ci_data ci)
      (pc_chunks (deref n p)) = (r, reg)"
  shows "\<exists>n'. recv_iteration now p n = (True, n') \<and> deref n' p = deref n p\<lparr>pc_conn := c, pc_chunks := reg\<rparr> \<and>
    n_msgs n' = fold ring_push (outputs (pk_hex (peer_identity_pk (pc_sess (deref n p)))) [(t, r)]) (n_msgs n)"
  using assms by (cases r) (simp_all add: recv_iteration_def recv_msg_def take_message_def outputs_def)

lemma recv_iterations_ingest:
  assumes "session_recvs k (pc_sess (deref n p)) (pc_conn (deref n p)) = (ms, c)" and "length ms = k"
    and "list_all (\<lambda>m. parse_chunk_frame m \<noteq> None) ms"
    and "ingest_run (map (\<lambda>m. arrival_of now (the (parse_chunk_frame m))) ms) (pc_chunks (deref n p)) = (rs, reg)"
  shows "\<exists>n'. recv_iterations now p k n = (True, n') \<and> deref n' p = deref n p\<lparr>pc_conn := c, pc_chunks := reg\<rparr> \<and>
    n_msgs n' = fold ring_push (outputs (pk_hex (peer_identity_pk (pc_sess (deref n p)))) rs) (n_msgs n)"
  using assms
proof (induction k arbitrary: n ms rs)
  case 0
  then show ?case by (simp add: outputs_def)
next
  case (Suc k)
  then obtain m ms' c1 where m: "session_recv (pc_sess (deref n p)) (pc_conn (deref n p)) = (Some m, c1)"
    "session_recvs k (pc_sess (deref n p)) c1 = (ms', c)" "ms = m # ms'"
    by (auto split: prod.splits option.splits)
  obtain ci where ci: "parse_chunk_frame m = Some ci" using Suc.prems(3) m(3) by auto
  obtain r reg1 where r: "registry_ingest now (ci_transfer_id ci) (ci_index ci) (ci_total ci) (ci_data ci)
      (pc_chunks (deref n p)) = (r, reg1)" by (metis prod.exhaust)
  from recv_iteration_chunk [OF m(1) ci r, of "ci_transfer_id ci"] obtain n1 where
    n1: "recv_iteration now p n = (True, n1)" "deref n1 p = deref n p\<lparr>pc_conn := c1, pc_chunks := reg1\<rparr>"
    "n_msgs n1 = fold ring_push (outputs (pk_hex (peer_identity_pk (pc_sess (deref n p)))) [(ci_transfer_id ci, r)]) (n_msgs n)"
    by blast
  obtain rs' where rs: "ingest_run (map (\<lambda>m. arrival_of now (the (parse_chunk_frame m))) ms') reg1 = (rs', reg)"
    "rs = (ci_transfer_id ci, r) # rs'"
    using Suc.prems(4) m(3) ci r by (auto simp: arrival_of_def split: prod.splits)
  have "\<exists>n'. recv_iterations now p k n1 = (True, n') \<and>
      deref n' p = deref n1 p\<lparr>pc_conn := c, pc_chunks := reg\<rparr> \<and>
      n_msgs n' = fold ring_push (outputs (pk_hex (peer_identity_pk (pc_sess (deref n1 p)))) rs') (n_msgs n1)"
    by (rule Suc.IH) (use m n1 rs Suc.prems in auto)
  then show ?case using n1 rs(2) by (auto simp: outputs_def)
qed


end
