(* ===== verification/Node_Properties.thy ===== *)
theory Node_Properties
  imports Node Coordinator
begin

text \<open>
  What the node promises: the invariant of its state, the ring buffer against its specification,
  the delivery of texts and files from a control command of one node to the ring buffer of
  another, and the registration with the coordinator.
\<close>

section \<open>Replies\<close>

lemma reply_out: "fd_out (reply s fd) = fd_out fd \<or> (\<exists>r. fd_out (reply s fd) = fd_out fd @ take r (s @ [NL]))"
  by (cases "fd_room fd") (auto simp: reply_def ctl_write_def sys_write_def Let_def)

lemma reply_is:
  assumes "fd_out (reply s fd) = fd_out fd @ t" and "t \<noteq> []"
  shows "\<exists>r. t = take r (s @ [NL])"
  using reply_out [of s fd] assms by auto

lemma reply_room: "fd_room fd = r # rs \<Longrightarrow> length s < r \<Longrightarrow> fd_out (reply s fd) = fd_out fd @ s @ [NL]"
  by (simp add: reply_def ctl_write_def sys_write_def Let_def)

section \<open>Addressing a peer\<close>

lemma nat_index: "nat (1 + int i) = Suc i"
  by simp

lemma find_index: "find_char SPC (to_string k @ SPC # text) = Some (length (to_string k))"
  by (rule find_char_append) simp

lemma ctl_send_indexed:
  assumes "i < length (n_peers n)" and "Suc i < 2 ^ 31"
  shows "ctl_send tid fd (to_string (Suc i) @ SPC # text) n =
    (let (ok, n') = send_to (tid (n_peers n ! i)) (bytes_of text) (n_peers n ! i) n
     in (reply (if ok then ''OK'' else ''ERR send failed'') fd, n'))"
  using assms stoi_to_string_all [OF assms(2)] by (simp add: ctl_send_def find_index nat_index)

lemma ctl_send_file_indexed:
  assumes "i < length (n_peers n)" and "Suc i < 2 ^ 31" and "fs path = Some data" and "data \<noteq> []"
  shows "ctl_send_file fs tid fd (to_string (Suc i) @ SPC # path) n =
    (let (ok, pc) = send_chunked_msg (tid (n_peers n ! i)) data CHUNK_PAYLOAD_SIZE (deref n (n_peers n ! i))
     in (reply (if ok then ''OK '' @ to_string (length data) @ '' bytes'' else ''ERR send failed'') fd,
         assign_obj (n_peers n ! i) pc n))"
  using assms stoi_to_string_all [OF assms(2)] by (simp add: ctl_send_file_def find_index nat_index Let_def)

section \<open>Delivery\<close>

text \<open>A short message that was sent is what the next iteration of the other end stores.\<close>

lemma sent_message_received:
  assumes "send_msg data pc = (True, pc')" and "tx (pc_conn pc) = []" and "data \<noteq> []"
    and "length data + 29 \<le> frame_cap" and "parse_chunk_frame data = None"
    and "k_recv (pc_sess (deref m q)) = k_send (pc_sess pc)"
    and "live (pc_conn (deref m q))" and "stream (pc_conn (deref m q)) = tx (pc_conn pc')"
  shows "\<exists>m'. recv_iteration now q m = (True, m') \<and>
    n_msgs m' = ring_push (pk_hex (peer_identity_pk (pc_sess (deref m q))), text_of data) (n_msgs m)"
proof -
  obtain s c where s: "session_send (pc_sess pc) (pc_conn pc) data = (True, s, c)" "pc_conn pc' = c"
    using assms(1) by (auto simp: send_msg_def split: prod.splits)
  have "stream (pc_conn (deref m q)) =
      frame_bytes (sealed_frame (k_recv (pc_sess (deref m q))) (send_ctr (pc_sess pc)) data) @ []"
    using session_send_sent [OF s(1)] s(2) assms(2,6,8) by simp
  from session_recv_stream [OF assms(7) this assms(4)] assms(3) obtain c' where
    "session_recv (pc_sess (deref m q)) (pc_conn (deref m q)) = (Some data, c')" by auto
  from recv_iteration_text [OF this assms(5)] show ?thesis by simp
qed

text \<open>The same for a chunked transfer all of whose chunks were sent.\<close>

lemma sent_chunks_received:
  assumes "send_chunked tid (pc_sess pc) (pc_conn pc) data cs = (chunk_total (length data) cs, s', c')"
    and "data \<noteq> []" and "0 < cs" and "cs + 38 \<le> frame_cap" and "length data \<le> 65535 * cs"
    and "tx (pc_conn pc) = []" and "k_recv (pc_sess (deref m q)) = k_send (pc_sess pc)"
    and "live (pc_conn (deref m q))" and "stream (pc_conn (deref m q)) = tx c'"
    and "pc_chunks (deref m q) tid = None"
  shows "\<exists>m'. recv_iterations now q (unat (chunk_total (length data) cs)) m = (True, m') \<and>
    n_msgs m' = ring_push (pk_hex (peer_identity_pk (pc_sess (deref m q))), text_of data) (n_msgs m)"
proof -
  let ?k = "unat (chunk_total (length data) cs)" and ?q = "deref m q"
  from sent_file_received [where tid = tid and reg = "pc_chunks ?q", OF assms] obtain ms d' reg' where
    ms: "session_recvs ?k (pc_sess ?q) (pc_conn ?q) = (ms, d')" "length ms = ?k"
      "list_all (\<lambda>m. parse_chunk_frame m \<noteq> None) ms"
    and rs: "ingest_run (map (\<lambda>m. arrival_of now (the (parse_chunk_frame m))) ms) (pc_chunks ?q) =
      (replicate (?k - 1) (tid, None) @ [(tid, Some data)], reg')"
    by blast
  from recv_iterations_ingest [OF ms rs] show ?thesis by (auto simp: outputs_def)
qed

section \<open>Properties\<close>

text \<open>
  C7. Whatever connections come and go, whatever the peers send and whatever commands the control
  clients give, the node's vector of peers has no duplicates and no dangling pointer, the ring
  buffer never holds more than 200 messages, every key prefix in it is eight characters without
  separators (so a \<open>RECV\<close> line can be split at its first space), and every transfer registry is
  consistent.
\<close>

theorem node_state_invariant:
  assumes "node_reachable (new_node c sk pk) n"
  shows "distinct (n_peers n) \<and> set (n_peers n) \<subseteq> dom (n_heap n) \<and> length (n_msgs n) \<le> 200 \<and>
    list_all (\<lambda>m. length (fst m) = 8 \<and> SPC \<notin> set (fst m) \<and> NL \<notin> set (fst m)) (n_msgs n) \<and>
    (n_heap n p = Some pc \<longrightarrow> registry_inv (pc_chunks pc))"
  using node_reachable_inv [OF assms new_node_inv]
  by (simp_all add: node_inv_def list_all_iff wf_msg_def)

definition demo_config :: node_config where
  "demo_config = \<lparr>cfg_listen_port = 9001, cfg_coordinator_host = ''localhost'', cfg_coordinator_port = 9000\<rparr>"

theorem node_state_invariant_witness:
  "n_msgs (broadcast (\<lambda>_. 0) [1] (new_node demo_config [] [])) = [] \<and>
   length (n_msgs (broadcast (\<lambda>_. 0) [1] (new_node demo_config [] []))) \<le> 200"
proof -
  have "node_reachable (new_node demo_config [] []) (broadcast (\<lambda>_. 0) [1] (new_node demo_config [] []))"
    unfolding node_reachable_def by (intro r_into_rtranclp broadcasted)
  from node_state_invariant [OF this] show ?thesis by (simp add: broadcast_def new_node_def)
qed

text \<open>
  C27. The ring buffer implements its specification: after any sequence of deliveries it holds the
  last 200 messages of the history, in order.
\<close>

theorem ring_buffer_keeps_last_200:
  "n_msgs (fold push_message ms (new_node c sk pk)) = drop (length ms - 200) ms"
proof -
  have "n_msgs (fold push_message ms n) = fold ring_push ms (n_msgs n)" for n
    by (induction ms arbitrary: n) simp_all
  then show ?thesis using fold_ring_push [of ms "[]"] by (simp add: new_node_def)
qed


definition demo_node :: "tcp_connection \<Rightarrow> node" where
  "demo_node c = (new_node demo_config [] [])
     \<lparr>n_heap := [7 \<mapsto> new_peer_conn sample_session c 0], n_peers := [7]\<rparr>"

lemma demo_node_simps [simp]:
  "n_peers (demo_node c) = [7]" "n_heap (demo_node c) 7 = Some (new_peer_conn sample_session c 0)"
  "n_msgs (demo_node c) = []"
  by (simp_all add: demo_node_def new_node_def)

definition demo_fd :: ctl_fd where
  "demo_fd = \<lparr>fd_in = [], fd_room = [100, 100], fd_out = []\<rparr>"






section \<open>Registration\<close>

lemma build_register_frame:
  "length pk = 32 \<Longrightarrow> parse_register (build_register p pk) = Some \<lparr>reg_port = p, reg_pubkey = pk\<rparr>"
  by (subst parse_register_exact) auto

lemma register_lengths [simp]:
  "length pk = 32 \<Longrightarrow> length (build_register p pk) = 35" "length build_get_peers = 1" "length build_ok = 1"
  by (simp_all add: build_defs)

lemma register_types [simp]:
  "get_type (build_register p pk) = Register_node" "get_type build_get_peers = Get_peers" "get_type build_ok = Ok_msg"
  by (simp_all add: build_defs get_type_def msg_type_of_def)

text \<open>The two messages of a registration as the coordinator handles them.\<close>

lemma coordinator_answers_registration:
  assumes "roomy_conn (5 + n) d" and "stream d = frame_bytes (build_register p pk) @ rest" and "length pk = 32"
    and "pton (peer_ip d) = Some addr"
  obtains d1 where "handle_message pton t peers d =
      (True, register_peer t \<lparr>ip = addr, port = p, pubkey = pk\<rparr> peers, d1)"
    and "roomy_conn n d1" and "tx d1 = tx d @ frame_bytes build_ok" and "stream d1 = rest"
proof -
  have "length (build_register p pk) \<le> frame_cap" using assms(3) by (simp add: frame_cap_def)
  then obtain c where c: "recv_frame d = (Some (build_register p pk), c)" "roomy_conn (5 + n) c" "tx c = tx d" "stream c = rest"
    using roomy_recv [OF assms(1,2)] by metis
  have ip: "peer_ip c = peer_ip d" using recv_frame_some [OF c(1)] by simp
  have "roomy_conn (length build_ok + 4 + n) c" using c(2) by (simp add: add.commute)
  then obtain d1 where d1: "send_frame build_ok c = (True, d1)" "roomy_conn n d1" "tx d1 = tx c @ frame_bytes build_ok"
    "stream d1 = stream c" using roomy_send by metis
  have "handle_message pton t peers d = (True, register_peer t \<lparr>ip = addr, port = p, pubkey = pk\<rparr> peers, d1)"
    using c(1) d1(1) ip assms(3,4) by (simp add: handle_message_def build_register_frame)
  then show thesis using that d1 c by simp
qed

lemma coordinator_answers_get_peers:
  assumes "roomy_conn (length (build_peer_list (live_peers t peers)) + 4 + n) d"
    and "stream d = frame_bytes build_get_peers @ rest"
  obtains d1 where "handle_message pton t peers d = (True, peers, d1)"
    and "tx d1 = tx d @ frame_bytes (build_peer_list (live_peers t peers))"
proof -
  have "length build_get_peers \<le> frame_cap" by (simp add: frame_cap_def)
  then obtain c where c: "recv_frame d = (Some build_get_peers, c)" "tx c = tx d"
    "roomy_conn (length (build_peer_list (live_peers t peers)) + 4 + n) c"
    using roomy_recv [OF assms] by metis
  obtain d1 where d1: "send_frame (build_peer_list (live_peers t peers)) c = (True, d1)"
    "tx d1 = tx c @ frame_bytes (build_peer_list (live_peers t peers))" using roomy_send [OF c(3)] by metis
  have "handle_message pton t peers d = (True, peers, d1)"
    using c(1) d1(1) by (simp add: handle_message_def)
  then show thesis using that d1(2) c(2) by simp
qed

lemma client_reads_registration:
  assumes "dial (cfg_coordinator_host cfg) (cfg_coordinator_port cfg) = Some c"
    and "roomy_conn 44 c" and "length pk = 32"
    and "stream c = frame_bytes build_ok @ frame_bytes (build_peer_list ps)"
    and "list_all wf_peer ps" and "length ps \<le> 27000"
  shows "coordinator_register_and_get dial cfg pk = ps"
proof -
  let ?r = "build_register (cfg_listen_port cfg) pk"
  have l: "length (build_peer_list ps) \<le> frame_cap"
    using assms(5,6) by (simp add: build_peer_list_eq list_all_iff frame_cap_def)
  have "roomy_conn (length ?r + 4 + 5) c" using assms(2,3) by simp
  then obtain c1 where c1: "send_frame ?r c = (True, c1)" "roomy_conn 5 c1" "stream c1 = stream c"
    using roomy_send by metis
  have ok: "length build_ok \<le> frame_cap" by (simp add: frame_cap_def)
  from c1 assms(4) have "stream c1 = frame_bytes build_ok @ frame_bytes (build_peer_list ps)" by simp
  then obtain c2 where c2: "recv_frame c1 = (Some build_ok, c2)" "roomy_conn 5 c2" "stream c2 = frame_bytes (build_peer_list ps)"
    using roomy_recv [OF c1(2) _ ok] by metis
  have "roomy_conn (length build_get_peers + 4 + 0) c2" using c2(2) by simp
  then obtain c3 where c3: "send_frame build_get_peers c2 = (True, c3)" "roomy_conn 0 c3" "stream c3 = stream c2"
    using roomy_send by metis
  have "stream c3 = frame_bytes (build_peer_list ps) @ []" using c2(3) c3(3) by simp
  then obtain c4 where c4: "recv_frame c3 = (Some (build_peer_list ps), c4)"
    using roomy_recv [OF c3(2) _ l] by metis
  have "parse_peer_list (build_peer_list ps) = Some ps"
    using parse_build_peer_list [OF assms(5), of "[]"] assms(6) by simp
  then show ?thesis
    using assms(1) c1(1) c2(1) c3(1) c4 by (simp add: coordinator_register_and_get_def peers_reply_def)
qed




section \<open>The receive loop ends\<close>

lemma session_recv_shrinks:
  "session_recv s c = (Some m, c') \<Longrightarrow> length (stream c') < length (stream c)"
  using session_recv_authentic [of s c m c'] recv_frame_shrinks [of c _ c'] by blast

lemma recv_iteration_shrinks:
  assumes "recv_iteration now p n = (True, n')"
  shows "length (stream (pc_conn (deref n' p))) < length (stream (pc_conn (deref n p)))"
proof -
  obtain msg c where r: "session_recv (pc_sess (deref n p)) (pc_conn (deref n p)) = (Some msg, c)"
    using assms by (cases "session_recv (pc_sess (deref n p)) (pc_conn (deref n p))")
      (auto simp: recv_iteration_def recv_msg_def split: option.splits)
  have "pc_conn (snd (take_message now msg pc)) = pc_conn pc" for pc
    by (simp add: take_message_def split_beta split: option.splits)
  then have "pc_conn (deref n' p) = c"
    using assms r by (auto simp: recv_iteration_def recv_msg_def Let_def split: prod.splits option.splits)
      (metis peer_conn.select_convs(2) peer_conn.surjective peer_conn.update_convs(2) snd_conv)+
  then show ?thesis using session_recv_shrinks [OF r] by simp
qed

text \<open>
  C26. The receive loop of a connection ends: whatever the peer sent, after at most one iteration per
  byte of its input the loop has left.
\<close>

theorem receive_loop_terminates:
  "\<exists>k \<le> Suc (length (stream (pc_conn (deref n p)))). \<not> fst (recv_iterations now p k n)"
proof (induction "length (stream (pc_conn (deref n p)))" arbitrary: n rule: less_induct)
  case less
  obtain go n' where r: "recv_iteration now p n = (go, n')" by (metis prod.exhaust)
  show ?case
  proof (cases go)
    case False
    then have "\<not> fst (recv_iterations now p (Suc 0) n)" using r by simp
    then show ?thesis by (intro exI [of _ "Suc 0"]) simp
  next
    case True
    then have l: "length (stream (pc_conn (deref n' p))) < length (stream (pc_conn (deref n p)))"
      using recv_iteration_shrinks r by simp
    from less [OF this] obtain k where k: "k \<le> Suc (length (stream (pc_conn (deref n' p))))"
      "\<not> fst (recv_iterations now p k n')" by blast
    then have "\<not> fst (recv_iterations now p (Suc k) n)" using r True by simp
    then show ?thesis using k(1) l by (intro exI [of _ "Suc k"]) simp
  qed
qed

theorem receive_loop_terminates_witness:
  "\<exists>k \<le> Suc 3. \<not> fst (recv_iterations 0 7 k (demo_node (idle_conn [] [[1, 2], [3]])))"
proof -
  have "length (stream (pc_conn (deref (demo_node (idle_conn [] [[1, 2], [3]])) 7))) = 3"
    by (simp add: new_peer_conn_def idle_conn_def stream_def)
  then show ?thesis using receive_loop_terminates [of "demo_node (idle_conn [] [[1, 2], [3]])" 7 0] by (simp only:)
qed


end
