(* ===== verification/Shell.thy ===== *)
theory Shell
  imports Node
begin

text \<open>
  The program's entry point and its interactive shell, \<open>src/main.cpp\<close>: the address parser, the
  scan of the command line, the shell's requests to the daemon, and the display of the answers.
  What goes to the console is a string; standard input is the list of lines \<open>std::getline\<close>
  returns. The banner, the usage text and the diagnostics are not modelled.
\<close>

section \<open>Addresses\<close>

definition parse_host_port :: "string \<Rightarrow> (string \<times> u16) option" where
  "parse_host_port s =
     (case rfind_char (CHR '':'') s of
        None \<Rightarrow> None
      | Some colon \<Rightarrow>
          let host = take colon s
          in case stoi (drop (colon + 1) s) of
               Inl _ \<Rightarrow> None
             | Inr p \<Rightarrow> if p \<le> 0 \<or> 65535 < p then None else Some (host, word_of_int p))"

section \<open>The command line\<close>

definition DEFAULT_SOCKET_PATH :: string where
  "DEFAULT_SOCKET_PATH = ''/tmp/p2p.sock''"

datatype main_action =
    Run_coordinator u16
  | Run_node node_config
  | Run_daemon node_config string
  | Run_shell string
  | Exit_failure
  | Uncaught cpp_exception

text \<open>
  Every scan is over the pairs \<open>(argv[i], argv[i + 1])\<close> for \<open>i\<close> from 2 to \<open>argc - 2\<close>. A number that
  \<open>std::stoi\<close> reads is cut to 16 bits; what it throws nobody catches.
\<close>

definition arg_pairs :: "string list \<Rightarrow> (string \<times> string) list" where
  "arg_pairs argv = zip (drop 2 argv) (drop 3 argv)"

fun scan_port :: "(string \<times> string) list \<Rightarrow> u16 \<Rightarrow> cpp_exception + u16" where
  "scan_port [] p = Inr p"
| "scan_port ((f, v) # as) p =
     (if f = ''--port'' then
        (case stoi v of Inl e \<Rightarrow> Inl e | Inr i \<Rightarrow> scan_port as (word_of_int i))
      else scan_port as p)"

fun scan_node :: "(string \<times> string) list \<Rightarrow> u16 \<times> string \<times> string \<Rightarrow> cpp_exception + (u16 \<times> string \<times> string)" where
  "scan_node [] st = Inr st"
| "scan_node ((f, v) # as) (listen_port, coord_addr, socket_path) =
     (if f = ''--port'' then
        (case stoi v of Inl e \<Rightarrow> Inl e | Inr i \<Rightarrow> scan_node as (word_of_int i, coord_addr, socket_path))
      else if f = ''--coordinator'' then scan_node as (listen_port, v, socket_path)
      else if f = ''--socket'' then scan_node as (listen_port, coord_addr, v)
      else scan_node as (listen_port, coord_addr, socket_path))"

fun scan_socket :: "(string \<times> string) list \<Rightarrow> string \<Rightarrow> string" where
  "scan_socket [] path = path"
| "scan_socket ((f, v) # as) path = scan_socket as (if f = ''--socket'' then v else path)"

text \<open>\<open>main\<close> up to the call that runs the chosen mode; \<open>sodium_ok\<close> is \<open>sodium_init () >= 0\<close>.\<close>

definition main_of :: "bool \<Rightarrow> string list \<Rightarrow> main_action" where
  "main_of sodium_ok argv =
     (if \<not> sodium_ok then Exit_failure
      else if length argv < 2 then Exit_failure
      else let mode = argv ! 1
      in if mode = ''coordinator'' then
           (case scan_port (arg_pairs argv) 9000 of Inl e \<Rightarrow> Uncaught e | Inr p \<Rightarrow> Run_coordinator p)
         else if mode = ''node'' \<or> mode = ''daemon'' then
           (case scan_node (arg_pairs argv) (0, [], DEFAULT_SOCKET_PATH) of
              Inl e \<Rightarrow> Uncaught e
            | Inr (listen_port, coord_addr, socket_path) \<Rightarrow>
                if listen_port = 0 \<or> coord_addr = [] then Exit_failure
                else (case parse_host_port coord_addr of
                        None \<Rightarrow> Exit_failure
                      | Some (coord_host, coord_port) \<Rightarrow>
                          let cfg = \<lparr>cfg_listen_port = listen_port, cfg_coordinator_host = coord_host,
                                     cfg_coordinator_port = coord_port\<rparr>
                          in if mode = ''daemon'' then Run_daemon cfg socket_path else Run_node cfg))
         else if mode = ''shell'' then Run_shell (scan_socket (arg_pairs argv) DEFAULT_SOCKET_PATH)
         else Exit_failure)"

section \<open>Displaying a message\<close>

abbreviation (input) "ESC \<equiv> CHR 0x1B"

definition MAX_LINES :: nat where "MAX_LINES = 5"

definition cont :: string where "cont = replicate 13 SPC"

definition non_text :: "string \<Rightarrow> nat" where
  "non_text text = length (filter (\<lambda>c. c \<noteq> NL \<and> c \<noteq> CR \<and> c \<noteq> TAB \<and>
     ((of_char c :: nat) < 0x20 \<or> (of_char c :: nat) = 0x7f)) text)"

text \<open>The display loop: what was printed, and the final \<open>lines\<close> and \<open>pos\<close>.\<close>

function show_lines :: "string \<Rightarrow> nat \<Rightarrow> nat \<Rightarrow> string \<times> nat \<times> nat" where
  "show_lines text lns pos =
     (if pos < length text \<and> lns < MAX_LINES then
        let nl = map_option (\<lambda>k. pos + k) (find_char NL (drop pos text));
            eol = (case nl of None \<Rightarrow> length text | Some k \<Rightarrow> k);
            line = (if lns > 0 then cont else []) @ span_at pos (eol - pos) text @ [NL];
            pos' = (case nl of None \<Rightarrow> length text | Some k \<Rightarrow> k + 1);
            (out, lns', pos'') = show_lines text (lns + 1) pos'
        in (line @ out, lns', pos'')
      else ([], lns, pos))"
  by pat_completeness auto
termination
  by (relation "measure (\<lambda>(text, lns, pos). MAX_LINES - lns)") auto

declare show_lines.simps [simp del]

definition show_message :: "string \<Rightarrow> string \<Rightarrow> string" where
  "show_message pk text =
     ''  '' @ [ESC] @ ''[32m['' @ pk @ '']'' @ [ESC] @ ''[0m '' @
     (if text \<noteq> [] \<and> non_text text > length text div 10
      then ''<binary, '' @ to_string (length text) @ '' bytes>'' @ [NL]
      else let (out, lns, pos) = show_lines text 0 0
           in out
              @ (if pos < length text
                 then cont @ [ESC] @ ''[2m... ('' @ to_string (length text) @ '' bytes)'' @ [ESC] @ ''[0m'' @ [NL] else [])
              @ (if lns = 0 then ''(empty)'' @ [NL] else []))"

section \<open>Requests to the daemon\<close>

definition send_cmd :: "string \<Rightarrow> ctl_fd \<Rightarrow> ctl_fd" where
  "send_cmd cmd fd = snd (ctl_write cmd fd)"

text \<open>
  \<open>std::stoi (hdr->substr (p))\<close> inside \<open>try\<close>; None is the \<open>return\<close> of the handler.
\<close>

definition header_count :: "nat \<Rightarrow> string \<Rightarrow> int option" where
  "header_count p hdr =
     (case substr_from p hdr of
        Inl _ \<Rightarrow> None
      | Inr s \<Rightarrow> (case stoi s of Inl _ \<Rightarrow> None | Inr c \<Rightarrow> Some c))"

fun list_lines :: "nat \<Rightarrow> line_reader \<Rightarrow> ctl_fd \<Rightarrow> string \<times> line_reader \<times> ctl_fd" where
  "list_lines 0 r fd = ([], r, fd)"
| "list_lines (Suc k) r fd =
     (case read_line r fd of
        (None, r, fd) \<Rightarrow> ([], r, fd)
      | (Some l, r, fd) \<Rightarrow>
          let (out, r, fd) = list_lines k r fd in (''  '' @ l @ [NL] @ out, r, fd))"

text \<open>The rule under the column titles is a row of the box-drawing character U+2500.\<close>

definition rule_char :: string where "rule_char = text_of [0xE2, 0x94, 0x80]"

definition list_titles :: string where
  "list_titles = ''  #  id       address'' @ [NL] @ ''  '' @ rule_char @ ''  ''
     @ concat (replicate 8 rule_char) @ '' '' @ concat (replicate 17 rule_char) @ [NL]"

definition do_list :: "line_reader \<Rightarrow> ctl_fd \<Rightarrow> string \<times> line_reader \<times> ctl_fd" where
  "do_list r fd =
     (let fd = send_cmd ''LIST'' fd
      in case read_line r fd of
           (None, r, fd) \<Rightarrow> ([], r, fd)
         | (Some hdr, r, fd) \<Rightarrow>
             (case header_count 6 hdr of
                None \<Rightarrow> ([], r, fd)
              | Some count \<Rightarrow>
                  if count = 0 then (''  (no peers connected yet)'' @ [NL], r, fd)
                  else let (out, r, fd) = list_lines (nat count) r fd in (list_titles @ out, r, fd)))"

definition show_recv_line :: "string \<Rightarrow> string" where
  "show_recv_line esc =
     (case find_char SPC esc of
        None \<Rightarrow> []
      | Some sp \<Rightarrow> show_message (take sp esc) (unescape_ctl (drop (sp + 1) esc)))"

fun recv_lines :: "nat \<Rightarrow> line_reader \<Rightarrow> ctl_fd \<Rightarrow> string \<times> line_reader \<times> ctl_fd" where
  "recv_lines 0 r fd = ([], r, fd)"
| "recv_lines (Suc k) r fd =
     (case read_line r fd of
        (None, r, fd) \<Rightarrow> ([], r, fd)
      | (Some esc, r, fd) \<Rightarrow>
          let (out, r, fd) = recv_lines k r fd in (show_recv_line esc @ out, r, fd))"

definition do_recv :: "line_reader \<Rightarrow> ctl_fd \<Rightarrow> string \<times> line_reader \<times> ctl_fd" where
  "do_recv r fd =
     (let fd = send_cmd ''RECV'' fd
      in case read_line r fd of
           (None, r, fd) \<Rightarrow> ([], r, fd)
         | (Some hdr, r, fd) \<Rightarrow>
             (case header_count 5 hdr of
                None \<Rightarrow> ([], r, fd)
              | Some count \<Rightarrow> recv_lines (nat count) r fd))"

section \<open>The command loop\<close>

datatype shell_request = Req_quit | Req_peers | Req_msgs | Req_daemon string | Req_unknown

definition shell_request_of :: "string \<Rightarrow> shell_request" where
  "shell_request_of line =
     (if line = ''/quit'' \<or> line = ''/exit'' then Req_quit
      else if line = ''/peers'' then Req_peers
      else if line = ''/msgs'' then Req_msgs
      else if length line > 5 \<and> take 5 line = ''/msg '' then Req_daemon (''SEND '' @ drop 5 line)
      else if length line > 6 \<and> take 6 line = ''/file '' then Req_daemon (''SENDFILE '' @ drop 6 line)
      else if length line > 5 \<and> take 5 line = ''/all '' then Req_daemon (''BROADCAST '' @ drop 5 line)
      else Req_unknown)"

definition do_request :: "string \<Rightarrow> line_reader \<Rightarrow> ctl_fd \<Rightarrow> string \<times> line_reader \<times> ctl_fd" where
  "do_request cmd r fd =
     (case read_line r (send_cmd cmd fd) of
        (None, r, fd) \<Rightarrow> ([], r, fd)
      | (Some resp, r, fd) \<Rightarrow> (''  '' @ resp @ [NL], r, fd))"

definition unknown_command :: string where
  "unknown_command = ''  Unknown command. Try /peers, /msg, /file, /all, /msgs, /quit'' @ [NL]"

definition shell_prompt :: string where
  "shell_prompt = [NL] @ [ESC] @ ''[1m>'' @ [ESC] @ ''[0m ''"

text \<open>The loop, on the lines that standard input still holds.\<close>

fun shell_loop :: "string list \<Rightarrow> line_reader \<Rightarrow> ctl_fd \<Rightarrow> string \<times> ctl_fd" where
  "shell_loop input r fd =
     (let (out, r, fd) = do_recv r fd; out = out @ shell_prompt
      in case input of
           [] \<Rightarrow> (out, fd)
         | line # input \<Rightarrow>
             if line = [] then (let (rest, fd) = shell_loop input r fd in (out @ rest, fd))
             else (case shell_request_of line of
                     Req_quit \<Rightarrow> (out, send_cmd ''QUIT'' fd)
                   | Req_peers \<Rightarrow>
                       let (o1, r, fd) = do_list r fd; (rest, fd) = shell_loop input r fd in (out @ o1 @ rest, fd)
                   | Req_msgs \<Rightarrow>
                       let (o1, r, fd) = do_recv r fd; (rest, fd) = shell_loop input r fd in (out @ o1 @ rest, fd)
                   | Req_daemon cmd \<Rightarrow>
                       let (o1, r, fd) = do_request cmd r fd; (rest, fd) = shell_loop input r fd in (out @ o1 @ rest, fd)
                   | Req_unknown \<Rightarrow>
                       let (rest, fd) = shell_loop input r fd in (out @ unknown_command @ rest, fd)))"

declare shell_loop.simps [simp del]

text \<open>\<open>run_shell\<close> after \<open>unix_connect\<close> succeeded, without the banner.\<close>

definition run_shell :: "string list \<Rightarrow> ctl_fd \<Rightarrow> string \<times> ctl_fd" where
  "run_shell input fd =
     (let (o1, r, fd) = do_list \<lparr>buf = []\<rparr> fd;
          (rest, fd) = shell_loop input r fd
      in (''Peers at startup:'' @ [NL] @ o1 @ rest, fd))"

end
