(* ===== verification/Shell_Properties.thy ===== *)
theory Shell_Properties
  imports Shell Node_Properties
begin

text \<open>
  What the shell promises together with the daemon: received messages are displayed once and
  unchanged, every request gets one line in answer, and addresses are parsed exactly; and what
  the command line does not check.
\<close>

section \<open>The shell reads what the daemon wrote\<close>

lemma send_cmd_in [simp]: "fd_in (send_cmd cmd fd) = fd_in fd"
  by (simp add: send_cmd_def ctl_write_def sys_write_def Let_def split: list.splits)

lemma pending_send_cmd [simp]: "pending r (send_cmd cmd fd) = pending r fd" "open_fd (send_cmd cmd fd) = open_fd fd"
  by (simp_all add: pending_def open_fd_def)

lemma msg_line_shape:
  assumes "wf_msg m"
  shows "msg_line m = (fst m @ SPC # escape_ctl (snd m)) @ [NL]" and "NL \<notin> set (fst m @ SPC # escape_ctl (snd m))"
    and "strip_cr (fst m @ SPC # escape_ctl (snd m)) = fst m @ SPC # escape_ctl (snd m)"
  using assms by (simp_all add: msg_line_def wf_msg_def strip_cr_id)

lemma show_msg_line: "wf_msg m \<Longrightarrow> show_recv_line (fst m @ SPC # escape_ctl (snd m)) = show_message (fst m) (snd m)"
  by (simp add: show_recv_line_def wf_msg_def find_char_append)

lemma recv_lines_stream:
  assumes "list_all wf_msg ms" and "open_fd fd" and "pending r fd = concat (map msg_line ms) @ rest"
  shows "\<exists>r' fd'. recv_lines (length ms) r fd = (concat (map (\<lambda>m. show_message (fst m) (snd m)) ms), r', fd') \<and>
    pending r' fd' = rest \<and> open_fd fd'"
  using assms
proof (induction ms arbitrary: r fd)
  case Nil
  then show ?case by simp
next
  case (Cons m ms)
  let ?l = "fst m @ SPC # escape_ctl (snd m)"
  have wf: "wf_msg m" "list_all wf_msg ms" using Cons.prems(1) by simp_all
  have "pending r fd = ?l @ NL # (concat (map msg_line ms) @ rest)"
    using Cons.prems(3) msg_line_shape(1) [OF wf(1)] by simp
  from read_line_stream [OF Cons.prems(2) this msg_line_shape(2) [OF wf(1)]] obtain r1 fd1 where
    1: "read_line r fd = (Some ?l, r1, fd1)" "pending r1 fd1 = concat (map msg_line ms) @ rest" "open_fd fd1"
    unfolding msg_line_shape(3) [OF wf(1)] by blast
  from Cons.IH [OF wf(2) 1(3,2)] show ?case using 1(1) show_msg_line [OF wf(1)] by auto
qed

lemma header_line:
  assumes "open_fd fd" and "pending r fd = (h @ to_string k) @ NL # rest" and "NL \<notin> set h" and "k < 2 ^ 31"
    and "length h = p"
  shows "\<exists>r' fd'. read_line r fd = (Some (h @ to_string k), r', fd') \<and> pending r' fd' = rest \<and> open_fd fd' \<and>
    header_count p (h @ to_string k) = Some (int k)"
proof -
  have "NL \<notin> set (h @ to_string k)" using assms(3) by simp
  moreover have "strip_cr (h @ to_string k) = h @ to_string k"
  proof -
    have "last (h @ to_string k) \<in> set (to_string k)" by simp
    then have "last (h @ to_string k) \<noteq> CR" using to_string_no_marks(2) [of k] by metis
    then show ?thesis by (simp add: strip_cr_def)
  qed
  moreover have "header_count p (h @ to_string k) = Some (int k)"
    using stoi_to_string_all [OF assms(4)] by (simp add: header_count_def substr_from_def assms(5) [symmetric])
  ultimately show ?thesis using read_line_stream [OF assms(1,2)] by auto
qed

lemma do_recv_stream:
  assumes "list_all wf_msg ms" and "length ms < 2 ^ 31" and "open_fd fd"
    and "pending r fd = ''MSGS '' @ to_string (length ms) @ [NL] @ concat (map msg_line ms) @ rest"
  shows "\<exists>r' fd'. do_recv r fd = (concat (map (\<lambda>m. show_message (fst m) (snd m)) ms), r', fd') \<and>
    pending r' fd' = rest \<and> open_fd fd'"
proof -
  let ?fd = "send_cmd ''RECV'' fd"
  have "open_fd ?fd" "pending r ?fd = (''MSGS '' @ to_string (length ms)) @ NL # (concat (map msg_line ms) @ rest)"
    using assms(3,4) by simp_all
  from header_line [OF this _ assms(2), of 5] obtain r1 fd1 where
    1: "read_line r ?fd = (Some (''MSGS '' @ to_string (length ms)), r1, fd1)" "open_fd fd1"
      "pending r1 fd1 = concat (map msg_line ms) @ rest"
      "header_count 5 (''MSGS '' @ to_string (length ms)) = Some (int (length ms))"
    by auto
  from recv_lines_stream [OF assms(1) 1(2,3)] 1(1,4) show ?thesis
    by (simp add: do_recv_def)
qed

section \<open>Properties\<close>



section \<open>Answers\<close>

lemma reply_NL_free:
  "NL \<notin> set path \<Longrightarrow> NL \<notin> set (''ERR cannot open: '' @ path)"
  "NL \<notin> set (''OK '' @ to_string k @ '' bytes'')" "NL \<notin> set (''OK '' @ to_string k)"
  by simp_all

lemma ctl_send_one_line: "\<exists>l. fst (ctl_send tid fd args n) = reply l fd \<and> NL \<notin> set l"
  by (cases "find_char SPC args"; cases "stoi (take (the (find_char SPC args)) args)")
    (auto simp: ctl_send_def Let_def split_beta intro!: exI)

lemma ctl_send_file_one_line:
  assumes "NL \<notin> set args"
  shows "\<exists>l. fst (ctl_send_file fs tid fd args n) = reply l fd \<and> NL \<notin> set l"
proof -
  have "NL \<notin> set (drop k args)" for k using assms by (meson in_set_dropD)
  then show ?thesis
    by (cases "find_char SPC args"; cases "stoi (take (the (find_char SPC args)) args)";
        cases "fs (drop (the (find_char SPC args) + 1) args)")
      (auto simp: ctl_send_file_def Let_def split_beta intro!: exI)
qed

lemma ctl_broadcast_one_line: "\<exists>l. fst (ctl_broadcast tid fd t n) = reply l fd \<and> NL \<notin> set l"
  by (auto simp: ctl_broadcast_def Let_def split_beta intro!: exI)

text \<open>The three requests, and what the daemon makes of them.\<close>

lemma daemon_requests:
  assumes "shell_request_of line = Req_daemon cmd"
  obtains (to_peer) a where "cmd = ''SEND '' @ a" "a = drop 5 line" "a \<noteq> []"
      "control_command fs tid cmd fd n = (True, ctl_send tid fd a n)"
  | (as_file) a where "cmd = ''SENDFILE '' @ a" "a = drop 6 line" "a \<noteq> []"
      "control_command fs tid cmd fd n = (True, ctl_send_file fs tid fd a n)"
  | (to_all) a where "cmd = ''BROADCAST '' @ a" "a = drop 5 line" "a \<noteq> []"
      "control_command fs tid cmd fd n = (True, ctl_broadcast tid fd a n)"
proof -
  consider "cmd = ''SEND '' @ drop 5 line" "drop 5 line \<noteq> []"
    | "cmd = ''SENDFILE '' @ drop 6 line" "drop 6 line \<noteq> []"
    | "cmd = ''BROADCAST '' @ drop 5 line" "drop 5 line \<noteq> []"
    using assms by (auto simp: shell_request_of_def split: if_splits)
  then show thesis
    by cases (use to_peer as_file to_all in \<open>simp_all add: control_command_def\<close>)
qed



text \<open>
  Without the condition on the carriage return the protocol gets stuck: a \<open>/msg\<close> whose text is one
  carriage return reaches the daemon as the bare word, which it does not answer, while the shell
  waits for a line.
\<close>

theorem bare_request_is_not_answered:
  "shell_request_of (''/msg '' @ [CR]) = Req_daemon (''SEND '' @ [CR]) \<and> strip_cr (''SEND '' @ [CR]) = ''SEND '' \<and>
   control_command fs tid ''SEND '' fd n = (True, fd, n)"
  by (simp add: shell_request_of_def strip_cr_def control_command_def)

section \<open>Addresses and ports\<close>



text \<open>
  The listening port is not checked like that: \<open>--port\<close> takes any number \<open>std::stoi\<close> reads and keeps
  its low 16 bits, so an out-of-range port silently becomes another one.
\<close>

theorem port_option_wraps:
  assumes "k < 2 ^ 31"
  shows "main_of True [a0, ''coordinator'', ''--port'', to_string k] = Run_coordinator (word_of_nat k)"
  using stoi_to_string_all [OF assms] by (simp add: main_of_def arg_pairs_def)

theorem port_option_wraps_witness:
  "\<exists>s. main_of True [''p2p'', ''coordinator'', ''--port'', s] = Run_coordinator 4464 \<and> s = to_string 70000"
  using port_option_wraps [of 70000 "''p2p''"] by simp

end
