(* ===== verification/Spec2Isabelle.thy ===== *)
theory Spec2Isabelle
  imports Wire Tcp Sockets Aead Session Chunker File_Transfer Coordinator Sha_256 Sha_512
    Constant_Time Field_25519 Field_Q X25519 Rfc_7748 Ed25519 Edwards_Law Handshake Control Node Node_Properties Shell Shell_Properties
begin

text \<open>
  \<^bold>\<open>What is verified.\<close> The repository is an encrypted peer-to-peer messenger in C++20. A
  \<^emph>\<open>coordinator\<close> keeps a table of the live peers; \<^emph>\<open>nodes\<close> register with it, connect to each other
  over TCP, authenticate with an Ed25519-signed X25519 handshake and exchange ChaCha20-Poly1305
  messages, long ones in chunks; a \<^emph>\<open>shell\<close> drives a node through a control socket. All cryptography
  except random numbers is the repository's own, down to the field arithmetic. The theories
  translate that code function by function, and the lemmas show what each layer promises to the
  next.

  \<^bold>\<open>Theories and sources\<close> (paths below \<open>src/src\<close>; \<open>util\<close> is \<open>impl/crypto/util\<close>).

  \<^item> \<open>P2P_Prelude\<close>: words, byte order, slices and writes into buffers.
    \<open>Cpp_Text\<close>: \<open>std::string\<close> searches, \<open>std::to_string\<close>, \<open>std::stoi\<close>, \<open>%02x\<close>.
  \<^item> \<open>Wire\<close>: \<open>protocol/wire.*\<close>, builders and parsers of the eight message types.
  \<^item> \<open>Tcp\<close>: \<open>net/tcp.*\<close>, \<open>send_all\<close>, \<open>recv_all\<close> and length-prefixed frames. \<open>Sockets\<close>: the rest of
    that file, who owns which descriptor, \<open>tcp_server\<close>, \<open>tcp_connect\<close>, and the control sockets.
  \<^item> \<open>Limbs\<close>, \<open>Limb_Bytes\<close>: numbers as lists of limbs in a word of any width, carries, folding at
    $2^{130}-5$ and $2^{255}-19$, conversion from and to bytes; shared by the three fields.
  \<^item> \<open>Field_1305\<close>, \<open>Field_25519\<close>, \<open>Field_Q\<close>: \<open>util/math/field\<close>. \<open>Constant_Time\<close>: \<open>choice\<close>, \<open>ct_array\<close>,
    \<open>ct_optional\<close>.
  \<^item> \<open>Poly_1305\<close>, \<open>Chacha_20\<close>, \<open>Aead\<close>: \<open>impl/crypto/mac\<close>, \<open>stream_cipher\<close>, \<open>aead\<close>.
  \<^item> \<open>Hashing\<close> (padding and streaming, for both hashes), \<open>Sha_256\<close>, \<open>Sha_512\<close>: \<open>impl/crypto/hash\<close>.
  \<^item> \<open>X25519\<close>: \<open>util/math/group/montgomery_point.*\<close>, \<open>impl/crypto/key_exchange/x25519.*\<close>.
    \<open>Ed25519\<close>: \<open>util/math/group/edwards_point.*\<close>, \<open>impl/crypto/signing/eddsa.*\<close>. \<open>Rfc_7748\<close> and
    \<open>Edwards_Law\<close> hold the references for both: the ladder of the RFC and the addition law of the curve.
  \<^item> \<open>Session\<close>, \<open>Handshake\<close>: \<open>session/session.*\<close>, the transport and the handshake.
  \<^item> \<open>Chunker\<close>, \<open>File_Transfer\<close>: \<open>transfer/chunker.*\<close>, and a whole transfer.
  \<^item> \<open>Coordinator\<close>: \<open>coordinator/coordinator.*\<close>.
  \<^item> \<open>Control\<close>: \<open>control/control.hpp\<close>, \<open>escape_ctl\<close> and \<open>unescape_ctl\<close>.
    \<open>Node\<close>, \<open>Node_Properties\<close>: \<open>node/node.*\<close>. \<open>Shell\<close>, \<open>Shell_Properties\<close>: \<open>main.cpp\<close>.
  \<^item> this theory: what two programs promise together.

  \<^bold>\<open>How the code is represented.\<close> A w-bit integer is a w-bit word and wraps; a size is a natural
  number, since no container reaches $2^{64}$ elements. A class is a record of its members, an
  operation a function from the old to the new record, an early return or exception a value of
  \<open>option\<close> or of a sum with an error type. Constants the sources keep in function-local statics are
  definitions. \<open>shared_ptr\<close>s of the node are numbers into a heap, because copies of the peer
  vector share the objects.

  A socket is an explicit environment: the segments its reads will return and how much each write
  takes. Both are arbitrary lists, so the theorems hold for every segmentation, short write,
  early end and failure. Threads take a mutex around shared data, so one critical section is one
  step: \<open>server_step\<close> interleaves the connection threads of the coordinator, \<open>node_step\<close> the threads
  of a node, \<open>conn_step\<close> the owners of descriptors, and the invariants hold in every reachable
  state. Loops are recursive functions with a termination proof; none has fuel. The number of
  iterations a theorem runs a loop for is explicit (the number of chunks of a file, the count a
  reply announces), and the theorem says that the loop does return after them.

  \<^bold>\<open>Parameters\<close>, for what is not under \<open>src\<close>: \<open>inet_pton\<close> (\<open>pton\<close>), \<open>inet_ntop\<close> (\<open>ntop\<close>), the clock (\<open>now\<close>),
  libsodium's random transfer ids (\<open>tid\<close>) and ephemeral secrets (\<open>eph_sk\<close>), the file system (\<open>fs\<close>),
  \<open>tcp_connect\<close> as the node uses it (\<open>dial\<close>), return values of system calls, and the uninitialised
  bytes of the hash objects (\<open>junk\<close>).

  \<^bold>\<open>What the lemmas show.\<close> Interfaces are locales, proved once and interpreted on the models:
  \<open>aead\<close> (the cipher the session uses), \<open>block_hasher\<close> (both hashes), \<open>limb_radix\<close> (both radices,
  in both accumulator widths), \<open>ct_selectable\<close> (bytes and both fields), \<open>peer_directory\<close> (the peer table).
  \<^item> Cryptography: field operations are the operations modulo the prime, within the stated limb
    bounds; Poly1305, SHA-256 and SHA-512 equal their standards; the ChaCha20 keystream is
    addressed by position; \<open>open\<close> inverts \<open>seal\<close> and nothing else; an X25519
    exchange computes the function of RFC 7748; addition, doubling and multiplication of Edwards
    points compute the addition law of the curve and stay on it; signatures use the scalar of
    RFC 8032 and have no second encoding.
  \<^item> Transport: frames, messages and chunks arrive whole, in order and unchanged; nothing is
    delivered that was not sealed under the key; nonces do not repeat; the registry stays in bounds.
  \<^item> Handshake: two honest ends finish with matching keys, and no session exists without the
    peer's signature on this run's ephemeral keys.
  \<^item> Programs: the coordinator's table, the node and the descriptors keep their invariants; a text
    or file sent by a control command is stored at the other node; the shell shows it once and
    unchanged; every request gets one line in answer.

  \<^bold>\<open>Not modelled.\<close> \<open>x25519_libsodium\<close> (each function is one call of libsodium, and nothing uses
  it), the C++ concepts under \<open>domain\<close> (constraints on types; the locales stand for them), the
  tests, the creation of threads and the waiting in \<open>run\<close> and \<open>run_daemon\<close>, and what is printed for
  the operator only. That the addition law is associative and complete (which needs the primality of $2^{255}-19$), hence
  that an honest signature verifies and that two exchanges agree, is not proved; \<open>handshake_completes\<close> takes it as
  named hypotheses about the suite. \<open>field_25519\<close> subtracts and compares correctly except on the
  rare limbs described at \<open>operator_minus_borrows\<close> and \<open>reduce_inplace_not_canonical\<close>, and the
  theorems that use it say so: \<open>ladder_clean\<close> and \<open>mul_clean\<close> follow the run of the code and ask
  that no subtraction whose result is used borrows. The ladder of the code runs over 256 bits, one
  more than that of the RFC; the reference \<open>rfc7748_ladder\<close> takes the number of bits as an argument.
\<close>

section \<open>A file across the whole stack\<close>

text \<open>
  A file sent with \<open>send_chunked\<close> arrives: when all chunks were sent over a session, the other
  end's session receives exactly that many messages, every one of them parses as a chunk, and
  feeding them to the registry yields nothing until the last one and then the file, byte for
  byte. The chunk size must leave room for the 38 bytes of headers below the frame cap and the
  file must have at most 65535 chunks.
\<close>

theorem chunked_file_arrives:
  assumes "send_chunked tid s c data cs = (chunk_total (length data) cs, s', c')"
    and "data \<noteq> []" and "0 < cs" and "cs + 38 \<le> frame_cap" and "length data \<le> 65535 * cs"
    and "tx c = []" and "k_recv r = k_send s" and "live d" and "stream d = tx c'" and "reg tid = None"
  shows "\<exists>ms d' reg'. session_recvs (unat (chunk_total (length data) cs)) r d = (ms, d') \<and>
    list_all (\<lambda>m. parse_chunk_frame m \<noteq> None) ms \<and>
    ingest_run (map (\<lambda>m. arrival_of now (the (parse_chunk_frame m))) ms) reg =
      (replicate (unat (chunk_total (length data) cs) - 1) (tid, None) @ [(tid, Some data)], reg') \<and>
    reg' tid = None"
  using sent_file_received [where tid = tid and reg = reg, OF assms] by blast

theorem chunked_file_arrives_witness:
  "\<exists>s' c' ms d' reg'. send_chunked 5 sample_session (idle_conn (replicate 200 1) []) [1, 2, 3] 2 = (2, s', c') \<and>
     session_recvs 2 sample_session (idle_conn [] [tx c']) = (ms, d') \<and>
     ingest_run (map (\<lambda>m. arrival_of 0 (the (parse_chunk_frame m))) ms) (\<lambda>_. None) =
       ([(5, None), (5, Some [1, 2, 3])], reg')"
proof -
  let ?c = "idle_conn (replicate 200 1) []" and ?d = "[1, 2, 3] :: bytes"
  have t: "chunk_total (length ?d) 2 = 2" by (simp add: chunk_total_def)
  have p: "span_at 0 (min 2 (length ?d - 0)) ?d = [1, 2]" "span_at 2 (min 2 (length ?d - 2)) ?d = [3]"
    by (simp_all add: span_at_def numeral_2_eq_2)
  let ?f0 = "make_chunk_frame 5 0 2 [1, 2]" and ?f1 = "make_chunk_frame 5 1 2 [3]"
  have l: "length ?f0 = 11" "length ?f1 = 10" by (simp_all add: make_chunk_frame_eq le16_def le32_def)
  obtain s1 c1 where 1: "session_send sample_session ?c ?f0 = (True, s1, c1)"
    "list_all (\<lambda>r. 0 < r) (tx_room c1)" "156 \<le> length (tx_room c1)"
    using session_send_room [of ?c ?f0 sample_session] l by (auto simp: idle_conn_def list_all_iff)
  obtain s2 c2 where 2: "session_send s1 c1 ?f1 = (True, s2, c2)"
    using session_send_room [of c1 ?f1 s1] 1 l by auto
  have "send_chunks 5 2 2 2 ?d s2 c2 = (2, s2, c2)" by (subst send_chunks.simps) simp
  then have "send_chunks 5 2 1 2 ?d s1 c1 = (2, s2, c2)"
    by (subst send_chunks.simps) (use 2 p(2) in \<open>simp add: Let_def\<close>)
  then have "send_chunks 5 2 0 2 ?d sample_session ?c = (2, s2, c2)"
    by (subst send_chunks.simps) (use 1 p(1) in \<open>simp add: Let_def\<close>)
  then have s: "send_chunked 5 sample_session ?c ?d 2 = (chunk_total (length ?d) 2, s2, c2)"
    using t by (simp add: send_chunked_def)
  obtain t' where tx: "tx c2 = tx c1 @ t'" using session_send_grows [OF 2] by blast
  have "tx c1 \<noteq> []" using session_send_sent [OF 1(1)] by simp
  then have d: "live (idle_conn [] [tx c2])" "stream (idle_conn [] [tx c2]) = tx c2"
    using tx by (simp_all add: idle_conn_def live_def stream_def)
  have k: "tx ?c = []" "k_recv sample_session = k_send sample_session"
    by (simp_all add: idle_conn_def sample_session_def)
  have r1: "replicate (unat (2 :: u16) - 1) (5 :: u32, None :: bytes option) = [(5, None)]" by simp
  have "2 + 38 \<le> frame_cap" "length ?d \<le> 65535 * 2" by (simp_all add: frame_cap_def)
  from chunked_file_arrives [OF s _ _ this k d, of "\<lambda>_. None" 0] s
  show ?thesis unfolding t r1 by auto
qed

section \<open>Two nodes, from the connection to the message\<close>

lemma setup_peer_initiator:
  assumes "handshake_as_initiator C a c (n_isk n) (n_ipk n) = (Inr s, c')"
  shows "\<exists>l. setup_peer C a dial p c True lport n = Inr (add_peer p (assign_obj p (new_peer_conn s c' l) n))"
  using assms by (auto simp: setup_peer_def)

lemma setup_peer_responder:
  assumes "handshake_as_responder C b c (n_isk n) (n_ipk n) = (Inr s, c')"
  shows "\<exists>l. setup_peer C b dial p c False lport n = Inr (add_peer p (assign_obj p (new_peer_conn s c' l) n))"
  using assms by (auto simp: setup_peer_def)

lemma add_peer_fields [simp]:
  "n_peers (add_peer p n) = n_peers n @ [p]" "n_heap (add_peer p n) = n_heap n" "n_msgs (add_peer p n) = n_msgs n"
  by (simp_all add: add_peer_def)



definition greeting_node :: "bytes \<Rightarrow> bytes \<Rightarrow> node" where
  "greeting_node sk pk = new_node demo_config sk pk"

lemma greeting_node_simps [simp]:
  "n_isk (greeting_node sk pk) = sk" "n_ipk (greeting_node sk pk) = pk" "n_peers (greeting_node sk pk) = []"
  "n_msgs (greeting_node sk pk) = []"
  by (simp_all add: greeting_node_def new_node_def)

text \<open>The initiator's connection, and the responder's with what the initiator wrote.\<close>

definition greeting_conn :: tcp_connection where
  "greeting_conn = idle_conn (replicate 173 1)
     [frame_bytes (resp_frame xor_suite [1] [2] [8] (replicate 32 6)), frame_bytes build_ok]"



end
